(* ===== verification/Prelude.thy ===== *)
theory Prelude
  imports Main "HOL-Library.Word"
begin

unbundle bit_operations_syntax

text \<open>
  Shared vocabulary of the development: Go's byte slices and 64-bit unsigned integers, the
  big-endian reading of a byte string, and the generic lemmas on lists and words that the
  components use.  A slice is a list; a slice's length is a \<open>nat\<close>; a \<open>byte\<close> is an
  8-bit word and a \<open>uint64\<close> a 64-bit word, so that conversions truncate and sums wrap as
  they do in Go.
\<close>

type_synonym byte = "8 word"
type_synonym bytes = "byte list"
type_synonym u64 = "64 word"

named_theorems be_simps \<open>evaluation of big-endian readings\<close>

abbreviation len64 :: "'a list \<Rightarrow> u64" where
  "len64 xs \<equiv> word_of_nat (length xs)"

subsection \<open>Big-endian integers\<close>

definition be_nat :: "bytes \<Rightarrow> nat" where
  "be_nat bs = foldl (\<lambda>n b. n * 256 + unat b) 0 bs"

definition be_u64 :: "bytes \<Rightarrow> u64" where
  "be_u64 bs = foldl (\<lambda>w b. push_bit 8 w OR ucast b) 0 bs"

lemma be_nat_Nil [simp]: "be_nat [] = 0"
  by (simp add: be_nat_def)

lemma be_nat_snoc [simp]: "be_nat (bs @ [b]) = be_nat bs * 256 + unat b"
  by (simp add: be_nat_def)

lemma be_nat_append: "be_nat (as @ bs) = be_nat as * 256 ^ length bs + be_nat bs"
  by (induction bs rule: rev_induct)
    (simp_all add: algebra_simps flip: append_assoc)

lemma be_nat_Cons: "be_nat (b # bs) = unat b * 256 ^ length bs + be_nat bs"
  using be_nat_append [of "[b]" bs] by (simp add: be_nat_def)

lemma unat_byte_less: "unat (b :: byte) < 256"
proof -
  have "unat b < 2 ^ LENGTH(8)" by (rule unsigned_less)
  then show ?thesis by simp
qed

lemma be_nat_bound: "be_nat bs < 256 ^ length bs"
proof (induction bs rule: rev_induct)
  case (snoc b bs)
  have "be_nat bs * 256 + unat b < (be_nat bs + 1) * 256"
    using unat_byte_less [of b] by simp
  also have "\<dots> \<le> 256 ^ length bs * 256"
    using snoc by (intro mult_le_mono1) simp
  finally show ?case by (simp add: mult.commute)
qed simp

lemma be_nat_lower: "bs \<noteq> [] \<Longrightarrow> hd bs \<noteq> 0 \<Longrightarrow> 256 ^ (length bs - 1) \<le> be_nat bs"
proof (cases bs)
  case (Cons b cs)
  assume "hd bs \<noteq> 0"
  with Cons have "1 \<le> unat b" by (simp add: Suc_le_eq unat_gt_0)
  then have "1 * 256 ^ length cs \<le> unat b * 256 ^ length cs"
    by (rule mult_le_mono1)
  then have "256 ^ length cs \<le> unat b * 256 ^ length cs + be_nat cs"
    by linarith
  with Cons show ?thesis by (simp add: be_nat_Cons)
qed simp

lemma be_nat_inject:
  "length as = length bs \<Longrightarrow> be_nat as = be_nat bs \<Longrightarrow> as = bs"
proof (induction as arbitrary: bs rule: rev_induct)
  case (snoc a as)
  then obtain b bs' where bs: "bs = bs' @ [b]" and len: "length as = length bs'"
    by (cases bs rule: rev_cases) auto
  have eq: "be_nat as * 256 + unat a = be_nat bs' * 256 + unat b"
    using snoc.prems(2) by (simp add: bs)
  have "unat a = unat b"
    using arg_cong [OF eq, of "\<lambda>x. x mod 256"] by (simp add: unat_byte_less)
  moreover have "be_nat as = be_nat bs'"
    using arg_cong [OF eq, of "\<lambda>x. x div 256"] by (simp add: unat_byte_less)
  ultimately show ?case using snoc.IH [OF len]
    by (simp add: bs word_unat_eq_iff)
qed simp

lemma unat_ucast_byte [simp]: "unat (ucast (b :: byte) :: u64) = unat b"
proof -
  have "unat b < 2 ^ 64" by (rule less_le_trans [OF unat_byte_less]) simp
  then show ?thesis by (simp add: unsigned_ucast_eq take_bit_nat_eq_self)
qed

lemma shift_or_byte:
  fixes w :: u64 and b :: byte
  assumes "unat w < 2 ^ 56"
  shows "unat (push_bit 8 w OR ucast b) = unat w * 256 + unat b"
proof -
  have disj: "push_bit 8 w AND (ucast b :: u64) = 0"
    by (rule bit_eqI) (auto simp: bit_simps dest: bit_imp_le_length)
  have "push_bit 8 w OR (ucast b :: u64) = push_bit 8 w + ucast b"
    using disj by (simp add: disjunctive_add_eq_or)
  moreover have "unat (push_bit 8 w) = unat w * 256"
    using assms by (simp add: push_bit_eq_mult unat_word_ariths)
  moreover have "unat (ucast b :: u64) = unat b"
    by (rule unat_ucast_byte)
  moreover have "unat w * 256 + unat b < 2 ^ 64"
    using assms unat_byte_less [of b] by simp
  ultimately show ?thesis by (simp add: unat_word_ariths)
qed

lemma unat_be_u64: "length bs \<le> 8 \<Longrightarrow> unat (be_u64 bs) = be_nat bs"
proof (induction bs rule: rev_induct)
  case (snoc b bs)
  have "be_nat bs < 256 ^ length bs" by (rule be_nat_bound)
  also have "\<dots> \<le> 256 ^ 7" using snoc.prems by (intro power_increasing) auto
  finally have "unat (be_u64 bs) < 2 ^ 56" using snoc by simp
  then show ?case using snoc shift_or_byte [of "be_u64 bs" b] by (simp add: be_u64_def)
qed (simp add: be_u64_def)

end
