(* ===== verification/Rlp_Size.thy ===== *)
theory Rlp_Size
  imports Prelude
begin

text \<open>
  The integer and length layer of package \<open>rlp\<close>: the error values and the kinds of
  \<open>decode.go\<close>, \<open>putint\<close>, \<open>intsize\<close>, \<open>headsize\<close> and \<open>puthead\<close> of
  \<open>encode.go\<close>, and \<open>readSize\<close> of \<open>raw.go\<close>.  A function that writes into a buffer
  takes the buffer and returns it updated, \<open>None\<close> being Go's index-out-of-range panic.
\<close>

datatype kind = Byte | String | List

datatype rlp_error =
    EOL
  | ErrExpectedString
  | ErrExpectedList
  | ErrCanonInt
  | ErrCanonSize
  | ErrElemTooLarge
  | ErrValueTooLarge
  | ErrMoreThanOneValue
  | ErrNotInList
  | ErrNotAtEOL
  | ErrUintOverflow
  | ErrNoPointer
  | ErrDecodeIntoNil
  | IoEOF
  | IoErrUnexpectedEOF
  | ErrInvalidBool u64
  | ErrTooFewElements
  | ErrInputTooLong
  | ErrInputTooShort
  | ErrWrongEmptyKind
  | ErrNotSerializable

subsection \<open>Writing integers\<close>

lemma unat_drop8: "unat (drop_bit 8 (i :: u64)) = unat i div 256"
  by (simp only: unat_drop_bit_eq) (simp add: drop_bit_eq_div)

definition putint_bytes :: "u64 \<Rightarrow> bytes" where
  "putint_bytes i =
     (if i < push_bit 8 1 then [ucast i]
      else if i < push_bit 16 1 then [ucast (drop_bit 8 i), ucast i]
      else if i < push_bit 24 1 then
        [ucast (drop_bit 16 i), ucast (drop_bit 8 i), ucast i]
      else if i < push_bit 32 1 then
        [ucast (drop_bit 24 i), ucast (drop_bit 16 i), ucast (drop_bit 8 i), ucast i]
      else if i < push_bit 40 1 then
        [ucast (drop_bit 32 i), ucast (drop_bit 24 i), ucast (drop_bit 16 i),
         ucast (drop_bit 8 i), ucast i]
      else if i < push_bit 48 1 then
        [ucast (drop_bit 40 i), ucast (drop_bit 32 i), ucast (drop_bit 24 i),
         ucast (drop_bit 16 i), ucast (drop_bit 8 i), ucast i]
      else if i < push_bit 56 1 then
        [ucast (drop_bit 48 i), ucast (drop_bit 40 i), ucast (drop_bit 32 i),
         ucast (drop_bit 24 i), ucast (drop_bit 16 i), ucast (drop_bit 8 i), ucast i]
      else
        [ucast (drop_bit 56 i), ucast (drop_bit 48 i), ucast (drop_bit 40 i),
         ucast (drop_bit 32 i), ucast (drop_bit 24 i), ucast (drop_bit 16 i),
         ucast (drop_bit 8 i), ucast i])"

definition putint :: "bytes \<Rightarrow> u64 \<Rightarrow> (bytes \<times> nat) option" where
  "putint b i =
     (let bs = putint_bytes i in
      if length bs \<le> length b then Some (bs @ drop (length bs) b, length bs) else None)"

function intsize_loop :: "nat \<Rightarrow> u64 \<Rightarrow> nat" where
  "intsize_loop sz i =
     (let i = drop_bit 8 i in if i = 0 then sz else intsize_loop (sz + 1) i)"
  by pat_completeness auto
termination
proof (relation "measure (\<lambda>(sz, i). unat i)")
  fix sz :: nat and i x :: u64
  assume x: "x = drop_bit 8 i" "x \<noteq> 0"
  then have "0 < unat i" by (auto simp: unat_gt_0)
  then show "((sz + 1, x), sz, i) \<in> measure (\<lambda>(sz, i). unat i)"
    by (simp add: x unat_drop8)
qed simp

definition intsize :: "u64 \<Rightarrow> nat" where
  "intsize i = intsize_loop 1 i"

definition headsize :: "u64 \<Rightarrow> nat" where
  "headsize sz = (if sz < 56 then 1 else 1 + intsize sz)"

text \<open>\<open>puthead\<close> writes the tag into \<open>buf[0]\<close> and a long size after it.\<close>

definition puthead :: "bytes \<Rightarrow> byte \<Rightarrow> byte \<Rightarrow> u64 \<Rightarrow> (bytes \<times> nat) option" where
  "puthead buf smalltag largetag sz =
     (if sz < 56 then
        (case buf of [] \<Rightarrow> None | _ # rest \<Rightarrow> Some ((smalltag + ucast sz) # rest, 1))
      else case buf of
        [] \<Rightarrow> None
      | _ # rest \<Rightarrow>
          (case putint rest sz of
            None \<Rightarrow> None
          | Some (rest', sizesize) \<Rightarrow>
              Some ((largetag + word_of_nat sizesize) # rest', sizesize + 1)))"

subsection \<open>Reading sizes\<close>

definition readSize_word :: "bytes \<Rightarrow> byte \<Rightarrow> u64" where
  "readSize_word b slen =
     (if slen = 1 then ucast (b ! 0)
      else if slen = 2 then push_bit 8 (ucast (b ! 0)) OR ucast (b ! 1)
      else if slen = 3 then
        push_bit 16 (ucast (b ! 0)) OR push_bit 8 (ucast (b ! 1)) OR ucast (b ! 2)
      else if slen = 4 then
        push_bit 24 (ucast (b ! 0)) OR push_bit 16 (ucast (b ! 1)) OR
        push_bit 8 (ucast (b ! 2)) OR ucast (b ! 3)
      else if slen = 5 then
        push_bit 32 (ucast (b ! 0)) OR push_bit 24 (ucast (b ! 1)) OR
        push_bit 16 (ucast (b ! 2)) OR push_bit 8 (ucast (b ! 3)) OR ucast (b ! 4)
      else if slen = 6 then
        push_bit 40 (ucast (b ! 0)) OR push_bit 32 (ucast (b ! 1)) OR
        push_bit 24 (ucast (b ! 2)) OR push_bit 16 (ucast (b ! 3)) OR
        push_bit 8 (ucast (b ! 4)) OR ucast (b ! 5)
      else if slen = 7 then
        push_bit 48 (ucast (b ! 0)) OR push_bit 40 (ucast (b ! 1)) OR
        push_bit 32 (ucast (b ! 2)) OR push_bit 24 (ucast (b ! 3)) OR
        push_bit 16 (ucast (b ! 4)) OR push_bit 8 (ucast (b ! 5)) OR ucast (b ! 6)
      else if slen = 8 then
        push_bit 56 (ucast (b ! 0)) OR push_bit 48 (ucast (b ! 1)) OR
        push_bit 40 (ucast (b ! 2)) OR push_bit 32 (ucast (b ! 3)) OR
        push_bit 24 (ucast (b ! 4)) OR push_bit 16 (ucast (b ! 5)) OR
        push_bit 8 (ucast (b ! 6)) OR ucast (b ! 7)
      else 0)"

definition readSize :: "bytes \<Rightarrow> byte \<Rightarrow> rlp_error + u64" where
  "readSize b slen =
     (if length b < unat slen then Inl IoErrUnexpectedEOF
      else
        let s = readSize_word b slen in
        if s < 56 \<or> b ! 0 = 0 then Inl ErrCanonSize else Inr s)"

subsection \<open>Reading a written integer back\<close>

text \<open>\<open>be_enc k i\<close> is the low \<open>k\<close> bytes of \<open>i\<close>, most significant first.\<close>

fun be_enc :: "nat \<Rightarrow> u64 \<Rightarrow> bytes" where
  "be_enc 0 i = []"
| "be_enc (Suc k) i = be_enc k (drop_bit 8 i) @ [ucast i]"

lemma be_enc_numeral:
  "be_enc (numeral k) i = be_enc (pred_numeral k) (drop_bit 8 i) @ [ucast i]"
  by (simp add: numeral_eq_Suc)

lemma length_be_enc [simp]: "length (be_enc k i) = k"
  by (induction k arbitrary: i) auto

lemma unat_ucast_low: "unat (ucast (i :: u64) :: byte) = unat i mod 256"
  by (simp add: unsigned_ucast_eq take_bit_eq_mod)

lemma be_nat_be_enc: "be_nat (be_enc k i) = unat i mod 256 ^ k"
proof (induction k arbitrary: i)
  case (Suc k)
  have "unat i mod (256 * 256 ^ k) = 256 * (unat i div 256 mod 256 ^ k) + unat i mod 256"
    by (rule mod_mult2_eq)
  with Suc show ?case by (simp add: unat_drop8 unat_ucast_low)
qed simp

lemma u64_less_push: "k < 64 \<Longrightarrow> i < push_bit k (1 :: u64) \<longleftrightarrow> unat i < 2 ^ k"
proof -
  assume k: "k < 64"
  have "unat (word_of_nat (2 ^ k) :: u64) = 2 ^ k"
    using k by (simp only: unsigned_of_nat) (simp add: take_bit_nat_eq_self)
  then show ?thesis by (simp add: word_less_nat_alt push_bit_eq_mult)
qed

lemma intsize_loop_add: "intsize_loop (n + k) i = n + intsize_loop k i"
proof (induction k i arbitrary: n rule: intsize_loop.induct)
  case (1 k i)
  show ?case
  proof (cases "drop_bit 8 i = 0")
    case True
    then show ?thesis
      by (simp add: intsize_loop.simps [of "n + k" i] intsize_loop.simps [of k i])
  next
    case False
    with "1.IH" [of "drop_bit 8 i" n] show ?thesis
      by (simp add: intsize_loop.simps [of "n + k" i] intsize_loop.simps [of k i])
  qed
qed

lemma intsize_rec:
  "intsize i = (if unat i < 256 then 1 else Suc (intsize (drop_bit 8 i)))"
proof -
  have "drop_bit 8 i = 0 \<longleftrightarrow> unat i < 256"
    by (auto simp: unat_drop8 simp flip: unat_eq_zero)
  then show ?thesis
    using intsize_loop_add [of 1 1 "drop_bit 8 i"]
    by (simp add: intsize_def intsize_loop.simps [of 1 i])
qed

lemma intsize_le: "0 < k \<Longrightarrow> intsize i \<le> k \<longleftrightarrow> unat i < 256 ^ k"
proof (induction k arbitrary: i)
  case (Suc k)
  note IH = Suc.IH
  show ?case
  proof (cases "unat i < 256")
    case True
    have "(256 :: nat) ^ 1 \<le> 256 ^ Suc k" by (rule power_increasing) simp_all
    with True have "unat i < 256 ^ Suc k" by (metis less_le_trans power_one_right)
    with True show ?thesis by (simp add: intsize_rec [of i])
  next
    case False
    then have rec: "intsize i = Suc (intsize (drop_bit 8 i))"
      by (simp add: intsize_rec [of i])
    have pos: "1 \<le> intsize (drop_bit 8 i)"
      by (simp add: intsize_rec [of "drop_bit 8 i"])
    show ?thesis
    proof (cases k)
      case 0
      with False rec pos show ?thesis by simp
    next
      case (Suc k')
      then have "intsize (drop_bit 8 i) \<le> k \<longleftrightarrow> unat i div 256 < 256 ^ k"
        using IH [of "drop_bit 8 i"] by (simp add: unat_drop8)
      with rec show ?thesis by (simp add: div_less_iff_less_mult mult.commute)
    qed
  qed
qed simp

lemma intsize_pos: "1 \<le> intsize i"
  by (simp add: intsize_rec [of i])

lemma intsize_le8: "intsize i \<le> 8"
proof -
  have "unat i < 2 ^ LENGTH(64)" by (rule unsigned_less)
  then show ?thesis by (simp add: intsize_le)
qed

lemma intsize_eq:
  assumes "0 < k" and "unat i < 256 ^ Suc k" and "\<not> unat i < 256 ^ k"
  shows "intsize i = Suc k"
  using intsize_le [of "Suc k" i] intsize_le [of k i] assms by simp

lemma less_push_intsize:
  assumes "n = 8 * k" and "0 < k" and "k < 8"
  shows "i < push_bit n (1 :: u64) \<longleftrightarrow> intsize i \<le> k"
proof -
  have "i < push_bit n (1 :: u64) \<longleftrightarrow> unat i < 2 ^ n"
    using assms by (intro u64_less_push) simp
  also have "(2 :: nat) ^ n = 256 ^ k" using assms(1) by (simp add: power_mult)
  finally show ?thesis using assms(2) by (simp add: intsize_le)
qed

lemma putint_bytes_be_enc: "putint_bytes i = be_enc (intsize i) i"
proof -
  have
    "i < push_bit 8 1 \<longleftrightarrow> intsize i \<le> 1" "i < push_bit 16 1 \<longleftrightarrow> intsize i \<le> 2"
    "i < push_bit 24 1 \<longleftrightarrow> intsize i \<le> 3" "i < push_bit 32 1 \<longleftrightarrow> intsize i \<le> 4"
    "i < push_bit 40 1 \<longleftrightarrow> intsize i \<le> 5" "i < push_bit 48 1 \<longleftrightarrow> intsize i \<le> 6"
    "i < push_bit 56 1 \<longleftrightarrow> intsize i \<le> 7"
    by (rule less_push_intsize; simp)+
  note conds = this
  have "intsize i = 1 \<or> intsize i = 2 \<or> intsize i = 3 \<or> intsize i = 4 \<or> intsize i = 5
      \<or> intsize i = 6 \<or> intsize i = 7 \<or> intsize i = 8"
    using intsize_pos [of i] intsize_le8 [of i] by arith
  then show ?thesis
    unfolding putint_bytes_def conds by (elim disjE) (simp_all add: be_enc_numeral)
qed

lemma length_putint_bytes [simp]: "length (putint_bytes i) = intsize i"
  by (simp add: putint_bytes_be_enc)

lemma be_nat_putint_bytes: "be_nat (putint_bytes i) = unat i"
  using intsize_le [of "intsize i" i] intsize_pos [of i]
  by (simp add: putint_bytes_be_enc be_nat_be_enc)

lemma putint_bytes_ne [simp]: "putint_bytes i \<noteq> []"
  using length_putint_bytes [of i] intsize_pos [of i]
  by (metis list.size(3) not_one_le_zero)

text \<open>\<open>putint\<close> never writes a leading zero byte (but for the value zero itself).\<close>

lemma hd_putint_bytes: "i \<noteq> 0 \<Longrightarrow> hd (putint_bytes i) \<noteq> 0"
proof
  assume "i \<noteq> 0" and hd0: "hd (putint_bytes i) = 0"
  obtain c cs where cs: "putint_bytes i = c # cs" by (cases "putint_bytes i") simp_all
  have "unat i = be_nat cs"
    using hd0 be_nat_putint_bytes [of i] by (simp add: cs be_nat_Cons)
  then have lt: "unat i < 256 ^ length cs" using be_nat_bound [of cs] by simp
  have len: "intsize i = Suc (length cs)"
    using length_putint_bytes [of i] by (simp add: cs)
  show False
  proof (cases "length cs")
    case 0
    with lt \<open>i \<noteq> 0\<close> show False by (simp add: unat_gt_0 flip: unat_eq_zero)
  next
    case (Suc n)
    with lt intsize_le [of "length cs" i] len show False by simp
  qed
qed

lemma putint_bytes_unique:
  assumes "bs \<noteq> []" and "hd bs \<noteq> 0" and "be_nat bs = unat i"
  shows "bs = putint_bytes i"
proof -
  have len: "intsize i = length bs"
  proof (rule antisym)
    show "intsize i \<le> length bs"
      using assms be_nat_bound [of bs] by (simp add: intsize_le)
    show "length bs \<le> intsize i"
    proof (rule ccontr)
      assume "\<not> length bs \<le> intsize i"
      then have "intsize i \<le> length bs - 1" "0 < length bs - 1"
        using intsize_pos [of i] by auto
      then have "unat i < 256 ^ (length bs - 1)" by (simp add: intsize_le)
      with be_nat_lower [OF assms(1,2)] assms(3) show False by simp
    qed
  qed
  then show ?thesis
    using assms(3) by (intro be_nat_inject) (simp_all add: be_nat_putint_bytes)
qed

subsection \<open>Canonical sizes\<close>

lemma be_u64_take_1: "1 \<le> length b \<Longrightarrow> be_u64 (take (Suc 0) b) = ucast (b ! 0)"
  by (cases b) (simp_all add: be_u64_def)

lemma be_u64_take_numeral:
  "pred_numeral k < length b \<Longrightarrow>
   be_u64 (take (numeral k) b) =
     push_bit 8 (be_u64 (take (pred_numeral k) b)) OR ucast (b ! pred_numeral k)"
  by (simp add: numeral_eq_Suc take_Suc_conv_app_nth be_u64_def)

lemma readSize_word_be:
  assumes "slen \<in> {1, 2, 3, 4, 5, 6, 7, 8}" and "unat slen \<le> length b"
  shows "readSize_word b slen = be_u64 (take (unat slen) b)"
  using assms unfolding insert_iff empty_iff
  by (elim disjE)
    (simp_all add: readSize_word_def be_u64_take_1 be_u64_take_numeral push_bit_or or.assoc)

lemma be_u64_putint_bytes: "be_u64 (putint_bytes i) = i"
  by (simp add: word_unat_eq_iff unat_be_u64 intsize_le8 be_nat_putint_bytes)

text \<open>
  \<open>readSize\<close> accepts exactly the minimal big-endian form of a size of at least 56, and
  returns that size.
\<close>

lemma readSize_Inr_iff:
  "readSize b slen = Inr s \<longleftrightarrow>
     56 \<le> s \<and> unat slen = intsize s \<and> unat slen \<le> length b \<and>
     take (unat slen) b = putint_bytes s"
  (is "?l = ?r")
proof
  assume l: ?l
  then have len: "unat slen \<le> length b" and s: "s = readSize_word b slen"
    and s56: "\<not> s < 56" and b0: "b ! 0 \<noteq> 0"
    by (auto simp: readSize_def Let_def split: if_splits)
  then have mem: "slen \<in> {1, 2, 3, 4, 5, 6, 7, 8}"
    by (auto simp: readSize_word_def split: if_splits)
  then have slen: "1 \<le> unat slen" "unat slen \<le> 8" by auto
  have ne: "take (unat slen) b \<noteq> []" using slen len by auto
  have "unat s = be_nat (take (unat slen) b)"
    using readSize_word_be [OF mem len] slen by (simp add: s unat_be_u64)
  moreover have "hd (take (unat slen) b) \<noteq> 0"
    using ne b0 slen by (simp add: hd_conv_nth)
  ultimately have tk: "take (unat slen) b = putint_bytes s"
    using ne by (intro putint_bytes_unique) simp_all
  have "unat slen = intsize s" using arg_cong [OF tk, of length] len by simp
  with tk len s56 show ?r by (simp add: not_less)
next
  assume r: ?r
  then have len: "unat slen \<le> length b" and tk: "take (unat slen) b = putint_bytes s"
    and eq: "unat slen = intsize s" by auto
  have "unat slen \<in> {1, 2, 3, 4, 5, 6, 7, 8}"
    using intsize_pos [of s] intsize_le8 [of s] eq by auto
  then have mem: "slen \<in> {1, 2, 3, 4, 5, 6, 7, 8}"
    by (simp add: word_unat_eq_iff)
  have "b \<noteq> []" using len eq intsize_pos [of s] by auto
  moreover have "hd b = hd (putint_bytes s)"
    using arg_cong [OF tk, of hd] eq intsize_pos [of s] by (simp add: hd_take)
  moreover have "s \<noteq> 0" using r by (auto simp: word_le_nat_alt)
  ultimately have "b ! 0 \<noteq> 0" using hd_putint_bytes [of s] by (simp add: hd_conv_nth)
  moreover have "readSize_word b slen = s"
    using readSize_word_be [OF mem len] tk by (simp add: be_u64_putint_bytes)
  ultimately show ?l using r by (simp add: readSize_def not_less)
qed

lemma readSize_putint:
  assumes "56 \<le> s"
  shows "readSize (putint_bytes s @ rest) (word_of_nat (intsize s)) = Inr s"
proof -
  have "intsize s < 256" using intsize_le8 [of s] by simp
  then have "unat (word_of_nat (intsize s) :: byte) = intsize s"
    by (simp add: unsigned_of_nat take_bit_nat_eq_self)
  with assms show ?thesis by (simp add: readSize_Inr_iff)
qed

end
