(* ===== verification/Rlp_Raw.thy ===== *)
theory Rlp_Raw
  imports Rlp_Size
begin

text \<open>
  \<open>rlp/raw.go\<close> and \<open>rlp/iterator.go\<close>: splitting an encoded buffer into its first
  value and the rest without decoding it.  \<open>enc_kind\<close> and \<open>valid_kind\<close> are the
  reference encoding against which \<open>Split\<close> is proved: it accepts exactly the canonical
  encodings.
\<close>

subsection \<open>The code\<close>

definition readKind_tag :: "bytes \<Rightarrow> byte \<Rightarrow> bytes \<Rightarrow> rlp_error + kind \<times> u64 \<times> u64" where
  "readKind_tag buf b tail =
     (if b < 0x80 then Inr (Byte, 0, 1)
      else if b < 0xB8 then
        (let contentsize = ucast (b - 0x80) in
         if contentsize = (1 :: u64) \<and> 1 < length buf \<and> buf ! 1 < 128
         then Inl ErrCanonSize else Inr (String, 1, contentsize))
      else if b < 0xC0 then
        (case readSize tail (b - 0xB7) of
          Inl e \<Rightarrow> Inl e
        | Inr contentsize \<Rightarrow> Inr (String, ucast (b - 0xB7) + 1, contentsize))
      else if b < 0xF8 then Inr (List, 1, ucast (b - 0xC0))
      else
        (case readSize tail (b - 0xF7) of
          Inl e \<Rightarrow> Inl e
        | Inr contentsize \<Rightarrow> Inr (List, ucast (b - 0xF7) + 1, contentsize)))"

definition readKind :: "bytes \<Rightarrow> rlp_error + kind \<times> u64 \<times> u64" where
  "readKind buf =
     (case buf of
       [] \<Rightarrow> Inl IoErrUnexpectedEOF
     | b # tail \<Rightarrow>
         (case readKind_tag buf b tail of
           Inl e \<Rightarrow> Inl e
         | Inr (k, tagsize, contentsize) \<Rightarrow>
             if len64 buf - tagsize < contentsize then Inl ErrValueTooLarge
             else Inr (k, tagsize, contentsize)))"

definition slice :: "'a list \<Rightarrow> nat \<Rightarrow> nat \<Rightarrow> 'a list" where
  "slice xs i j = take (j - i) (drop i xs)"

definition Split :: "bytes \<Rightarrow> rlp_error + kind \<times> bytes \<times> bytes" where
  "Split b =
     (case readKind b of
       Inl e \<Rightarrow> Inl e
     | Inr (k, ts, cs) \<Rightarrow> Inr (k, slice b (unat ts) (unat (ts + cs)), drop (unat (ts + cs)) b))"

definition SplitString :: "bytes \<Rightarrow> rlp_error + bytes \<times> bytes" where
  "SplitString b =
     (case Split b of
       Inl e \<Rightarrow> Inl e
     | Inr (k, content, rest) \<Rightarrow> if k = List then Inl ErrExpectedString else Inr (content, rest))"

definition SplitUint64 :: "bytes \<Rightarrow> rlp_error + u64 \<times> bytes" where
  "SplitUint64 b =
     (case SplitString b of
       Inl e \<Rightarrow> Inl e
     | Inr (content, rest) \<Rightarrow>
         if length content = 0 then Inr (0, rest)
         else if length content = 1 then
           (if content ! 0 = 0 then Inl ErrCanonInt else Inr (ucast (content ! 0), rest))
         else if 8 < length content then Inl ErrUintOverflow
         else
           (case readSize content (word_of_nat (length content)) of
             Inl _ \<Rightarrow> Inl ErrCanonInt
           | Inr x \<Rightarrow> Inr (x, rest)))"

definition SplitList :: "bytes \<Rightarrow> rlp_error + bytes \<times> bytes" where
  "SplitList b =
     (case Split b of
       Inl e \<Rightarrow> Inl e
     | Inr (k, content, rest) \<Rightarrow>
         if k \<noteq> List then Inl ErrExpectedList else Inr (content, rest))"

definition ListSize :: "u64 \<Rightarrow> u64" where
  "ListSize contentSize = word_of_nat (headsize contentSize) + contentSize"

text \<open>
  The loop of \<open>CountValues\<close> drops at least one byte per round, so one round per byte and one
  for the final test are enough; \<open>None\<close> is a loop that has not ended by then.
\<close>

fun CountValues_loop :: "nat \<Rightarrow> nat \<Rightarrow> bytes \<Rightarrow> (rlp_error + nat) option" where
  "CountValues_loop 0 i b = None"
| "CountValues_loop (Suc fuel) i b =
     (if length b = 0 then Some (Inr i)
      else case readKind b of
        Inl e \<Rightarrow> Some (Inl e)
      | Inr (_, tagsize, sz) \<Rightarrow> CountValues_loop fuel (i + 1) (drop (unat (tagsize + sz)) b))"

definition CountValues :: "bytes \<Rightarrow> (rlp_error + nat) option" where
  "CountValues b = CountValues_loop (length b + 1) 0 b"

record listIterator =
  it_data :: bytes
  it_next :: bytes
  it_err :: "rlp_error option"

definition NewListIterator :: "bytes \<Rightarrow> rlp_error + listIterator" where
  "NewListIterator data =
     (case readKind data of
       Inl e \<Rightarrow> Inl e
     | Inr (k, t, c) \<Rightarrow>
         if k \<noteq> List then Inl ErrExpectedList
         else Inr \<lparr>it_data = slice data (unat t) (unat (t + c)), it_next = [], it_err = None\<rparr>)"

definition Next :: "listIterator \<Rightarrow> bool \<times> listIterator" where
  "Next it =
     (if length (it_data it) = 0 then (False, it)
      else
        let (t, c, err) =
          (case readKind (it_data it) of Inl e \<Rightarrow> (0, 0, Some e) | Inr (_, t, c) \<Rightarrow> (t, c, None))
        in (True, it\<lparr>it_next := take (unat (t + c)) (it_data it),
                     it_data := drop (unat (t + c)) (it_data it), it_err := err\<rparr>))"

text \<open>The reference encoding of a value by its kind and content.\<close>

definition head_bytes :: "byte \<Rightarrow> byte \<Rightarrow> u64 \<Rightarrow> bytes" where
  "head_bytes smalltag largetag n =
     (if n < 56 then [smalltag + ucast n]
      else (largetag + word_of_nat (intsize n)) # putint_bytes n)"

fun enc_kind :: "kind \<Rightarrow> bytes \<Rightarrow> bytes" where
  "enc_kind Byte c = c"
| "enc_kind String c = head_bytes 0x80 0xB7 (len64 c) @ c"
| "enc_kind List c = head_bytes 0xC0 0xF7 (len64 c) @ c"

definition single_byte :: "bytes \<Rightarrow> bool" where
  "single_byte c \<longleftrightarrow> length c = 1 \<and> hd c < 0x80"

fun valid_kind :: "kind \<Rightarrow> bytes \<Rightarrow> bool" where
  "valid_kind Byte c \<longleftrightarrow> single_byte c"
| "valid_kind String c \<longleftrightarrow> \<not> single_byte c"
| "valid_kind List c \<longleftrightarrow> True"

subsection \<open>Split accepts exactly the canonical encodings\<close>

lemma length_head_bytes: "length (head_bytes s l n) = headsize n"
  by (simp add: head_bytes_def headsize_def)

lemma unat_len64: "length xs < 2 ^ 64 \<Longrightarrow> unat (len64 xs) = length xs"
  by (simp add: unsigned_of_nat take_bit_nat_eq_self)

lemma ucast_word_of_nat [simp]: "ucast (word_of_nat n :: u64) = (word_of_nat n :: byte)"
  by (rule bit_eqI) (auto simp: bit_simps)

lemma unat_byte_of_nat: "n < 256 \<Longrightarrow> unat (word_of_nat n :: byte) = n"
  by (simp add: unsigned_of_nat take_bit_nat_eq_self)

lemma unat_u64_of_nat: "n < 2 ^ 64 \<Longrightarrow> unat (word_of_nat n :: u64) = n"
  by (simp add: unsigned_of_nat take_bit_nat_eq_self)

lemma tag_unat: "unat base + n < 256 \<Longrightarrow> unat (base + word_of_nat n :: byte) = unat base + n"
  by (simp add: unat_word_ariths unat_byte_of_nat)

lemma ucast_byte_of_nat: "n < 256 \<Longrightarrow> ucast (word_of_nat n :: byte) = (word_of_nat n :: u64)"
  by (simp add: word_unat_eq_iff unat_byte_of_nat unat_u64_of_nat)

lemma u64_of_nat_less: "n < 2 ^ 64 \<Longrightarrow> (word_of_nat n :: u64) < 56 \<longleftrightarrow> n < 56"
  by (simp add: word_less_nat_alt unat_u64_of_nat)

lemma headsize_le9: "headsize n \<le> 9" and headsize_pos: "1 \<le> headsize n"
  using intsize_le8 [of n] by (auto simp: headsize_def)

text \<open>
  The five ranges of the first byte, each with the size it stands for, and what
  \<open>readKind_tag\<close> does in each.
\<close>

lemma tag_cases:
  fixes b :: byte
  obtains (single) "b < 0x80"
  | (short_string) n where "n < 56" "b = 0x80 + word_of_nat n"
  | (long_string) m where "1 \<le> m" "m \<le> 8" "b = 0xB7 + word_of_nat m"
  | (short_list) n where "n < 56" "b = 0xC0 + word_of_nat n"
  | (long_list) m where "1 \<le> m" "m \<le> 8" "b = 0xF7 + word_of_nat m"
proof -
  have tag: "b = base + word_of_nat (unat b - unat base)" if "unat base \<le> unat b"
    for base :: byte
    using that tag_unat [of base "unat b - unat base"] unat_byte_less [of b]
    by (simp add: word_unat_eq_iff)
  have "unat b < 256" by (rule unat_byte_less)
  then consider "unat b < 128" | "128 \<le> unat b" "unat b < 184" | "184 \<le> unat b" "unat b < 192"
    | "192 \<le> unat b" "unat b < 248" | "248 \<le> unat b" "unat b < 256" by linarith
  then show thesis
  proof cases
    case 1
    then show thesis by (intro single) (simp add: word_less_nat_alt)
  next
    case 2
    then show thesis using tag [of "0x80"] by (intro short_string [of "unat b - 128"]) auto
  next
    case 3
    then show thesis using tag [of "0xB7"] by (intro long_string [of "unat b - 183"]) auto
  next
    case 4
    then show thesis using tag [of "0xC0"] by (intro short_list [of "unat b - 192"]) auto
  next
    case 5
    then show thesis using tag [of "0xF7"] by (intro long_list [of "unat b - 247"]) auto
  qed
qed

lemma readKind_tag_single: "b < 0x80 \<Longrightarrow> readKind_tag buf b tail = Inr (Byte, 0, 1)"
  by (simp add: readKind_tag_def)

lemma readKind_tag_short_string:
  assumes "n < 56"
  shows "readKind_tag buf (0x80 + word_of_nat n) tail =
    (if n = 1 \<and> 1 < length buf \<and> buf ! 1 < 128 then Inl ErrCanonSize
     else Inr (String, 1, word_of_nat n))"
proof -
  have one: "(word_of_nat n :: u64) = 1 \<longleftrightarrow> n = 1"
    using assms by (simp add: word_unat_eq_iff unat_u64_of_nat)
  show ?thesis
    using assms tag_unat [of "0x80" n]
    by (simp add: readKind_tag_def word_less_nat_alt ucast_byte_of_nat one)
qed

lemma readKind_tag_long_string:
  assumes "1 \<le> m" and "m \<le> 8"
  shows "readKind_tag buf (0xB7 + word_of_nat m) tail =
    (case readSize tail (word_of_nat m) of
      Inl e \<Rightarrow> Inl e | Inr cs \<Rightarrow> Inr (String, 1 + word_of_nat m, cs))"
  using assms tag_unat [of "0xB7" m]
  by (simp add: readKind_tag_def word_less_nat_alt ucast_byte_of_nat
      add.commute [of "1 :: u64"] split: sum.split)

lemma readKind_tag_short_list:
  assumes "n < 56"
  shows "readKind_tag buf (0xC0 + word_of_nat n) tail = Inr (List, 1, word_of_nat n)"
  using assms tag_unat [of "0xC0" n]
  by (simp add: readKind_tag_def word_less_nat_alt ucast_byte_of_nat)

lemma readKind_tag_long_list:
  assumes "1 \<le> m" and "m \<le> 8"
  shows "readKind_tag buf (0xF7 + word_of_nat m) tail =
    (case readSize tail (word_of_nat m) of
      Inl e \<Rightarrow> Inl e | Inr cs \<Rightarrow> Inr (List, 1 + word_of_nat m, cs))"
  using assms tag_unat [of "0xF7" m]
  by (simp add: readKind_tag_def word_less_nat_alt ucast_byte_of_nat
      add.commute [of "1 :: u64"] split: sum.split)

lemmas readKind_tag_simps =
  readKind_tag_single readKind_tag_short_string readKind_tag_long_string
  readKind_tag_short_list readKind_tag_long_list

lemma room_check:
  assumes "n \<le> length b" and "length b < 2 ^ 64"
  shows "len64 b - word_of_nat n < cs \<longleftrightarrow> length b - n < unat cs"
proof -
  have "unat (len64 b - word_of_nat n :: u64) = length b - n"
    using assms by (simp add: unat_sub word_le_nat_alt unat_u64_of_nat)
  then show ?thesis by (simp add: word_less_nat_alt)
qed

definition tag_size :: "kind \<Rightarrow> bytes \<Rightarrow> nat" where
  "tag_size k c = (if k = Byte then 0 else headsize (len64 c))"

lemma length_enc_kind: "length (enc_kind k c) = tag_size k c + length c"
  by (cases k) (simp_all add: tag_size_def length_head_bytes)

lemma head_bytes_short:
  "n < 56 \<Longrightarrow> head_bytes s l (word_of_nat n) = [s + word_of_nat n]"
  by (simp add: head_bytes_def u64_of_nat_less)

lemma readKind_enc:
  assumes valid: "valid_kind k c" and len: "length (enc_kind k c @ r) < 2 ^ 64"
  shows "readKind (enc_kind k c @ r) = Inr (k, word_of_nat (tag_size k c), len64 c)"
proof -
  have lc: "length c < 2 ^ 64" using len by (simp add: length_enc_kind)
  have room: "\<not> len64 (enc_kind k c @ r) - word_of_nat (tag_size k c) < (len64 c :: u64)"
    using len lc room_check [of "tag_size k c" "enc_kind k c @ r" "len64 c"]
    by (simp add: length_enc_kind unat_u64_of_nat)
  have "readKind_tag (enc_kind k c @ r) (hd (enc_kind k c @ r)) (tl (enc_kind k c @ r)) =
      Inr (k, word_of_nat (tag_size k c), len64 c)"
  proof (cases k)
    case Byte
    with valid show ?thesis
      by (cases c) (auto simp: single_byte_def tag_size_def readKind_tag_single)
  next
    case String
    show ?thesis
    proof (cases "length c < 56")
      case True
      have "\<not> (length c = 1 \<and> hd c < 0x80)"
        using valid String by (simp add: single_byte_def)
      moreover have "length c = 1 \<Longrightarrow> (c @ r) ! 0 = hd c" by (cases c) auto
      ultimately have "\<not> (length c = 1 \<and> (c @ r) ! 0 < 0x80)" by metis
      then show ?thesis
        using True lc String
        by (auto simp: head_bytes_short readKind_tag_short_string tag_size_def
            headsize_def u64_of_nat_less)
    next
      case False
      then show ?thesis
        using lc String intsize_pos [of "len64 c"] intsize_le8 [of "len64 c"]
          readSize_putint [of "len64 c" "c @ r"]
        by (simp add: head_bytes_def readKind_tag_long_string tag_size_def headsize_def
            u64_of_nat_less not_less word_le_nat_alt unat_u64_of_nat)
    qed
  next
    case List
    show ?thesis
    proof (cases "length c < 56")
      case True
      then show ?thesis
        using lc List
        by (simp add: head_bytes_short readKind_tag_short_list tag_size_def headsize_def
            u64_of_nat_less)
    next
      case False
      then show ?thesis
        using lc List intsize_pos [of "len64 c"] intsize_le8 [of "len64 c"]
          readSize_putint [of "len64 c" "c @ r"]
        by (simp add: head_bytes_def readKind_tag_long_list tag_size_def headsize_def
            u64_of_nat_less not_less word_le_nat_alt unat_u64_of_nat)
    qed
  qed
  moreover have "enc_kind k c @ r \<noteq> []"
    using valid headsize_pos [of "len64 c"] length_enc_kind [of k c]
    by (cases k) (auto simp: single_byte_def tag_size_def)
  ultimately show ?thesis
    using room by (cases "enc_kind k c @ r") (simp_all add: readKind_def)
qed

text \<open>A successful \<open>readKind\<close> has seen a canonical head with its content after it.\<close>

lemma enc_kind_short:
  assumes "n < 56" and "n \<le> length tail" and "k = String \<and> s = 0x80 \<or> k = List \<and> s = 0xC0"
  shows "(s + word_of_nat n) # tail = enc_kind k (take n tail) @ drop n tail"
    and "tag_size k (take n tail) = 1"
  using assms by (auto simp: head_bytes_short tag_size_def headsize_def u64_of_nat_less min_def)

lemma enc_kind_long:
  assumes "readSize tail (word_of_nat m) = Inr cs" and "m \<le> 8"
    and "unat cs \<le> length tail - m" and "length tail < 2 ^ 64"
    and "k = String \<and> l = 0xB7 \<or> k = List \<and> l = 0xF7"
  defines "c \<equiv> take (unat cs) (drop m tail)"
  shows "(l + word_of_nat m) # tail = enc_kind k c @ drop (unat cs) (drop m tail)"
    and "len64 c = cs" and "56 \<le> length c" and "tag_size k c = m + 1"
proof -
  have m: "unat (word_of_nat m :: byte) = m" using assms(2) by (simp add: unat_byte_of_nat)
  have cs: "56 \<le> cs" "m = intsize cs" "m \<le> length tail" "take m tail = putint_bytes cs"
    using assms(1) by (auto simp: readSize_Inr_iff m)
  have lc: "length c = unat cs" using assms(3) by (simp add: c_def)
  show len: "len64 c = cs" by (simp add: lc)
  show "56 \<le> length c" using cs(1) by (simp add: lc word_le_nat_alt)
  have "tail = putint_bytes cs @ c @ drop (unat cs) (drop m tail)"
    using cs(4) by (metis append_take_drop_id c_def)
  then show "(l + word_of_nat m) # tail = enc_kind k c @ drop (unat cs) (drop m tail)"
    using assms(5) cs(1,2) by (auto simp: head_bytes_def len not_less simp del: drop_drop)
  show "tag_size k c = m + 1"
    using assms(5) cs(1,2) by (auto simp: tag_size_def headsize_def len)
qed

definition seen :: "bytes \<Rightarrow> kind \<Rightarrow> u64 \<Rightarrow> u64 \<Rightarrow> bool" where
  "seen b k ts cs \<longleftrightarrow>
     (\<exists>c r. b = enc_kind k c @ r \<and> valid_kind k c \<and> cs = len64 c \<and>
       ts = word_of_nat (tag_size k c))"

lemma seen_short:
  assumes "n < 56" and "k = String \<and> s = 0x80 \<or> k = List \<and> s = 0xC0"
    and b: "b = (s + word_of_nat n) # tail" and len: "length b < 2 ^ 64"
    and room: "\<not> len64 b - 1 < (word_of_nat n :: u64)"
    and canon: "k = String \<longrightarrow> \<not> (n = 1 \<and> tail \<noteq> [] \<and> tail ! 0 < 128)"
  shows "seen b k 1 (word_of_nat n)"
proof -
  have n: "n \<le> length tail"
    using room len room_check [of 1 b "word_of_nat n"] assms(1) by (simp add: b unat_u64_of_nat)
  have "k = String \<longrightarrow> \<not> single_byte (take n tail)"
    using canon n by (cases tail) (auto simp: single_byte_def take_Cons' split: if_splits)
  then have "valid_kind k (take n tail)" using assms(2) by auto
  with n enc_kind_short [OF assms(1) n assms(2)] show ?thesis
    unfolding seen_def by (intro exI [of _ "take n tail"] exI [of _ "drop n tail"]) (simp add: b)
qed

lemma seen_long:
  assumes "m \<le> 8" and "k = String \<and> l = 0xB7 \<or> k = List \<and> l = 0xF7"
    and b: "b = (l + word_of_nat m) # tail" and len: "length b < 2 ^ 64"
    and room: "\<not> len64 b - (1 + word_of_nat m) < cs"
    and rs: "readSize tail (word_of_nat m) = Inr cs"
  shows "seen b k (1 + word_of_nat m) cs"
proof -
  have m: "m \<le> length tail"
    using rs assms(1) by (auto simp: readSize_Inr_iff unat_byte_of_nat)
  have cs: "unat cs \<le> length tail - m"
    using room len m room_check [of "m + 1" b cs] by (simp add: b)
  have "length tail < 2 ^ 64" using len b by simp
  note l = enc_kind_long [OF rs assms(1) cs this assms(2)]
  from l(3) have "\<not> single_byte (take (unat cs) (drop m tail))"
    by (auto simp: single_byte_def min_def split: if_splits)
  then have "valid_kind k (take (unat cs) (drop m tail))" using assms(2) by auto
  with l show ?thesis
    unfolding seen_def
    by (intro exI [of _ "take (unat cs) (drop m tail)"] exI [of _ "drop (unat cs) (drop m tail)"])
      (simp add: b)
qed

lemma readKind_sound:
  assumes rk: "readKind b = Inr (k, ts, cs)" and len: "length b < 2 ^ 64"
  shows "seen b k ts cs"
proof -
  obtain x tail where b: "b = x # tail" using rk by (cases b) (auto simp: readKind_def)
  have tag: "readKind_tag b x tail = Inr (k, ts, cs)" and room: "\<not> len64 b - ts < cs"
    using rk by (auto simp: readKind_def b split: sum.splits if_splits)
  show ?thesis
  proof (cases x rule: tag_cases)
    case single
    with tag show ?thesis
      unfolding seen_def
      by (intro exI [of _ "[x]"] exI [of _ tail])
        (auto simp: b readKind_tag_single single_byte_def tag_size_def)
  next
    case (short_string n)
    with tag room len show ?thesis
      using seen_short [of n String "0x80" b tail]
      by (auto simp: readKind_tag_short_string b split: if_splits)
  next
    case (long_string m)
    with tag room len show ?thesis
      using seen_long [of m String "0xB7" b tail cs]
      by (auto simp: readKind_tag_long_string b split: sum.splits)
  next
    case (short_list n)
    with tag room len show ?thesis
      using seen_short [of n List "0xC0" b tail] by (auto simp: readKind_tag_short_list b)
  next
    case (long_list m)
    with tag room len show ?thesis
      using seen_long [of m List "0xF7" b tail cs]
      by (auto simp: readKind_tag_long_list b split: sum.splits)
  qed
qed

lemma seen_iff_readKind:
  "length b < 2 ^ 64 \<Longrightarrow> readKind b = Inr (k, ts, cs) \<longleftrightarrow> seen b k ts cs"
  using readKind_sound readKind_enc by (fastforce simp: seen_def)

lemma unat_total:
  assumes "length (enc_kind k c @ r) < 2 ^ 64"
  shows "unat (word_of_nat (tag_size k c) + len64 c :: u64) = tag_size k c + length c"
    and "unat (word_of_nat (tag_size k c) :: u64) = tag_size k c"
  using assms by (simp_all add: length_enc_kind unat_u64_of_nat flip: of_nat_add)

lemma Split_iff:
  assumes "length b < 2 ^ 64"
  shows "Split b = Inr (k, c, r) \<longleftrightarrow> valid_kind k c \<and> b = enc_kind k c @ r"
proof
  assume l: "Split b = Inr (k, c, r)"
  then obtain ts cs where rk: "readKind b = Inr (k, ts, cs)"
    and c: "c = slice b (unat ts) (unat (ts + cs))" and r: "r = drop (unat (ts + cs)) b"
    by (auto simp: Split_def split: sum.splits)
  from readKind_sound [OF rk assms] obtain c' r' where e: "b = enc_kind k c' @ r'"
    and v: "valid_kind k c'" "cs = len64 c'" "ts = word_of_nat (tag_size k c')"
    by (auto simp: seen_def)
  have u: "unat (ts + cs) = tag_size k c' + length c'" "unat ts = tag_size k c'"
    using unat_total [of k c' r'] assms by (simp_all add: e v)
  have "c = c'" "r = r'"
    using length_enc_kind [of k c'] unfolding c r u
    by (simp_all add: slice_def e) (cases k; simp add: tag_size_def length_head_bytes)
  with e v show "valid_kind k c \<and> b = enc_kind k c @ r" by simp
next
  assume "valid_kind k c \<and> b = enc_kind k c @ r"
  then have v: "valid_kind k c" and e: "b = enc_kind k c @ r" by auto
  have "readKind b = Inr (k, word_of_nat (tag_size k c), len64 c)"
    using readKind_enc [OF v] assms e by simp
  then show "Split b = Inr (k, c, r)"
    using unat_total [of k c r] assms length_enc_kind [of k c]
    by (simp add: Split_def slice_def e) (cases k; simp add: tag_size_def length_head_bytes)
qed

definition enc_string :: "bytes \<Rightarrow> bytes" where
  "enc_string c = (if single_byte c then enc_kind Byte c else enc_kind String c)"

lemma SplitString_iff:
  assumes "length b < 2 ^ 64"
  shows "SplitString b = Inr (c, r) \<longleftrightarrow> b = enc_string c @ r"
proof -
  have "SplitString b = Inr (c, r) \<longleftrightarrow> (\<exists>k. k \<noteq> List \<and> Split b = Inr (k, c, r))"
    by (auto simp: SplitString_def split: sum.splits if_splits)
  also have "\<dots> \<longleftrightarrow> (\<exists>k. k \<noteq> List \<and> valid_kind k c \<and> b = enc_kind k c @ r)"
    using Split_iff [OF assms] by simp
  also have "\<dots> \<longleftrightarrow> b = enc_string c @ r"
    by (metis enc_string_def kind.distinct(3,5) kind.exhaust valid_kind.simps(1,2))
  finally show ?thesis .
qed

lemma SplitList_iff:
  assumes "length b < 2 ^ 64"
  shows "SplitList b = Inr (c, r) \<longleftrightarrow> b = enc_kind List c @ r"
proof -
  have "SplitList b = Inr (c, r) \<longleftrightarrow> Split b = Inr (List, c, r)"
    by (auto simp: SplitList_def split: sum.splits if_splits)
  then show ?thesis using Split_iff [OF assms, of List] by simp
qed

text \<open>The content bytes of an unsigned integer: nothing for zero, else its minimal form.\<close>

definition uint_content :: "u64 \<Rightarrow> bytes" where
  "uint_content x = (if x = 0 then [] else putint_bytes x)"

lemma uint_content_long:
  assumes "2 \<le> length c" and "length c \<le> 8"
  shows "readSize c (word_of_nat (length c)) = Inr x \<longleftrightarrow> c = uint_content x"
proof -
  have u: "unat (word_of_nat (length c) :: byte) = length c"
    using assms(2) by (simp add: unat_byte_of_nat)
  have "56 \<le> x" if "c = putint_bytes x"
    using assms(1) intsize_le [of 1 x] that by (auto simp: word_le_nat_alt)
  moreover have "x \<noteq> 0" if "56 \<le> x" using that by (auto simp: word_le_nat_alt)
  ultimately show ?thesis
    using assms(1) by (auto simp: readSize_Inr_iff u uint_content_def)
qed

lemma uint_content_short:
  assumes "length c = 1" and nz: "c ! 0 \<noteq> 0"
  shows "ucast (c ! 0) = x \<longleftrightarrow> c = uint_content x"
proof -
  obtain y where c: "c = [y]" using assms(1) by (cases c) auto
  have be: "be_nat c = unat y" by (simp add: c be_nat_def)
  have y: "y \<noteq> 0" using nz c by simp
  have "c = putint_bytes (ucast y)"
    using y be by (intro putint_bytes_unique) (simp_all add: c)
  moreover have "(ucast y :: u64) \<noteq> 0" using y by (metis unat_0_iff unat_ucast_byte)
  ultimately have "c = uint_content (ucast y)" by (simp add: uint_content_def)
  moreover have "x = ucast y" if "c = uint_content x"
  proof -
    have "c = putint_bytes x" using that c by (metis list.distinct(1) uint_content_def)
    then have "unat x = unat y" using be be_nat_putint_bytes [of x] by metis
    then show ?thesis by (metis unat_ucast_byte word_unat_eq_iff)
  qed
  moreover have "c ! 0 = y" using c by simp
  ultimately show ?thesis by metis
qed

lemma length_uint_content: "length (uint_content x) \<le> 8"
  by (simp add: uint_content_def intsize_le8)

lemma uint_content_hd: "uint_content x \<noteq> [] \<Longrightarrow> hd (uint_content x) \<noteq> 0"
  by (auto simp: uint_content_def hd_putint_bytes split: if_splits)

lemma SplitUint64_iff:
  assumes "length b < 2 ^ 64"
  shows "SplitUint64 b = Inr (x, r) \<longleftrightarrow> b = enc_string (uint_content x) @ r"
proof (cases "SplitString b")
  case (Inl e)
  then have "b \<noteq> enc_string (uint_content x) @ r"
    using SplitString_iff [OF assms] by (metis sum.distinct(1))
  with Inl show ?thesis by (simp add: SplitUint64_def)
next
  case (Inr p)
  obtain c r' where p: "p = (c, r')" by (cases p)
  have "SplitUint64 b = Inr (x, r) \<longleftrightarrow> c = uint_content x \<and> r' = r"
  proof -
    consider "length c = 0" | "length c = 1" "c ! 0 = 0" | "length c = 1" "c ! 0 \<noteq> 0"
      | "8 < length c" | "2 \<le> length c" "length c \<le> 8" by linarith
    then show ?thesis
    proof cases
      case 1
      then have "c = uint_content x \<longleftrightarrow> 0 = x"
        by (auto simp: uint_content_def dest: sym)
      with 1 Inr p show ?thesis by (auto simp: SplitUint64_def)
    next
      case 2
      then have "c = [0]" by (cases c) auto
      then have "c \<noteq> uint_content x"
        using uint_content_hd [of x] by (metis list.distinct(1) list.sel(1))
      with 2 Inr p show ?thesis by (auto simp: SplitUint64_def)
    next
      case 3
      with Inr p uint_content_short [of c x] show ?thesis by (auto simp: SplitUint64_def)
    next
      case 4
      then have "c \<noteq> uint_content x" using length_uint_content [of x] by auto
      with 4 Inr p show ?thesis by (auto simp: SplitUint64_def)
    next
      case 5
      with Inr p have "SplitUint64 b = (case readSize c (word_of_nat (length c)) of
          Inl _ \<Rightarrow> Inl ErrCanonInt | Inr x \<Rightarrow> Inr (x, r'))"
        by (auto simp: SplitUint64_def)
      with uint_content_long [OF 5, of x] show ?thesis
        by (cases "readSize c (word_of_nat (length c))") auto
    qed
  qed
  also have "\<dots> \<longleftrightarrow> SplitString b = Inr (uint_content x, r)"
    using Inr p by simp
  also have "\<dots> \<longleftrightarrow> b = enc_string (uint_content x) @ r"
    by (rule SplitString_iff [OF assms])
  finally show ?thesis .
qed

subsection \<open>CountValues\<close>

definition enc_values :: "(kind \<times> bytes) list \<Rightarrow> bytes" where
  "enc_values vs = concat (map (\<lambda>(k, c). enc_kind k c) vs)"

definition valid_values :: "(kind \<times> bytes) list \<Rightarrow> bool" where
  "valid_values vs \<longleftrightarrow> list_all (\<lambda>(k, c). valid_kind k c) vs"

lemma enc_kind_ne: "valid_kind k c \<Longrightarrow> enc_kind k c \<noteq> []"
  by (cases k) (auto simp: single_byte_def head_bytes_def)

lemma readKind_step:
  assumes "readKind b = Inr (k, ts, cs)" and "length b < 2 ^ 64"
  obtains c r where "b = enc_kind k c @ r" and "valid_kind k c"
    and "drop (unat (ts + cs)) b = r" and "length r < length b"
proof -
  from readKind_sound [OF assms] obtain c r where e: "b = enc_kind k c @ r"
    "valid_kind k c" "cs = len64 c" "ts = word_of_nat (tag_size k c)"
    by (auto simp: seen_def)
  then have "unat (ts + cs) = length (enc_kind k c)"
    using unat_total [of k c r] assms(2) length_enc_kind [of k c] by simp
  with e that enc_kind_ne [OF e(2)] show thesis by simp
qed

lemma length_enc_values: "valid_values vs \<Longrightarrow> length vs \<le> length (enc_values vs)"
proof (induction vs)
  case (Cons v vs)
  obtain k c where v: "v = (k, c)" by (cases v)
  from Cons.prems have "valid_kind k c" "valid_values vs" by (simp_all add: valid_values_def v)
  then have "1 \<le> length (enc_kind k c)" "length vs \<le> length (enc_values vs)"
    using enc_kind_ne [of k c] Cons.IH by (simp_all add: Suc_le_eq)
  then show ?case by (simp add: enc_values_def v)
qed simp

lemma CountValues_loop_total:
  "length b < fuel \<Longrightarrow> length b < 2 ^ 64 \<Longrightarrow> CountValues_loop fuel i b \<noteq> None"
proof (induction fuel arbitrary: i b)
  case (Suc fuel)
  show ?case
  proof (cases "readKind b")
    case (Inr p)
    obtain k ts cs where p: "p = (k, ts, cs)" by (cases p)
    from readKind_step [of b k ts cs] Inr p Suc.prems(2)
    have "length (drop (unat (ts + cs)) b) < length b" by metis
    with Suc.IH [of "drop (unat (ts + cs)) b" "i + 1"] Suc.prems Inr p show ?thesis by simp
  qed simp
qed simp

lemma CountValues_loop_sound:
  "CountValues_loop fuel i b = Some (Inr n) \<Longrightarrow> length b < 2 ^ 64 \<Longrightarrow>
   \<exists>vs. valid_values vs \<and> n = i + length vs \<and> b = enc_values vs"
proof (induction fuel arbitrary: i b)
  case (Suc fuel)
  show ?case
  proof (cases "b = []")
    case True
    with Suc.prems show ?thesis
      by (intro exI [of _ "[]"]) (simp add: valid_values_def enc_values_def)
  next
    case False
    with Suc.prems(1) obtain k ts cs where rk: "readKind b = Inr (k, ts, cs)"
      and rest: "CountValues_loop fuel (i + 1) (drop (unat (ts + cs)) b) = Some (Inr n)"
      by (auto split: sum.splits)
    from readKind_step [OF rk Suc.prems(2)] obtain c r where e: "b = enc_kind k c @ r"
      "valid_kind k c" "drop (unat (ts + cs)) b = r" "length r < length b" .
    from rest e(3) have "CountValues_loop fuel (i + 1) r = Some (Inr n)" by simp
    from Suc.IH [OF this] e(4) Suc.prems(2) obtain vs where
      "valid_values vs" "n = i + 1 + length vs" "r = enc_values vs" by auto
    with e show ?thesis
      by (intro exI [of _ "(k, c) # vs"]) (simp add: valid_values_def enc_values_def)
  qed
qed simp

lemma CountValues_loop_complete:
  "valid_values vs \<Longrightarrow> length vs < fuel \<Longrightarrow> length (enc_values vs) < 2 ^ 64 \<Longrightarrow>
   CountValues_loop fuel i (enc_values vs) = Some (Inr (i + length vs))"
proof (induction vs arbitrary: i fuel)
  case Nil
  then show ?case by (cases fuel) (simp_all add: enc_values_def)
next
  case (Cons v vs)
  obtain k c where v: "v = (k, c)" by (cases v)
  have valid: "valid_kind k c" "valid_values vs"
    using Cons.prems(1) by (simp_all add: valid_values_def v)
  have e: "enc_values (v # vs) = enc_kind k c @ enc_values vs" by (simp add: enc_values_def v)
  have "readKind (enc_values (v # vs)) = Inr (k, word_of_nat (tag_size k c), len64 c)"
    using readKind_enc [OF valid(1)] Cons.prems(3) by (simp add: e)
  moreover have "unat (word_of_nat (tag_size k c) + len64 c :: u64) = length (enc_kind k c)"
    using unat_total [of k c "enc_values vs"] Cons.prems(3) length_enc_kind [of k c]
    by (simp add: e)
  moreover note enc_kind_ne [OF valid(1)]
  ultimately have "CountValues_loop (Suc f) i (enc_values (v # vs)) =
      CountValues_loop f (i + 1) (enc_values vs)" for f
    by (simp add: e)
  with Cons.IH [of "fuel - 1" "i + 1"] Cons.prems valid(2) show ?case
    by (cases fuel) (simp_all add: e)
qed

subsection \<open>The list iterator\<close>

text \<open>The loop \<open>for it.Next() { ... it.Value() ... }\<close> of a client, \<open>None\<close> when it has not
  ended after the given number of rounds.\<close>

fun iter_values :: "nat \<Rightarrow> listIterator \<Rightarrow> bytes list option" where
  "iter_values 0 it = None"
| "iter_values (Suc n) it =
     (case Next it of
       (False, it') \<Rightarrow> Some []
     | (True, it') \<Rightarrow> map_option ((#) (it_next it')) (iter_values n it'))"

lemma iter_values_enc:
  "valid_values vs \<Longrightarrow> length (enc_values vs) < 2 ^ 64 \<Longrightarrow> it_data it = enc_values vs \<Longrightarrow>
   iter_values (length vs + 1) it = Some (map (\<lambda>(k, c). enc_kind k c) vs)"
proof (induction vs arbitrary: it)
  case Nil
  then show ?case by (simp add: Next_def enc_values_def)
next
  case (Cons v vs)
  obtain k c where v: "v = (k, c)" by (cases v)
  have valid: "valid_kind k c" "valid_values vs"
    using Cons.prems(1) by (simp_all add: valid_values_def v)
  have e: "it_data it = enc_kind k c @ enc_values vs"
    using Cons.prems(3) by (simp add: enc_values_def v)
  have len: "length (enc_kind k c @ enc_values vs) < 2 ^ 64"
    using Cons.prems(2,3) e by simp
  have "unat (word_of_nat (tag_size k c) + len64 c :: u64) = length (enc_kind k c)"
    using unat_total [OF len] length_enc_kind [of k c] by simp
  then have "Next it = (True, it\<lparr>it_next := enc_kind k c, it_data := enc_values vs, it_err := None\<rparr>)"
    using readKind_enc [OF valid(1) len] enc_kind_ne [OF valid(1)] by (simp add: Next_def e)
  with Cons.IH [OF valid(2), of "it\<lparr>it_next := enc_kind k c, it_data := enc_values vs, it_err := None\<rparr>"]
    len show ?case by (simp add: v)
qed

lemma NewListIterator_enc:
  assumes "length (enc_kind List c @ r) < 2 ^ 64"
  shows "NewListIterator (enc_kind List c @ r) = Inr \<lparr>it_data = c, it_next = [], it_err = None\<rparr>"
proof -
  have "readKind (enc_kind List c @ r) = Inr (List, word_of_nat (tag_size List c), len64 c)"
    using assms by (intro readKind_enc) simp_all
  with unat_total [OF assms] length_head_bytes [of "0xC0" "0xF7" "len64 c"] show ?thesis
    by (simp add: NewListIterator_def slice_def tag_size_def)
qed

lemma Next_error:
  assumes "it_data it \<noteq> []" and "readKind (it_data it) = Inl e"
  shows "Next it = (True, it\<lparr>it_next := [], it_err := Some e\<rparr>)"
  using assms by (simp add: Next_def)

subsection \<open>Properties\<close>

text \<open>
  C10: \<open>Split\<close> is exact.  On a buffer of fewer than $2^{64}$ bytes it returns a kind, a content
  and a rest precisely when the buffer is the canonical encoding of that content as that kind,
  followed by the rest.  So every encoding is accepted, a non-canonical size, a one-byte string
  that should be a bare byte or a truncated value never is, and the split is unique.
\<close>

theorem Split_canonical:
  assumes "length b < 2 ^ 64"
  shows "Split b = Inr (k, content, rest) \<longleftrightarrow> valid_kind k content \<and> b = enc_kind k content @ rest"
  using assms by (rule Split_iff)

theorem Split_canonical_witness:
  "Split [0x82, 7, 9, 1] = Inr (String, [7, 9], [1]) \<and> Split [0x81, 5] \<noteq> Inr (String, [5], [])"
  using Split_canonical [of "[0x82, 7, 9, 1]" String "[7, 9]" "[1]"]
    Split_canonical [of "[0x81, 5]" String "[5]" "[]"]
  by (simp add: single_byte_def head_bytes_def)

text \<open>
  C16: \<open>SplitUint64\<close> is exact.  It returns \<open>x\<close> precisely on the canonical encoding of \<open>x\<close>:
  the empty string for zero, a bare byte below 128, else the shortest big-endian string.  Leading
  zero bytes, values above 64 bits and lists are all refused.
\<close>

theorem SplitUint64_canonical:
  assumes "length b < 2 ^ 64"
  shows "SplitUint64 b = Inr (x, rest) \<longleftrightarrow> b = enc_string (uint_content x) @ rest"
  using assms by (rule SplitUint64_iff)

theorem SplitUint64_canonical_witness:
  "SplitUint64 [0x82, 1, 0, 7] = Inr (256, [7])"
  using SplitUint64_canonical [of "[0x82, 1, 0, 7]" 256 "[7]"]
  by (simp add: enc_string_def single_byte_def head_bytes_def uint_content_def putint_bytes_def)

text \<open>
  C17: \<open>CountValues\<close> always ends, and returns \<open>n\<close> exactly when the buffer is the
  concatenation of \<open>n\<close> canonical values.
\<close>

theorem CountValues_exact:
  assumes "length b < 2 ^ 64"
  shows "CountValues b \<noteq> None \<and>
    (CountValues b = Some (Inr n) \<longleftrightarrow>
      (\<exists>vs. valid_values vs \<and> length vs = n \<and> b = enc_values vs))"
proof (intro conjI iffI)
  show "CountValues b \<noteq> None"
    unfolding CountValues_def using assms by (intro CountValues_loop_total) simp_all
  show "\<exists>vs. valid_values vs \<and> length vs = n \<and> b = enc_values vs"
    if "CountValues b = Some (Inr n)"
    using CountValues_loop_sound [OF that [unfolded CountValues_def] assms] by auto
  show "CountValues b = Some (Inr n)"
    if "\<exists>vs. valid_values vs \<and> length vs = n \<and> b = enc_values vs"
  proof -
    from that obtain vs where vs: "valid_values vs" "length vs = n" "b = enc_values vs" by blast
    then have "CountValues_loop (length b + 1) 0 (enc_values vs) = Some (Inr (0 + length vs))"
      using length_enc_values [OF vs(1)] assms by (intro CountValues_loop_complete) simp_all
    with vs show ?thesis unfolding CountValues_def by simp
  qed
qed

theorem CountValues_exact_witness:
  "CountValues [0x82, 7, 9, 1, 0xC0] = Some (Inr 3)"
proof -
  let ?vs = "[(String, [7, 9]), (Byte, [1]), (List, [])] :: (kind \<times> bytes) list"
  have vs: "valid_values ?vs" "length ?vs = 3" "[0x82, 7, 9, 1, 0xC0] = enc_values ?vs"
    by (simp_all add: valid_values_def enc_values_def single_byte_def head_bytes_def)
  have len: "length ([0x82, 7, 9, 1, 0xC0] :: bytes) < 2 ^ 64" by simp
  show ?thesis using CountValues_exact [OF len, of 3] vs by blast
qed

text \<open>
  C18: Iterating over an encoded list yields exactly the encodings of its elements, in order, and
  then stops.
\<close>

theorem listIterator_elements:
  assumes "valid_values vs" and "length (enc_kind List (enc_values vs)) < 2 ^ 64"
  shows "\<exists>it. NewListIterator (enc_kind List (enc_values vs)) = Inr it \<and>
    iter_values (length vs + 1) it = Some (map (\<lambda>(k, c). enc_kind k c) vs)"
  using NewListIterator_enc [of "enc_values vs" "[]"] iter_values_enc [OF assms(1)] assms(2)
  by (simp add: length_enc_kind)

theorem listIterator_elements_witness:
  "\<exists>it. NewListIterator [0xC3, 0x81, 0x90, 1] = Inr it \<and>
    iter_values (2 + 1) it = Some [[0x81, 0x90], [1]]"
proof -
  let ?vs = "[(String, [0x90]), (Byte, [1])] :: (kind \<times> bytes) list"
  have ev: "enc_kind List (enc_values ?vs) = [0xC3, 0x81, 0x90, 1]" "length ?vs = 2"
    "map (\<lambda>(k, c). enc_kind k c) ?vs = [[0x81, 0x90], [1]]" "valid_values ?vs"
    by code_simp+
  have len: "length (enc_kind List (enc_values ?vs)) < 2 ^ 64" unfolding ev(1) by simp
  show ?thesis using listIterator_elements [OF ev(4) len] unfolding ev .
qed

text \<open>
  C19: On a malformed element \<open>Next\<close> records the error, reports that there is another element
  and stays where it is, so a client loop that tests only \<open>Next\<close> never ends.
\<close>

theorem listIterator_malformed_stuck:
  assumes "it_data it \<noteq> []" and "readKind (it_data it) = Inl e"
  shows "iter_values n it = None \<and> it_err (snd (Next it)) = Some e"
  using assms
proof (induction n arbitrary: it)
  case (Suc n)
  with Suc.IH [of "it\<lparr>it_next := [], it_err := Some e\<rparr>"] show ?case
    by (simp add: Next_error)
qed (simp add: Next_error)

theorem listIterator_malformed_stuck_witness:
  "iter_values 1000 \<lparr>it_data = [0x81, 5], it_next = [], it_err = None\<rparr> = None"
  using listIterator_malformed_stuck [of "\<lparr>it_data = [0x81, 5], it_next = [], it_err = None\<rparr>"
      ErrCanonSize 1000]
  by (simp add: readKind_def readKind_tag_def)

end
