(* ===== verification/Rlp_Encode.thy ===== *)
theory Rlp_Encode
  imports Rlp_Raw
begin

text \<open>
  \<open>rlp/encode.go\<close> and the type analysis of \<open>rlp/typecache.go\<close>.  An \<open>encbuf\<close> collects
  string data and, apart from it, the list headers with their offsets; only when the buffer is
  read out are the two merged.  Go types and values, which the package inspects by reflection,
  are the datatypes \<open>gotype\<close> and \<open>goval\<close>; types with an \<open>EncodeRLP\<close> method of their own
  are not among them.  The scratch array \<open>sizebuf\<close> is not kept: each use first writes the
  bytes it then appends.
\<close>

subsection \<open>Types, values and struct tags\<close>

record tags =
  nilOK :: bool
  nilKind :: kind
  tail :: bool
  ignored :: bool

definition no_tags :: tags where
  "no_tags = \<lparr>nilOK = False, nilKind = Byte, tail = False, ignored = False\<rparr>"

datatype gotype =
    TRawValue
  | TBigPtr
  | TBig
  | TPtr gotype
  | TUint nat
  | TBool
  | TString
  | TSlice gotype
  | TArray nat gotype
  | TStruct "(gotype \<times> tags) list"
  | TInterface
  | TOther

datatype goval =
    VBytes bytes
  | VUint u64
  | VBool bool
  | VBig int
  | VNil
  | VPtr goval
  | VList "goval list"
  | VIface gotype goval

datatype enc_error = ErrNegativeBigInt | ErrTypeNotSerializable | ErrIllTyped

definition isByte :: "gotype \<Rightarrow> bool" where
  "isByte t \<longleftrightarrow> t = TUint 8"

fun isByteArray :: "gotype \<Rightarrow> bool" where
  "isByteArray (TSlice t) = isByte t"
| "isByteArray (TArray n t) = isByte t"
| "isByteArray TRawValue = True"
| "isByteArray _ = False"

fun isUint :: "gotype \<Rightarrow> bool" where
  "isUint (TUint _) = True"
| "isUint _ = False"

definition defaultNilKind :: "gotype \<Rightarrow> kind" where
  "defaultNilKind t =
     (if isUint t \<or> t = TString \<or> t = TBool \<or> isByteArray t then String else List)"

text \<open>Whether \<open>makeWriter\<close> and \<open>makeDecoder\<close> accept a type (the \<open>default\<close> case fails, and
  so does every type built over a failing one; ignored fields do not count).\<close>

fun serializable :: "gotype \<Rightarrow> bool" where
  "serializable TOther = False"
| "serializable (TPtr t) = serializable t"
| "serializable (TSlice t) = serializable t"
| "serializable (TArray n t) = serializable t"
| "serializable (TStruct fs) = list_all (\<lambda>(t, ts). ignored ts \<or> serializable t) fs"
| "serializable _ = True"

subsection \<open>The buffer\<close>

record listhead =
  lh_offset :: nat
  lh_size :: nat

record encbuf =
  eb_str :: bytes
  eb_lheads :: "listhead list"
  eb_lhsize :: nat

definition eb_reset :: encbuf where
  "eb_reset = \<lparr>eb_str = [], eb_lheads = [], eb_lhsize = 0\<rparr>"

definition eb_write :: "bytes \<Rightarrow> encbuf \<Rightarrow> encbuf" where
  "eb_write b w = w\<lparr>eb_str := eb_str w @ b\<rparr>"

definition encodeStringHeader :: "nat \<Rightarrow> encbuf \<Rightarrow> encbuf" where
  "encodeStringHeader sz w =
     (if sz < 56 then eb_write [0x80 + word_of_nat sz] w
      else
        let s = putint_bytes (word_of_nat sz) in
        eb_write ((0xB7 + word_of_nat (length s)) # s) w)"

definition encodeString :: "bytes \<Rightarrow> encbuf \<Rightarrow> encbuf" where
  "encodeString b w =
     (if length b = 1 \<and> hd b \<le> 0x7F then eb_write [hd b] w
      else eb_write b (encodeStringHeader (length b) w))"

definition encodeUint :: "u64 \<Rightarrow> encbuf \<Rightarrow> encbuf" where
  "encodeUint i w =
     (if i = 0 then eb_write [0x80] w
      else if i < 128 then eb_write [ucast i] w
      else let s = putint_bytes i in eb_write ((0x80 + word_of_nat (length s)) # s) w)"

definition eb_size :: "encbuf \<Rightarrow> nat" where
  "eb_size w = length (eb_str w) + eb_lhsize w"

definition eb_list :: "encbuf \<Rightarrow> encbuf \<times> nat" where
  "eb_list w =
     (w\<lparr>eb_lheads := eb_lheads w @ [\<lparr>lh_offset = length (eb_str w), lh_size = eb_lhsize w\<rparr>]\<rparr>,
      length (eb_lheads w))"

definition listEnd :: "nat \<Rightarrow> encbuf \<Rightarrow> encbuf" where
  "listEnd index w =
     (let lh = eb_lheads w ! index;
          sz = eb_size w - lh_offset lh - lh_size lh
      in w\<lparr>eb_lheads := (eb_lheads w)[index := lh\<lparr>lh_size := sz\<rparr>],
           eb_lhsize := eb_lhsize w +
             (if sz < 56 then 1 else 1 + intsize (word_of_nat sz))\<rparr>)"

subsection \<open>Big integers\<close>

text \<open>\<open>big.Int\<close>'s \<open>BitLen\<close> and little-endian \<open>Bits\<close> of a non-negative value.\<close>

fun big_bitlen :: "nat \<Rightarrow> nat" where
  "big_bitlen n = (if n = 0 then 0 else 1 + big_bitlen (n div 2))"

fun big_bits :: "nat \<Rightarrow> u64 list" where
  "big_bits n = (if n = 0 then [] else word_of_nat n # big_bits (n div 2 ^ 64))"

declare big_bitlen.simps [simp del] big_bits.simps [simp del]

text \<open>The nested copy loop of \<open>writeBigInt\<close>: \<open>j\<close> counts down the bytes left in the word.\<close>

fun copy_word :: "nat \<Rightarrow> u64 \<Rightarrow> nat \<Rightarrow> bytes \<Rightarrow> nat \<times> bytes" where
  "copy_word 0 d index buf = (index, buf)"
| "copy_word (Suc j) d index buf =
     (if 0 < index then copy_word j (drop_bit 8 d) (index - 1) (buf[index - 1 := ucast d])
      else (index, buf))"

fun copy_words :: "u64 list \<Rightarrow> nat \<Rightarrow> bytes \<Rightarrow> bytes" where
  "copy_words [] index buf = buf"
| "copy_words (d # ds) index buf =
     (case copy_word 8 d index buf of (index', buf') \<Rightarrow> copy_words ds index' buf')"

definition writeBigInt :: "int \<Rightarrow> encbuf \<Rightarrow> enc_error + encbuf" where
  "writeBigInt i w =
     (if i < 0 then Inl ErrNegativeBigInt
      else
        let bitlen = big_bitlen (nat i) in
        if bitlen \<le> 64 then Inr (encodeUint (word_of_int i) w)
        else
          let len = (bitlen + 7) div 8 in
          Inr (eb_write (copy_words (big_bits (nat i)) len (replicate len 0))
                 (encodeStringHeader len w)))"

subsection \<open>Writers\<close>

definition writeBool :: "bool \<Rightarrow> encbuf \<Rightarrow> encbuf" where
  "writeBool b w = eb_write [if b then 0x01 else 0x80] w"

definition writeString :: "bytes \<Rightarrow> encbuf \<Rightarrow> encbuf" where
  "writeString s w =
     (if length s = 1 \<and> hd s \<le> 0x7f then eb_write [hd s] w
      else eb_write s (encodeStringHeader (length s) w))"

definition writeByteArray :: "nat \<Rightarrow> bytes \<Rightarrow> encbuf \<Rightarrow> encbuf" where
  "writeByteArray len b w =
     (if len = 0 then eb_write [0x80] w
      else if len = 1 then
        (if hd b \<le> 0x7f then eb_write [hd b] w else eb_write [0x81, hd b] w)
      else eb_write b (encodeStringHeader len w))"

definition writeNilPtr :: "kind \<Rightarrow> encbuf \<Rightarrow> encbuf" where
  "writeNilPtr nk w =
     (if nk = String then eb_write [0x80] w
      else case eb_list w of (w', index) \<Rightarrow> listEnd index w')"

definition ptrNilKind :: "gotype \<Rightarrow> tags \<Rightarrow> kind" where
  "ptrNilKind t ts = (if nilOK ts then nilKind ts else defaultNilKind t)"

text \<open>
  \<open>writeVal t ts v\<close> is the writer that \<open>makeWriter(t, ts)\<close> chooses, applied to a value.  The
  equations go by the value and then by the type; a value that does not belong to its type
  cannot occur in Go.
\<close>

fun writeVal :: "gotype \<Rightarrow> tags \<Rightarrow> goval \<Rightarrow> encbuf \<Rightarrow> enc_error + encbuf"
  and writeVals :: "gotype \<Rightarrow> goval list \<Rightarrow> encbuf \<Rightarrow> enc_error + encbuf"
  and writeFields :: "(gotype \<times> tags) list \<Rightarrow> goval list \<Rightarrow> encbuf \<Rightarrow> enc_error + encbuf"
where
  "writeVal t ts (VBytes b) w =
     (case t of
       TRawValue \<Rightarrow> Inr (eb_write b w)
     | TString \<Rightarrow> Inr (writeString b w)
     | TSlice e \<Rightarrow> if isByte e then Inr (encodeString b w) else Inl ErrIllTyped
     | TArray n e \<Rightarrow> if isByte e then Inr (writeByteArray n b w) else Inl ErrIllTyped
     | _ \<Rightarrow> Inl ErrIllTyped)"
| "writeVal t ts (VUint i) w =
     (case t of TUint n \<Rightarrow> Inr (encodeUint i w) | _ \<Rightarrow> Inl ErrIllTyped)"
| "writeVal t ts (VBool b) w =
     (case t of TBool \<Rightarrow> Inr (writeBool b w) | _ \<Rightarrow> Inl ErrIllTyped)"
| "writeVal t ts (VBig i) w =
     (if t = TBigPtr \<or> t = TBig then writeBigInt i w else Inl ErrIllTyped)"
| "writeVal t ts VNil w =
     (case t of
       TBigPtr \<Rightarrow> Inr (eb_write [0x80] w)
     | TPtr e \<Rightarrow> Inr (writeNilPtr (ptrNilKind e ts) w)
     | TInterface \<Rightarrow> Inr (eb_write [0xC0] w)
     | _ \<Rightarrow> Inl ErrIllTyped)"
| "writeVal t ts (VPtr v) w =
     (case t of TPtr e \<Rightarrow> writeVal e no_tags v w | _ \<Rightarrow> Inl ErrIllTyped)"
| "writeVal t ts (VList vs) w =
     (case t of
       TSlice e \<Rightarrow>
         if isByte e then Inl ErrIllTyped
         else if tail ts then writeVals e vs w
         else (case eb_list w of (w', index) \<Rightarrow>
           (case writeVals e vs w' of Inl err \<Rightarrow> Inl err | Inr w'' \<Rightarrow> Inr (listEnd index w'')))
     | TArray n e \<Rightarrow>
         if isByte e then Inl ErrIllTyped
         else if tail ts then writeVals e vs w
         else (case eb_list w of (w', index) \<Rightarrow>
           (case writeVals e vs w' of Inl err \<Rightarrow> Inl err | Inr w'' \<Rightarrow> Inr (listEnd index w'')))
     | TStruct fs \<Rightarrow>
         (case eb_list w of (w', index) \<Rightarrow>
           (case writeFields fs vs w' of Inl err \<Rightarrow> Inl err | Inr w'' \<Rightarrow> Inr (listEnd index w'')))
     | _ \<Rightarrow> Inl ErrIllTyped)"
| "writeVal t ts (VIface dt v) w =
     (if t \<noteq> TInterface then Inl ErrIllTyped
      else if serializable dt then writeVal dt no_tags v w else Inl ErrTypeNotSerializable)"
| "writeVals t [] w = Inr w"
| "writeVals t (v # vs) w =
     (case writeVal t no_tags v w of Inl err \<Rightarrow> Inl err | Inr w' \<Rightarrow> writeVals t vs w')"
| "writeFields [] [] w = Inr w"
| "writeFields [] (v # vs) w = Inl ErrIllTyped"
| "writeFields (f # fs) [] w = Inl ErrIllTyped"
| "writeFields ((t, ts) # fs) (v # vs) w =
     (if ignored ts then writeFields fs vs w
      else case writeVal t ts v w of Inl err \<Rightarrow> Inl err | Inr w' \<Rightarrow> writeFields fs vs w')"

definition encbuf_encode :: "gotype \<Rightarrow> goval \<Rightarrow> encbuf \<Rightarrow> enc_error + encbuf" where
  "encbuf_encode t v w =
     (if serializable t then writeVal t no_tags v w else Inl ErrTypeNotSerializable)"

subsection \<open>Reading the buffer out\<close>

text \<open>\<open>copy(out[pos:], src)\<close>: the number of bytes copied and the updated array; slicing past
  the end panics.\<close>

definition copy_at :: "bytes \<Rightarrow> nat \<Rightarrow> bytes \<Rightarrow> (nat \<times> bytes) option" where
  "copy_at out pos src =
     (if length out < pos then None
      else
        let n = min (length out - pos) (length src) in
        Some (n, take pos out @ take n src @ drop (pos + n) out))"

definition str_slice :: "bytes \<Rightarrow> nat \<Rightarrow> nat \<Rightarrow> bytes option" where
  "str_slice s i j = (if i \<le> j \<and> j \<le> length s then Some (slice s i j) else None)"

text \<open>\<open>head.encode(out[pos:])\<close>: the updated array and the length of the header.\<close>

definition head_encode_at :: "listhead \<Rightarrow> bytes \<Rightarrow> nat \<Rightarrow> (nat \<times> bytes) option" where
  "head_encode_at h out pos =
     (if length out < pos then None
      else case puthead (drop pos out) 0xC0 0xF7 (word_of_nat (lh_size h)) of
        None \<Rightarrow> None
      | Some (buf, n) \<Rightarrow> Some (n, take pos out @ buf))"

fun toBytes_loop :: "bytes \<Rightarrow> listhead list \<Rightarrow> bytes \<Rightarrow> nat \<Rightarrow> nat \<Rightarrow> bytes option" where
  "toBytes_loop s [] out pos strpos =
     (case str_slice s strpos (length s) of
       None \<Rightarrow> None
     | Some chunk \<Rightarrow> map_option snd (copy_at out pos chunk))"
| "toBytes_loop s (h # hs) out pos strpos =
     (case str_slice s strpos (lh_offset h) of
       None \<Rightarrow> None
     | Some chunk \<Rightarrow>
         (case copy_at out pos chunk of
           None \<Rightarrow> None
         | Some (n, out1) \<Rightarrow>
             (case head_encode_at h out1 (pos + n) of
               None \<Rightarrow> None
             | Some (m, out2) \<Rightarrow> toBytes_loop s hs out2 (pos + n + m) (strpos + n))))"

definition toBytes :: "encbuf \<Rightarrow> bytes option" where
  "toBytes w = toBytes_loop (eb_str w) (eb_lheads w) (replicate (eb_size w) 0) 0 0"

definition EncodeToBytes :: "gotype \<Rightarrow> goval \<Rightarrow> (enc_error + bytes) option" where
  "EncodeToBytes t v =
     (case encbuf_encode t v eb_reset of
       Inl e \<Rightarrow> Some (Inl e)
     | Inr w \<Rightarrow> map_option Inr (toBytes w))"

text \<open>\<open>toWriter\<close> on a writer that takes everything: the chunks in the order written.\<close>

definition head_encode :: "listhead \<Rightarrow> bytes option" where
  "head_encode h =
     (case puthead (replicate 9 0) 0xC0 0xF7 (word_of_nat (lh_size h)) of
       None \<Rightarrow> None
     | Some (buf, n) \<Rightarrow> Some (take n buf))"

fun toWriter_loop :: "bytes \<Rightarrow> listhead list \<Rightarrow> nat \<Rightarrow> bytes \<Rightarrow> bytes option" where
  "toWriter_loop s [] strpos out =
     (if strpos < length s then Some (out @ drop strpos s) else Some out)"
| "toWriter_loop s (h # hs) strpos out =
     (case (if 0 < lh_offset h - strpos
            then map_option (\<lambda>c. (strpos + length c, out @ c)) (str_slice s strpos (lh_offset h))
            else Some (strpos, out)) of
       None \<Rightarrow> None
     | Some (strpos', out') \<Rightarrow>
         (case head_encode h of
           None \<Rightarrow> None
         | Some enc \<Rightarrow> toWriter_loop s hs strpos' (out' @ enc)))"

definition toWriter :: "encbuf \<Rightarrow> bytes option" where
  "toWriter w = toWriter_loop (eb_str w) (eb_lheads w) 0 []"

text \<open>\<open>Encode\<close> to a writer other than an \<open>encbuf\<close>: what is written to it.\<close>

definition Encode :: "gotype \<Rightarrow> goval \<Rightarrow> (enc_error + bytes) option" where
  "Encode t v =
     (case encbuf_encode t v eb_reset of
       Inl e \<Rightarrow> Some (Inl e)
     | Inr w \<Rightarrow> map_option Inr (toWriter w))"

subsection \<open>The incremental reader\<close>

record encReader =
  er_buf :: "encbuf option"
  er_lhpos :: nat
  er_strpos :: nat
  er_piece :: "bytes option"

definition er_next :: "encReader \<Rightarrow> bytes option \<times> encReader" where
  "er_next r =
     (case er_buf r of
       None \<Rightarrow> (None, r)
     | Some w \<Rightarrow>
         if er_piece r \<noteq> None then (er_piece r, r)
         else if er_lhpos r < length (eb_lheads w) then
           (let h = eb_lheads w ! er_lhpos r in
            if 0 < lh_offset h - er_strpos r
            then (str_slice (eb_str w) (er_strpos r) (lh_offset h),
                  r\<lparr>er_strpos := lh_offset h\<rparr>)
            else (head_encode h, r\<lparr>er_lhpos := er_lhpos r + 1\<rparr>))
         else if er_strpos r < length (eb_str w) then
           (Some (drop (er_strpos r) (eb_str w)), r\<lparr>er_strpos := length (eb_str w)\<rparr>)
         else (None, r))"

text \<open>
  \<open>Read(b)\<close> with \<open>room = len(b)\<close>: the bytes delivered, whether \<open>io.EOF\<close> is reported, and
  the reader.  Each round takes one piece, and there are at most two per list header and one for
  the tail of the string data, so twice the headers and two rounds are enough.
\<close>

fun er_read_loop :: "nat \<Rightarrow> nat \<Rightarrow> bytes \<Rightarrow> encReader \<Rightarrow> (bytes \<times> bool \<times> encReader) option" where
  "er_read_loop 0 room out r = None"
| "er_read_loop (Suc fuel) room out r =
     (case er_next r of
       (None, r') \<Rightarrow> Some (out, True, r'\<lparr>er_piece := None, er_buf := None\<rparr>)
     | (Some p, r') \<Rightarrow>
         (let nn = min (room - length out) (length p) in
          if nn < length p
          then Some (out @ take nn p, False, r'\<lparr>er_piece := Some (drop nn p)\<rparr>)
          else er_read_loop fuel room (out @ p) (r'\<lparr>er_piece := None\<rparr>)))"

definition er_read :: "nat \<Rightarrow> encReader \<Rightarrow> (bytes \<times> bool \<times> encReader) option" where
  "er_read room r =
     er_read_loop
       (case er_buf r of None \<Rightarrow> 1 | Some w \<Rightarrow> 2 * length (eb_lheads w) + 3) room [] r"

definition EncodeToReader :: "gotype \<Rightarrow> goval \<Rightarrow> enc_error + nat \<times> encReader" where
  "EncodeToReader t v =
     (case encbuf_encode t v eb_reset of
       Inl e \<Rightarrow> Inl e
     | Inr w \<Rightarrow> Inr (eb_size w,
         \<lparr>er_buf = Some w, er_lhpos = 0, er_strpos = 0, er_piece = None\<rparr>))"

end
