(* ===== verification/Rlp_Stream.thy ===== *)
theory Rlp_Stream
  imports Rlp_Encode
begin

text \<open>
  The \<open>Stream\<close> of \<open>rlp/decode.go\<close> and the decoders built on it.  The underlying reader is one
  that delivers a byte string and then \<open>io.EOF\<close>, such as the \<open>bytes.Reader\<close> of
  \<open>DecodeBytes\<close>; the field \<open>st_r\<close> is what it has not delivered.  \<open>st_kind\<close> is \<open>None\<close> for
  Go's \<open>-1\<close>, and the top of the stack of open lists is the head of \<open>stack\<close>.  The array
  \<open>uintbuf\<close> is not kept: \<open>readUint\<close> fills it before reading it.  A \<open>decodeError\<close> is
  identified with the error it wraps, since type and context only go into its message.
\<close>

subsection \<open>The stream\<close>

record listpos =
  lp_pos :: u64
  lp_size :: u64

record Stream =
  st_r :: bytes
  remaining :: u64
  limited :: bool
  st_kind :: "kind option"
  st_size :: u64
  byteval :: byte
  kinderr :: "rlp_error option"
  stack :: "listpos list"

definition Reset :: "bytes \<Rightarrow> u64 \<Rightarrow> Stream" where
  "Reset r inputLimit =
     \<lparr>st_r = r, remaining = (if 0 < inputLimit then inputLimit else len64 r), limited = True,
      st_kind = None, st_size = 0, byteval = 0, kinderr = None, stack = []\<rparr>"

definition NewListStream :: "bytes \<Rightarrow> u64 \<Rightarrow> Stream" where
  "NewListStream r len = (Reset r len)\<lparr>st_kind := Some List, st_size := len\<rparr>"

definition willRead_limit :: "u64 \<Rightarrow> Stream \<Rightarrow> rlp_error option \<times> Stream" where
  "willRead_limit n s =
     (if limited s then
        (if remaining s < n then (Some ErrValueTooLarge, s)
         else (None, s\<lparr>remaining := remaining s - n\<rparr>))
      else (None, s))"

definition willRead :: "u64 \<Rightarrow> Stream \<Rightarrow> rlp_error option \<times> Stream" where
  "willRead n s =
     (let s = s\<lparr>st_kind := None\<rparr> in
      case stack s of
        [] \<Rightarrow> willRead_limit n s
      | tos # rest \<Rightarrow>
          if lp_size tos - lp_pos tos < n then (Some ErrElemTooLarge, s)
          else willRead_limit n (s\<lparr>stack := tos\<lparr>lp_pos := lp_pos tos + n\<rparr> # rest\<rparr>))"

definition readByte :: "Stream \<Rightarrow> (rlp_error + byte) \<times> Stream" where
  "readByte s =
     (case willRead 1 s of
       (Some e, s) \<Rightarrow> (Inl e, s)
     | (None, s) \<Rightarrow>
         (case st_r s of
           [] \<Rightarrow> (Inl IoErrUnexpectedEOF, s)
         | b # r \<Rightarrow> (Inr b, s\<lparr>st_r := r\<rparr>)))"

text \<open>\<open>readFull\<close> into a buffer of \<open>n\<close> bytes.\<close>

definition readFull :: "nat \<Rightarrow> Stream \<Rightarrow> (rlp_error + bytes) \<times> Stream" where
  "readFull n s =
     (case willRead (word_of_nat n) s of
       (Some e, s) \<Rightarrow> (Inl e, s)
     | (None, s) \<Rightarrow>
         if length (st_r s) < n then (Inl IoErrUnexpectedEOF, s\<lparr>st_r := []\<rparr>)
         else (Inr (take n (st_r s)), s\<lparr>st_r := drop n (st_r s)\<rparr>))"

definition readUint :: "byte \<Rightarrow> Stream \<Rightarrow> (rlp_error + u64) \<times> Stream" where
  "readUint sz s =
     (if sz = 0 then (Inr 0, s\<lparr>st_kind := None\<rparr>)
      else if sz = 1 then (case readByte s of (r, s) \<Rightarrow> (map_sum id ucast r, s))
      else
        (case readFull (unat sz) s of
          (Inl e, s) \<Rightarrow> (Inl e, s)
        | (Inr buf, s) \<Rightarrow>
            if buf ! 0 = 0 then (Inl ErrCanonSize, s) else (Inr (be_u64 buf), s)))"

text \<open>\<open>readKind\<close> returns a kind and a size even when it reports an error.\<close>

definition long_size :: "kind \<Rightarrow> (rlp_error + u64) \<times> Stream \<Rightarrow> (kind \<times> u64 \<times> rlp_error option) \<times> Stream" where
  "long_size k rs =
     (case rs of
       (Inl e, s) \<Rightarrow> ((k, 0, Some e), s)
     | (Inr sz, s) \<Rightarrow> ((k, sz, if sz < 56 then Some ErrCanonSize else None), s))"

definition readKind :: "Stream \<Rightarrow> (kind \<times> u64 \<times> rlp_error option) \<times> Stream" where
  "readKind s =
     (case readByte s of
       (Inl err, s) \<Rightarrow>
         ((Byte, 0, Some (if stack s = [] \<and> (err = IoErrUnexpectedEOF \<or> err = ErrValueTooLarge)
                          then IoEOF else err)), s)
     | (Inr b, s) \<Rightarrow>
         (let s = s\<lparr>byteval := 0\<rparr> in
          if b < 0x80 then ((Byte, 0, None), s\<lparr>byteval := b\<rparr>)
          else if b < 0xB8 then ((String, ucast (b - 0x80), None), s)
          else if b < 0xC0 then long_size String (readUint (b - 0xB7) s)
          else if b < 0xF8 then ((List, ucast (b - 0xC0), None), s)
          else long_size List (readUint (b - 0xF7) s)))"

definition kind_error :: "u64 \<Rightarrow> Stream \<Rightarrow> rlp_error option" where
  "kind_error sz s =
     (case stack s of
       [] \<Rightarrow> if limited s \<and> remaining s < sz then Some ErrValueTooLarge else None
     | tos # _ \<Rightarrow> if lp_size tos - lp_pos tos < sz then Some ErrElemTooLarge else None)"

definition kind_result :: "Stream \<Rightarrow> kind \<Rightarrow> rlp_error + kind \<times> u64" where
  "kind_result s k = (case kinderr s of None \<Rightarrow> Inr (k, st_size s) | Some e \<Rightarrow> Inl e)"

definition Kind :: "Stream \<Rightarrow> (rlp_error + kind \<times> u64) \<times> Stream" where
  "Kind s =
     (case st_kind s of
       Some k \<Rightarrow> (kind_result s k, s)
     | None \<Rightarrow>
         (let s = s\<lparr>kinderr := None\<rparr> in
          if (case stack s of [] \<Rightarrow> False | tos # _ \<Rightarrow> lp_pos tos = lp_size tos) then (Inl EOL, s)
          else case readKind s of
            ((k, sz, err), s) \<Rightarrow>
              (let s = s\<lparr>st_kind := Some k, st_size := sz,
                         kinderr := (if err = None then kind_error sz s else err)\<rparr>
               in (kind_result s k, s))))"

subsection \<open>Reading values\<close>

definition Bytes :: "Stream \<Rightarrow> (rlp_error + bytes) \<times> Stream" where
  "Bytes s =
     (case Kind s of
       (Inl e, s) \<Rightarrow> (Inl e, s)
     | (Inr (k, sz), s) \<Rightarrow>
         (case k of
           Byte \<Rightarrow> (Inr [byteval s], s\<lparr>st_kind := None\<rparr>)
         | String \<Rightarrow>
             (case readFull (unat sz) s of
               (Inl e, s) \<Rightarrow> (Inl e, s)
             | (Inr b, s) \<Rightarrow> if sz = 1 \<and> b ! 0 < 128 then (Inl ErrCanonSize, s) else (Inr b, s))
         | List \<Rightarrow> (Inl ErrExpectedString, s)))"

text \<open>\<open>Raw\<close> puts the header in front of the content again; the buffer it makes has room for
  the header, so \<open>puthead\<close> succeeds.\<close>

definition Raw :: "Stream \<Rightarrow> (rlp_error + bytes) \<times> Stream" where
  "Raw s =
     (case Kind s of
       (Inl e, s) \<Rightarrow> (Inl e, s)
     | (Inr (k, sz), s) \<Rightarrow>
         if k = Byte then (Inr [byteval s], s\<lparr>st_kind := None\<rparr>)
         else
           (case readFull (unat sz) s of
             (Inl e, s) \<Rightarrow> (Inl e, s)
           | (Inr b, s) \<Rightarrow>
               (let buf = replicate (headsize sz) 0 @ b in
                case (if k = String then puthead buf 0x80 0xB7 sz else puthead buf 0xC0 0xF7 sz) of
                  None \<Rightarrow> (Inr buf, s)
                | Some (buf, _) \<Rightarrow> (Inr buf, s))))"

definition uint_max :: "nat \<Rightarrow> Stream \<Rightarrow> (rlp_error + u64) \<times> Stream" where
  "uint_max maxbits s =
     (case Kind s of
       (Inl e, s) \<Rightarrow> (Inl e, s)
     | (Inr (k, sz), s) \<Rightarrow>
         (case k of
           Byte \<Rightarrow>
             if byteval s = 0 then (Inl ErrCanonInt, s)
             else (Inr (ucast (byteval s)), s\<lparr>st_kind := None\<rparr>)
         | String \<Rightarrow>
             if word_of_nat (maxbits div 8) < sz then (Inl ErrUintOverflow, s)
             else
               (case readUint (ucast sz) s of
                 (Inl e, s) \<Rightarrow> (Inl (if e = ErrCanonSize then ErrCanonInt else e), s)
               | (Inr v, s) \<Rightarrow>
                   if 0 < sz \<and> v < 128 then (Inl ErrCanonSize, s) else (Inr v, s))
         | List \<Rightarrow> (Inl ErrExpectedString, s)))"

definition Uint :: "Stream \<Rightarrow> (rlp_error + u64) \<times> Stream" where
  "Uint s = uint_max 64 s"

definition Bool :: "Stream \<Rightarrow> (rlp_error + bool) \<times> Stream" where
  "Bool s =
     (case uint_max 8 s of
       (Inl e, s) \<Rightarrow> (Inl e, s)
     | (Inr num, s) \<Rightarrow>
         if num = 0 then (Inr False, s) else if num = 1 then (Inr True, s)
         else (Inl (ErrInvalidBool num), s))"

definition List_open :: "Stream \<Rightarrow> (rlp_error + u64) \<times> Stream" where
  "List_open s =
     (case Kind s of
       (Inl e, s) \<Rightarrow> (Inl e, s)
     | (Inr (k, sz), s) \<Rightarrow>
         if k \<noteq> List then (Inl ErrExpectedList, s)
         else (Inr sz, s\<lparr>stack := \<lparr>lp_pos = 0, lp_size = sz\<rparr> # stack s, st_kind := None, st_size := 0\<rparr>))"

definition ListEnd :: "Stream \<Rightarrow> rlp_error option \<times> Stream" where
  "ListEnd s =
     (case stack s of
       [] \<Rightarrow> (Some ErrNotInList, s)
     | tos # rest \<Rightarrow>
         if lp_pos tos \<noteq> lp_size tos then (Some ErrNotAtEOL, s)
         else
           (let stk = (case rest of [] \<Rightarrow> [] | p # ps \<Rightarrow> p\<lparr>lp_pos := lp_pos p + lp_size tos\<rparr> # ps)
            in (None, s\<lparr>stack := stk, st_kind := None, st_size := 0\<rparr>)))"

subsection \<open>Decoders\<close>

definition decodeBigInt :: "Stream \<Rightarrow> (rlp_error + goval) \<times> Stream" where
  "decodeBigInt s =
     (case Bytes s of
       (Inl e, s) \<Rightarrow> (Inl e, s)
     | (Inr b, s) \<Rightarrow>
         if 0 < length b \<and> b ! 0 = 0 then (Inl ErrCanonInt, s)
         else (Inr (VBig (int (be_nat b))), s))"

definition decodeByteArray :: "nat \<Rightarrow> Stream \<Rightarrow> (rlp_error + goval) \<times> Stream" where
  "decodeByteArray vlen s =
     (case Kind s of
       (Inl e, s) \<Rightarrow> (Inl e, s)
     | (Inr (k, sz), s) \<Rightarrow>
         (case k of
           Byte \<Rightarrow>
             if vlen = 0 then (Inl ErrInputTooLong, s)
             else if 1 < vlen then (Inl ErrInputTooShort, s)
             else (case Uint s of
               (Inl _, s) \<Rightarrow> (Inr (VBytes [0]), s)
             | (Inr bv, s) \<Rightarrow> (Inr (VBytes [ucast bv]), s))
         | String \<Rightarrow>
             if (word_of_nat vlen :: u64) < sz then (Inl ErrInputTooLong, s)
             else if sz < word_of_nat vlen then (Inl ErrInputTooShort, s)
             else (case readFull vlen s of
               (Inl e, s) \<Rightarrow> (Inl e, s)
             | (Inr b, s) \<Rightarrow>
                 if sz = 1 \<and> b ! 0 < 128 then (Inl ErrCanonSize, s) else (Inr (VBytes b), s))
         | List \<Rightarrow> (Inl ErrExpectedString, s)))"

text \<open>The value a field that is not decoded is left with.\<close>

fun zero_val :: "gotype \<Rightarrow> goval" where
  "zero_val TRawValue = VBytes []"
| "zero_val TBigPtr = VNil"
| "zero_val TBig = VBig 0"
| "zero_val (TPtr t) = VNil"
| "zero_val (TUint n) = VUint 0"
| "zero_val TBool = VBool False"
| "zero_val TString = VBytes []"
| "zero_val (TSlice t) = (if isByte t then VBytes [] else VList [])"
| "zero_val (TArray n t) =
     (if isByte t then VBytes (replicate n 0) else VList (replicate n (zero_val t)))"
| "zero_val (TStruct fs) = VList (map (\<lambda>(t, ts). zero_val t) fs)"
| "zero_val TInterface = VNil"
| "zero_val TOther = VNil"

text \<open>Continuing with the result of a decoder that may run out of fuel (\<open>None\<close>).\<close>

definition on_ok ::
  "((rlp_error + 'a) \<times> Stream) option \<Rightarrow> ('a \<Rightarrow> Stream \<Rightarrow> ((rlp_error + 'b) \<times> Stream) option) \<Rightarrow>
   ((rlp_error + 'b) \<times> Stream) option"
where
  "on_ok x f =
     (case x of None \<Rightarrow> None | Some (Inl e, s) \<Rightarrow> Some (Inl e, s) | Some (Inr a, s) \<Rightarrow> f a s)"

definition value_of :: "('a \<Rightarrow> goval) \<Rightarrow> (rlp_error + 'a) \<times> Stream \<Rightarrow> ((rlp_error + goval) \<times> Stream) option"
where
  "value_of f x = (case x of (r, s) \<Rightarrow> Some (map_sum id f r, s))"

definition end_list :: "goval \<Rightarrow> Stream \<Rightarrow> ((rlp_error + goval) \<times> Stream) option" where
  "end_list v s =
     (case ListEnd s of (None, s) \<Rightarrow> Some (Inr v, s) | (Some e, s) \<Rightarrow> Some (Inl e, s))"

text \<open>
  The loop of \<open>decodeSliceElems\<close> goes on until the element decoder reports the end of the
  list; its fuel is the number of rounds.  The loops over arrays and struct fields are bounded.
\<close>

type_synonym decoder = "Stream \<Rightarrow> ((rlp_error + goval) \<times> Stream) option"

fun decodeSliceElems :: "nat \<Rightarrow> decoder \<Rightarrow> Stream \<Rightarrow> ((rlp_error + goval list) \<times> Stream) option" where
  "decodeSliceElems 0 elemdec s = None"
| "decodeSliceElems (Suc fuel) elemdec s =
     (case elemdec s of
       None \<Rightarrow> None
     | Some (Inl err, s) \<Rightarrow> Some (if err = EOL then Inr [] else Inl err, s)
     | Some (Inr v, s) \<Rightarrow>
         on_ok (decodeSliceElems fuel elemdec s) (\<lambda>vs s. Some (Inr (v # vs), s)))"

definition decodeListSlice :: "nat \<Rightarrow> decoder \<Rightarrow> decoder" where
  "decodeListSlice fuel elemdec s =
     on_ok (Some (List_open s)) (\<lambda>sz s.
       if sz = 0 then end_list (VList []) s
       else on_ok (decodeSliceElems fuel elemdec s) (\<lambda>vs s. end_list (VList vs) s))"

fun decodeArrayElems :: "nat \<Rightarrow> decoder \<Rightarrow> Stream \<Rightarrow> ((rlp_error + goval list) \<times> Stream) option" where
  "decodeArrayElems 0 elemdec s = Some (Inr [], s)"
| "decodeArrayElems (Suc n) elemdec s =
     (case elemdec s of
       None \<Rightarrow> None
     | Some (Inl err, s) \<Rightarrow> Some (Inl (if err = EOL then ErrTooFewElements else err), s)
     | Some (Inr v, s) \<Rightarrow>
         on_ok (decodeArrayElems n elemdec s) (\<lambda>vs s. Some (Inr (v # vs), s)))"

definition decodeListArray :: "nat \<Rightarrow> decoder \<Rightarrow> decoder" where
  "decodeListArray vlen elemdec s =
     on_ok (Some (List_open s)) (\<lambda>_ s.
       on_ok (decodeArrayElems vlen elemdec s) (\<lambda>vs s. end_list (VList vs) s))"

fun decodeFields ::
  "(gotype \<Rightarrow> tags \<Rightarrow> decoder) \<Rightarrow> (gotype \<times> tags) list \<Rightarrow> Stream \<Rightarrow>
   ((rlp_error + goval list) \<times> Stream) option"
where
  "decodeFields dec [] s = Some (Inr [], s)"
| "decodeFields dec ((t, ts) # fs) s =
     (if ignored ts then on_ok (decodeFields dec fs s) (\<lambda>vs s. Some (Inr (zero_val t # vs), s))
      else
        (case dec t ts s of
          None \<Rightarrow> None
        | Some (Inl err, s) \<Rightarrow> Some (Inl (if err = EOL then ErrTooFewElements else err), s)
        | Some (Inr v, s) \<Rightarrow>
            on_ok (decodeFields dec fs s) (\<lambda>vs s. Some (Inr (v # vs), s))))"

definition decodeStruct :: "(gotype \<Rightarrow> tags \<Rightarrow> decoder) \<Rightarrow> (gotype \<times> tags) list \<Rightarrow> decoder" where
  "decodeStruct dec fs s =
     on_ok (Some (List_open s)) (\<lambda>_ s.
       on_ok (decodeFields dec fs s) (\<lambda>vs s. end_list (VList vs) s))"

definition decodeSimplePtr :: "decoder \<Rightarrow> decoder" where
  "decodeSimplePtr dec s = on_ok (dec s) (\<lambda>v s. Some (Inr (VPtr v), s))"

definition decodeNilPtr :: "kind \<Rightarrow> decoder \<Rightarrow> decoder" where
  "decodeNilPtr nk dec s =
     (case Kind s of
       (Inl err, s) \<Rightarrow> Some (Inl err, s)
     | (Inr (k, sz), s) \<Rightarrow>
         if k \<noteq> Byte \<and> sz = 0 then
           (if k \<noteq> nk then Some (Inl ErrWrongEmptyKind, s)
            else Some (Inr VNil, s\<lparr>st_kind := None\<rparr>))
         else on_ok (dec s) (\<lambda>v s. Some (Inr (VPtr v), s)))"

definition decodeInterface :: "nat \<Rightarrow> decoder \<Rightarrow> decoder" where
  "decodeInterface fuel dec s =
     (case Kind s of
       (Inl err, s) \<Rightarrow> Some (Inl err, s)
     | (Inr (k, _), s) \<Rightarrow>
         if k = List then
           on_ok (decodeListSlice fuel dec s)
             (\<lambda>v s. Some (Inr (VIface (TSlice TInterface) v), s))
         else value_of (\<lambda>b. VIface (TSlice (TUint 8)) (VBytes b)) (Bytes s))"

text \<open>
  \<open>decodeVal fuel t ts\<close> is the decoder that \<open>makeDecoder(t, ts)\<close> chooses; the fuel bounds
  the nesting of decoders and the rounds of each slice loop.
\<close>

fun decodeVal :: "nat \<Rightarrow> gotype \<Rightarrow> tags \<Rightarrow> decoder" where
  "decodeVal 0 t ts s = None"
| "decodeVal (Suc fuel) t ts s =
     (case t of
       TRawValue \<Rightarrow> value_of VBytes (Raw s)
     | TBigPtr \<Rightarrow> Some (decodeBigInt s)
     | TBig \<Rightarrow> Some (decodeBigInt s)
     | TPtr e \<Rightarrow>
         if nilOK ts then decodeNilPtr (nilKind ts) (decodeVal fuel e no_tags) s
         else decodeSimplePtr (decodeVal fuel e no_tags) s
     | TUint n \<Rightarrow> value_of VUint (uint_max n s)
     | TBool \<Rightarrow> value_of VBool (Bool s)
     | TString \<Rightarrow> value_of VBytes (Bytes s)
     | TSlice e \<Rightarrow>
         if isByte e then value_of VBytes (Bytes s)
         else if tail ts then
           on_ok (decodeSliceElems fuel (decodeVal fuel e no_tags) s) (\<lambda>vs s. Some (Inr (VList vs), s))
         else decodeListSlice fuel (decodeVal fuel e no_tags) s
     | TArray n e \<Rightarrow>
         if isByte e then Some (decodeByteArray n s)
         else decodeListArray n (decodeVal fuel e no_tags) s
     | TStruct fs \<Rightarrow> decodeStruct (decodeVal fuel) fs s
     | TInterface \<Rightarrow> decodeInterface fuel (decodeVal fuel TInterface no_tags) s
     | TOther \<Rightarrow> Some (Inl ErrNotSerializable, s))"

text \<open>\<open>Stream.Decode\<close> into a fresh variable of type \<open>t\<close>, and \<open>DecodeBytes\<close>.\<close>

definition Stream_Decode :: "nat \<Rightarrow> gotype \<Rightarrow> Stream \<Rightarrow> ((rlp_error + goval) \<times> Stream) option" where
  "Stream_Decode fuel t s =
     (if serializable t then decodeVal fuel t no_tags s else Some (Inl ErrNotSerializable, s))"

definition DecodeBytes :: "nat \<Rightarrow> bytes \<Rightarrow> gotype \<Rightarrow> (rlp_error + goval) option" where
  "DecodeBytes fuel b t =
     (case Stream_Decode fuel t (Reset b (len64 b)) of
       None \<Rightarrow> None
     | Some (Inl e, s) \<Rightarrow> Some (Inl e)
     | Some (Inr v, s) \<Rightarrow>
         Some (if 0 < length (st_r s) then Inl ErrMoreThanOneValue else Inr v))"

end
