(* ===== verification/Rlp_Encode_Correct.thy ===== *)
theory Rlp_Encode_Correct
  imports Rlp_Encode
begin

text \<open>
  Correctness of the encoder: whatever the route (\<open>toBytes\<close>, \<open>toWriter\<close>, \<open>encReader\<close>), the
  buffer reads out as the canonical encoding of the value.
\<close>

subsection \<open>Minimal big-endian form of a natural number\<close>

fun nat_bytes :: "nat \<Rightarrow> bytes" where
  "nat_bytes n = (if n = 0 then [] else nat_bytes (n div 256) @ [word_of_nat n])"

declare nat_bytes.simps [simp del]

lemma nat_bytes_0 [simp]: "nat_bytes 0 = []"
  by (simp add: nat_bytes.simps)

lemma unat_byte_mod: "unat (word_of_nat n :: byte) = n mod 256"
  by (simp add: unsigned_of_nat take_bit_eq_mod)

lemma be_nat_nat_bytes [simp]: "be_nat (nat_bytes n) = n"
proof (induction n rule: nat_bytes.induct)
  case (1 n)
  then show ?case by (cases "n = 0") (simp_all add: nat_bytes.simps [of n] unat_byte_mod)
qed

lemma nat_bytes_Nil_iff [simp]: "nat_bytes n = [] \<longleftrightarrow> n = 0"
  by (subst nat_bytes.simps) simp

lemma hd_nat_bytes: "0 < n \<Longrightarrow> hd (nat_bytes n) \<noteq> 0"
proof (induction n rule: nat_bytes.induct)
  case (1 n)
  show ?case
  proof (cases "n div 256 = 0")
    case True
    then have "n < 256" by (simp add: div_eq_0_iff)
    then have "(word_of_nat n :: byte) \<noteq> 0"
      using "1.prems" by (metis unat_byte_of_nat unsigned_0 less_irrefl)
    with True "1.prems" show ?thesis by (simp add: nat_bytes.simps [of n])
  next
    case False
    with "1.IH" "1.prems" show ?thesis by (simp add: nat_bytes.simps [of n])
  qed
qed

lemma length_nat_bytes_le: "length (nat_bytes n) \<le> k \<longleftrightarrow> n < 256 ^ k"
proof
  assume "length (nat_bytes n) \<le> k"
  then have "256 ^ length (nat_bytes n) \<le> (256 :: nat) ^ k" by (intro power_increasing) simp_all
  moreover have "n < 256 ^ length (nat_bytes n)"
    using be_nat_bound [of "nat_bytes n"] by (simp only: be_nat_nat_bytes)
  ultimately show "n < 256 ^ k" by (rule less_le_trans [rotated])
next
  assume n: "n < 256 ^ k"
  show "length (nat_bytes n) \<le> k"
  proof (rule ccontr)
    assume k: "\<not> length (nat_bytes n) \<le> k"
    then have "0 < n" by (cases "n = 0") simp_all
    then have "256 ^ (length (nat_bytes n) - 1) \<le> n"
      using be_nat_lower [of "nat_bytes n"] hd_nat_bytes [of n] by simp
    moreover have "(256 :: nat) ^ k \<le> 256 ^ (length (nat_bytes n) - 1)"
      using k by (intro power_increasing) simp_all
    ultimately show False using n by (meson leD le_trans)
  qed
qed

lemma nat_bytes_unique:
  "be_nat bs = n \<Longrightarrow> length bs = length (nat_bytes n) \<Longrightarrow> bs = nat_bytes n"
  by (rule be_nat_inject) simp_all

lemma uint_content_nat_bytes: "uint_content x = nat_bytes (unat x)"
proof (cases "x = 0")
  case False
  then have "0 < unat x" by (simp add: unat_gt_0)
  then have "nat_bytes (unat x) = putint_bytes x"
    by (intro putint_bytes_unique) (simp_all add: hd_nat_bytes)
  with False show ?thesis by (simp add: uint_content_def)
qed (simp add: uint_content_def)

subsection \<open>The copy loop of big integers\<close>

lemma copy_word_fill:
  "copy_word j d index (replicate index 0 @ ys) =
   (index - j, replicate (index - j) 0 @ be_enc (min j index) d @ ys)"
proof (induction j arbitrary: d index ys)
  case (Suc j)
  show ?case
  proof (cases index)
    case (Suc i)
    have "(replicate index 0 @ ys)[i := ucast d] = replicate i 0 @ ucast d # ys"
      using list_update_length [of "replicate i 0" 0 ys "ucast d"]
      by (simp add: Suc replicate_app_Cons_same)
    with Suc Suc.IH [of "drop_bit 8 d" i "ucast d # ys"] show ?thesis by simp
  qed simp
qed simp

fun wval :: "u64 list \<Rightarrow> nat" where
  "wval [] = 0"
| "wval (d # ds) = unat d + 2 ^ 64 * wval ds"

lemma wval_big_bits [simp]: "wval (big_bits n) = n"
proof (induction n rule: big_bits.induct)
  case (1 n)
  have w: "unat (word_of_nat n :: u64) = n mod 2 ^ 64" by (simp add: unsigned_of_nat take_bit_eq_mod)
  show ?case
  proof (cases "n = 0")
    case False
    then have "wval (big_bits n) = n mod 2 ^ 64 + 2 ^ 64 * (n div 2 ^ 64)"
      using 1 by (subst big_bits.simps) (simp only: w wval.simps if_False not_False_eq_True)
    then show ?thesis by (simp only: mod_mult_div_eq)
  qed (simp add: big_bits.simps [of 0])
qed

lemma be_nat_zeros: "be_nat (replicate k 0 @ ys) = be_nat ys"
  by (induction k) (simp_all add: be_nat_Cons)

lemma mod_digits:
  fixes d v b :: nat
  assumes "d < b ^ 8" "0 < b"
  shows "v mod b ^ (k - 8) * b ^ min 8 k + d mod b ^ min 8 k = (d + b ^ 8 * v) mod b ^ k"
proof (cases "8 \<le> k")
  case True
  then have "b ^ k = b ^ 8 * b ^ (k - 8)" by (metis le_add_diff_inverse power_add)
  then have "(d + b ^ 8 * v) mod b ^ k =
      b ^ 8 * ((d + b ^ 8 * v) div b ^ 8 mod b ^ (k - 8)) + (d + b ^ 8 * v) mod b ^ 8"
    by (simp only: mod_mult2_eq)
  with True assms show ?thesis by (simp add: min_def)
next
  case False
  then have "b ^ k dvd b ^ 8" by (intro le_imp_power_dvd) simp
  then have "b ^ k dvd b ^ 8 * v" by (rule dvd_mult2)
  then have "(d + b ^ 8 * v) mod b ^ k = d mod b ^ k"
    by (metis dvd_imp_mod_0 mod_add_right_eq add.right_neutral)
  with False show ?thesis by (simp add: min_def)
qed

lemma word_digits:
  fixes d :: u64
  shows "v mod 256 ^ (k - 8) * 256 ^ min 8 k + unat d mod 256 ^ min 8 k =
    (unat d + 2 ^ 64 * v) mod 256 ^ k"
proof -
  have e: "(2 :: nat) ^ 64 = 256 ^ 8" by simp
  have d: "unat d < 2 ^ 64" using unsigned_less [of d] by simp
  show ?thesis unfolding e by (rule mod_digits) (use d in simp_all)
qed

lemma copy_words_fill:
  "length (copy_words ds index (replicate index 0 @ ys)) = index + length ys \<and>
   be_nat (copy_words ds index (replicate index 0 @ ys)) =
     wval ds mod 256 ^ index * 256 ^ length ys + be_nat ys"
proof (induction ds arbitrary: index ys)
  case (Cons d ds)
  let ?ys = "be_enc (min 8 index) d @ ys"
  have "copy_words (d # ds) index (replicate index 0 @ ys) =
      copy_words ds (index - 8) (replicate (index - 8) 0 @ ?ys)"
    by (simp add: copy_word_fill)
  moreover have "(wval ds mod 256 ^ (index - 8)) * 256 ^ length ?ys + be_nat ?ys =
      (wval ds mod 256 ^ (index - 8) * 256 ^ min 8 index + unat d mod 256 ^ min 8 index)
        * 256 ^ length ys + be_nat ys"
    by (simp add: be_nat_append be_nat_be_enc power_add algebra_simps)
  ultimately show ?case using Cons.IH [of "index - 8" ?ys] by (simp add: word_digits)
qed (simp add: be_nat_zeros)

lemma big_bitlen_le: "big_bitlen n \<le> k \<longleftrightarrow> n < 2 ^ k"
proof (induction n arbitrary: k rule: big_bitlen.induct)
  case (1 n)
  show ?case
  proof (cases "n = 0")
    case False
    then show ?thesis
    proof (cases k)
      case (Suc k')
      with False "1.IH" [of k'] show ?thesis
        by (simp add: big_bitlen.simps [of n] div_less_iff_less_mult mult.commute)
    qed (simp add: big_bitlen.simps [of n])
  qed (simp add: big_bitlen.simps [of 0])
qed

lemma bitlen_bytes: "(big_bitlen n + 7) div 8 = length (nat_bytes n)"
proof (rule antisym)
  have iff: "(big_bitlen n + 7) div 8 \<le> k \<longleftrightarrow> length (nat_bytes n) \<le> k" for k
  proof -
    have "(big_bitlen n + 7) div 8 \<le> k \<longleftrightarrow> big_bitlen n \<le> 8 * k" by linarith
    then show ?thesis by (simp add: big_bitlen_le length_nat_bytes_le power_mult)
  qed
  show "(big_bitlen n + 7) div 8 \<le> length (nat_bytes n)" by (simp add: iff)
  show "length (nat_bytes n) \<le> (big_bitlen n + 7) div 8" by (simp flip: iff)
qed

text \<open>The loop of \<open>writeBigInt\<close> produces the minimal big-endian form.\<close>

lemma copy_words_nat_bytes:
  "copy_words (big_bits n) (length (nat_bytes n)) (replicate (length (nat_bytes n)) 0) = nat_bytes n"
  using copy_words_fill [of "big_bits n" "length (nat_bytes n)" "[]"]
    be_nat_bound [of "nat_bytes n"]
  by (intro nat_bytes_unique) simp_all

subsection \<open>String writers append the canonical string\<close>

lemma eb_write_append [simp]: "eb_write c (eb_write b w) = eb_write (b @ c) w"
  by (simp add: eb_write_def)

lemma encodeStringHeader_head:
  "n < 2 ^ 64 \<Longrightarrow> encodeStringHeader n w = eb_write (head_bytes 0x80 0xB7 (word_of_nat n)) w"
  by (simp add: encodeStringHeader_def head_bytes_def u64_of_nat_less Let_def)

lemma byte_le_127: "(x :: byte) \<le> 0x7F \<longleftrightarrow> x < 0x80"
  by (simp add: word_le_nat_alt word_less_nat_alt) linarith

lemma single_byte_iff: "single_byte b \<longleftrightarrow> (\<exists>x. b = [x] \<and> x < 0x80)"
  by (cases b) (auto simp: single_byte_def)

lemma writeString_enc:
  assumes "length b < 2 ^ 64"
  shows "writeString b w = eb_write (enc_string b) w"
proof (cases "single_byte b")
  case True
  then show ?thesis by (auto simp: single_byte_iff writeString_def enc_string_def byte_le_127)
next
  case False
  with assms show ?thesis
    by (auto simp: writeString_def encodeStringHeader_head enc_string_def byte_le_127
        single_byte_def)
qed

lemma encodeString_enc: "length b < 2 ^ 64 \<Longrightarrow> encodeString b w = eb_write (enc_string b) w"
  by (simp add: encodeString_def flip: writeString_enc) (simp add: writeString_def)

lemma enc_string_Nil [simp]: "enc_string [] = [0x80]"
  by (simp add: enc_string_def single_byte_def head_bytes_def)

lemma writeByteArray_enc:
  assumes "length b < 2 ^ 64"
  shows "writeByteArray (length b) b w = eb_write (enc_string b) w"
proof -
  consider "b = []" | x where "b = [x]" | "2 \<le> length b" by (cases b rule: remdups_adj.cases) auto
  then show ?thesis
    by cases (use assms in \<open>auto simp: writeByteArray_def encodeStringHeader_head enc_string_def
      single_byte_def byte_le_127 head_bytes_def\<close>)
qed

lemma putint_bytes_small: "i < 128 \<Longrightarrow> putint_bytes i = [ucast i]"
  by (simp add: putint_bytes_def word_less_nat_alt)

lemma single_byte_putint: "single_byte (putint_bytes i) \<longleftrightarrow> i < 128"
proof
  assume s: "single_byte (putint_bytes i)"
  then have "be_nat (putint_bytes i) = unat (hd (putint_bytes i))"
    by (cases "putint_bytes i") (auto simp: single_byte_def be_nat_def)
  with s show "i < 128" by (simp add: single_byte_def word_less_nat_alt be_nat_putint_bytes)
next
  assume "i < 128"
  then show "single_byte (putint_bytes i)"
    by (simp add: putint_bytes_small single_byte_def word_less_nat_alt unat_ucast_low)
qed

lemma encodeUint_enc: "encodeUint i w = eb_write (enc_string (uint_content i)) w"
proof -
  consider "i = 0" | "i \<noteq> 0" "i < 128" | "i \<noteq> 0" "\<not> i < 128" by blast
  then show ?thesis
  proof cases
    case 2
    then show ?thesis
      using single_byte_putint [of i]
      by (simp add: encodeUint_def uint_content_def enc_string_def putint_bytes_small)
  next
    case 3
    moreover have "length (putint_bytes i) < 56" using intsize_le8 [of i] by simp
    ultimately show ?thesis
      by (simp add: encodeUint_def uint_content_def enc_string_def head_bytes_short Let_def
          single_byte_putint)
  qed (simp add: encodeUint_def uint_content_def)
qed

lemma writeBigInt_enc:
  assumes "0 \<le> i" and "length (nat_bytes (nat i)) < 2 ^ 64"
  shows "writeBigInt i w = Inr (eb_write (enc_string (nat_bytes (nat i))) w)"
proof (cases "big_bitlen (nat i) \<le> 64")
  case True
  then have "unat (word_of_int i :: u64) = nat i"
    using assms(1) unat_u64_of_nat [of "nat i"] by (simp add: big_bitlen_le)
  with True assms(1) show ?thesis
    by (simp add: writeBigInt_def encodeUint_enc uint_content_nat_bytes)
next
  case False
  then have "\<not> length (nat_bytes (nat i)) \<le> 1"
    by (auto simp: big_bitlen_le length_nat_bytes_le)
  with False assms show ?thesis
    by (simp add: writeBigInt_def bitlen_bytes copy_words_nat_bytes encodeStringHeader_head
        enc_string_def single_byte_def)
qed

subsection \<open>What a buffer stands for\<close>

text \<open>
  \<open>render off s hs\<close> is the string data \<open>s\<close>, which starts at offset \<open>off\<close> of the buffer,
  with the list headers \<open>hs\<close> inserted at their offsets.
\<close>

fun render :: "nat \<Rightarrow> bytes \<Rightarrow> listhead list \<Rightarrow> bytes" where
  "render off s [] = s"
| "render off s (h # hs) =
     take (lh_offset h - off) s @ head_bytes 0xC0 0xF7 (word_of_nat (lh_size h)) @
     render (lh_offset h) (drop (lh_offset h - off) s) hs"

fun heads_in :: "nat \<Rightarrow> nat \<Rightarrow> listhead list \<Rightarrow> bool" where
  "heads_in lo hi [] \<longleftrightarrow> lo \<le> hi"
| "heads_in lo hi (h # hs) \<longleftrightarrow> lo \<le> lh_offset h \<and> heads_in (lh_offset h) hi hs"

lemma heads_in_le: "heads_in lo hi hs \<Longrightarrow> lo \<le> hi"
  by (induction hs arbitrary: lo) fastforce+

lemma heads_in_weaken: "heads_in lo hi hs \<Longrightarrow> lo' \<le> lo \<Longrightarrow> hi \<le> hi' \<Longrightarrow> heads_in lo' hi' hs"
  by (induction hs arbitrary: lo lo') fastforce+

lemma heads_in_append:
  "heads_in lo mid hs1 \<Longrightarrow> heads_in mid hi hs2 \<Longrightarrow> heads_in lo hi (hs1 @ hs2)"
  by (induction hs1 arbitrary: lo) (auto intro: heads_in_weaken)

lemma render_prefix:
  assumes "heads_in (off + length s1) hi hs"
  shows "render off (s1 @ s2) hs = s1 @ render (off + length s1) s2 hs"
proof (cases hs)
  case (Cons h hs')
  with assms obtain k where "lh_offset h = off + length s1 + k" by (auto simp: le_iff_add)
  with Cons show ?thesis by simp
qed simp

lemma render_append:
  assumes "heads_in off (off + length s1) hs1" and "heads_in (off + length s1) hi hs2"
  shows "render off (s1 @ s2) (hs1 @ hs2) = render off s1 hs1 @ render (off + length s1) s2 hs2"
  using assms
proof (induction hs1 arbitrary: off s1)
  case Nil
  then show ?case by (simp add: render_prefix)
next
  case (Cons h hs1)
  let ?k = "lh_offset h - off"
  have k: "lh_offset h = off + ?k" "?k \<le> length s1"
    using Cons.prems(1) heads_in_le [of "lh_offset h" "off + length s1" hs1] by auto
  have e: "lh_offset h + length (drop ?k s1) = off + length s1" using k by simp
  have "render (lh_offset h) (drop ?k s1 @ s2) (hs1 @ hs2) =
      render (lh_offset h) (drop ?k s1) hs1 @ render (off + length s1) s2 hs2"
    using Cons.IH [of "lh_offset h" "drop ?k s1", unfolded e] Cons.prems by simp
  with k show ?case by simp
qed

text \<open>\<open>emits w w' bs\<close>: going from \<open>w\<close> to \<open>w'\<close> appends the output \<open>bs\<close>.\<close>

definition emits :: "encbuf \<Rightarrow> encbuf \<Rightarrow> bytes \<Rightarrow> bool" where
  "emits w w' bs \<longleftrightarrow>
     (\<exists>s hs. eb_str w' = eb_str w @ s \<and> eb_lheads w' = eb_lheads w @ hs \<and>
       eb_size w' = eb_size w + length bs \<and>
       heads_in (length (eb_str w)) (length (eb_str w')) hs \<and>
       render (length (eb_str w)) s hs = bs)"

lemma emits_refl: "emits w w []"
  by (simp add: emits_def)

lemma emits_write: "emits w (eb_write b w) b"
  by (simp add: emits_def eb_write_def eb_size_def)

lemma emits_trans:
  assumes "emits w1 w2 b1" and "emits w2 w3 b2"
  shows "emits w1 w3 (b1 @ b2)"
proof -
  obtain s1 hs1 s2 hs2 where
    "eb_str w2 = eb_str w1 @ s1" "eb_lheads w2 = eb_lheads w1 @ hs1"
    "heads_in (length (eb_str w1)) (length (eb_str w2)) hs1" "render (length (eb_str w1)) s1 hs1 = b1"
    "eb_str w3 = eb_str w2 @ s2" "eb_lheads w3 = eb_lheads w2 @ hs2"
    "heads_in (length (eb_str w2)) (length (eb_str w3)) hs2" "render (length (eb_str w2)) s2 hs2 = b2"
    using assms by (auto simp: emits_def)
  moreover from this have
    "render (length (eb_str w1)) (s1 @ s2) (hs1 @ hs2) = b1 @ b2"
    using render_append [of "length (eb_str w1)" s1 hs1 "length (eb_str w3)" hs2 s2] by simp
  ultimately show ?thesis
    using assms by (auto simp: emits_def intro: heads_in_append)
qed

lemma eb_list_simps:
  "eb_str (fst (eb_list w)) = eb_str w" "eb_size (fst (eb_list w)) = eb_size w"
  "eb_lheads (fst (eb_list w)) =
     eb_lheads w @ [\<lparr>lh_offset = length (eb_str w), lh_size = eb_lhsize w\<rparr>]"
  "snd (eb_list w) = length (eb_lheads w)"
  by (simp_all add: eb_list_def eb_size_def)

lemma emits_list:
  assumes e: "emits (fst (eb_list w)) w' bs" and len: "length bs < 2 ^ 64"
  shows "emits w (listEnd (snd (eb_list w)) w') (enc_kind List bs)"
proof -
  let ?h = "\<lparr>lh_offset = length (eb_str w), lh_size = length bs\<rparr>"
  obtain s hs where
    s: "eb_str w' = eb_str w @ s" and
    h: "eb_lheads w' = (eb_lheads w @ [\<lparr>lh_offset = length (eb_str w), lh_size = eb_lhsize w\<rparr>]) @ hs" and
    sz: "eb_size w' = eb_size w + length bs" and
    i: "heads_in (length (eb_str w)) (length (eb_str w')) hs" and
    r: "render (length (eb_str w)) s hs = bs"
    using e unfolding emits_def eb_list_simps by blast
  have d: "eb_size w' - length (eb_str w) - eb_lhsize w = length bs"
    using sz by (simp add: eb_size_def)
  have hsz: "(if length bs < 56 then 1 else 1 + intsize (len64 bs)) = headsize (len64 bs)"
    using len by (simp add: headsize_def u64_of_nat_less)
  have lh: "listEnd (snd (eb_list w)) w' =
      w'\<lparr>eb_lheads := eb_lheads w @ ?h # hs, eb_lhsize := eb_lhsize w' + headsize (len64 bs)\<rparr>"
  proof -
    have n: "eb_lheads w' ! length (eb_lheads w) =
        \<lparr>lh_offset = length (eb_str w), lh_size = eb_lhsize w\<rparr>"
      by (simp add: h)
    show ?thesis
      unfolding listEnd_def eb_list_simps Let_def n listhead.simps d hsz by (simp add: h)
  qed
  show ?thesis
    unfolding emits_def lh using sz r i s
    by (intro exI [of _ s] exI [of _ "?h # hs"]) (simp add: eb_size_def length_head_bytes)
qed

subsection \<open>The encoding of a value\<close>

text \<open>
  The values of a type: what Go's type system guarantees, together with the two conditions the
  package leaves to run time, big integers being non-negative and the dynamic types of interface
  values being serializable.
\<close>

fun has_type :: "gotype \<Rightarrow> goval \<Rightarrow> bool"
  and have_type :: "gotype \<Rightarrow> goval list \<Rightarrow> bool"
  and fields_type :: "(gotype \<times> tags) list \<Rightarrow> goval list \<Rightarrow> bool"
where
  "has_type t (VBytes b) \<longleftrightarrow>
     (case t of TRawValue \<Rightarrow> True | TString \<Rightarrow> True | TSlice e \<Rightarrow> isByte e
      | TArray n e \<Rightarrow> isByte e \<and> length b = n | _ \<Rightarrow> False)"
| "has_type t (VUint i) \<longleftrightarrow> (case t of TUint n \<Rightarrow> n \<le> 64 \<and> unat i < 2 ^ n | _ \<Rightarrow> False)"
| "has_type t (VBool b) \<longleftrightarrow> t = TBool"
| "has_type t (VBig i) \<longleftrightarrow> (t = TBigPtr \<or> t = TBig) \<and> 0 \<le> i"
| "has_type t VNil \<longleftrightarrow> (case t of TBigPtr \<Rightarrow> True | TPtr e \<Rightarrow> True | TInterface \<Rightarrow> True | _ \<Rightarrow> False)"
| "has_type t (VPtr v) \<longleftrightarrow> (case t of TPtr e \<Rightarrow> has_type e v | _ \<Rightarrow> False)"
| "has_type t (VList vs) \<longleftrightarrow>
     (case t of TSlice e \<Rightarrow> \<not> isByte e \<and> have_type e vs
      | TArray n e \<Rightarrow> \<not> isByte e \<and> length vs = n \<and> have_type e vs
      | TStruct fs \<Rightarrow> fields_type fs vs | _ \<Rightarrow> False)"
| "has_type t (VIface dt v) \<longleftrightarrow> t = TInterface \<and> serializable dt \<and> has_type dt v"
| "have_type t [] \<longleftrightarrow> True"
| "have_type t (v # vs) \<longleftrightarrow> has_type t v \<and> have_type t vs"
| "fields_type [] [] \<longleftrightarrow> True"
| "fields_type [] (v # vs) \<longleftrightarrow> False"
| "fields_type (f # fs) [] \<longleftrightarrow> False"
| "fields_type ((t, ts) # fs) (v # vs) \<longleftrightarrow> (ignored ts \<or> has_type t v) \<and> fields_type fs vs"

text \<open>The canonical encoding of a value, by structure only: no buffer, no header list.\<close>

definition elem_type :: "gotype \<Rightarrow> gotype" where
  "elem_type t = (case t of TPtr e \<Rightarrow> e | TSlice e \<Rightarrow> e | TArray n e \<Rightarrow> e | _ \<Rightarrow> TOther)"

definition enc_nil :: "gotype \<Rightarrow> tags \<Rightarrow> bytes" where
  "enc_nil t ts =
     (case t of
       TPtr e \<Rightarrow> enc_kind (if ptrNilKind e ts = String then String else List) []
     | TInterface \<Rightarrow> enc_kind List []
     | _ \<Rightarrow> enc_string [])"

fun enc_val :: "gotype \<Rightarrow> tags \<Rightarrow> goval \<Rightarrow> bytes"
  and enc_vals :: "gotype \<Rightarrow> goval list \<Rightarrow> bytes"
  and enc_fields :: "(gotype \<times> tags) list \<Rightarrow> goval list \<Rightarrow> bytes"
where
  "enc_val t ts (VBytes b) = (if t = TRawValue then b else enc_string b)"
| "enc_val t ts (VUint i) = enc_string (nat_bytes (unat i))"
| "enc_val t ts (VBool b) = enc_string (if b then [1] else [])"
| "enc_val t ts (VBig i) = enc_string (nat_bytes (nat i))"
| "enc_val t ts VNil = enc_nil t ts"
| "enc_val t ts (VPtr v) = enc_val (elem_type t) no_tags v"
| "enc_val t ts (VIface dt v) = enc_val dt no_tags v"
| "enc_val t ts (VList vs) =
     (case t of
       TStruct fs \<Rightarrow> enc_kind List (enc_fields fs vs)
     | _ \<Rightarrow> if tail ts then enc_vals (elem_type t) vs
           else enc_kind List (enc_vals (elem_type t) vs))"
| "enc_vals t [] = []"
| "enc_vals t (v # vs) = enc_val t no_tags v @ enc_vals t vs"
| "enc_fields [] vs = []"
| "enc_fields (f # fs) [] = []"
| "enc_fields ((t, ts) # fs) (v # vs) =
     (if ignored ts then [] else enc_val t ts v) @ enc_fields fs vs"

lemma length_enc_string: "length c \<le> length (enc_string c)"
  by (simp add: enc_string_def)

definition writes :: "(encbuf \<Rightarrow> enc_error + encbuf) \<Rightarrow> bytes \<Rightarrow> bool" where
  "writes f bs \<longleftrightarrow> (length bs < 2 ^ 64 \<longrightarrow> (\<forall>w. \<exists>w'. f w = Inr w' \<and> emits w w' bs))"

lemma writes_write: "(length bs < 2 ^ 64 \<Longrightarrow> f = (\<lambda>w. Inr (eb_write bs w))) \<Longrightarrow> writes f bs"
  by (auto simp: writes_def intro: emits_write)

lemma writes_list:
  assumes "writes f bs"
  shows "writes (\<lambda>w. case eb_list w of (w', index) \<Rightarrow>
      (case f w' of Inl err \<Rightarrow> Inl err | Inr w'' \<Rightarrow> Inr (listEnd index w''))) (enc_kind List bs)"
  unfolding writes_def
proof (intro impI allI)
  fix w assume "length (enc_kind List bs) < 2 ^ 64"
  then have len: "length bs < 2 ^ 64" by simp
  with assms obtain w' where "f (fst (eb_list w)) = Inr w'" "emits (fst (eb_list w)) w' bs"
    by (auto simp: writes_def)
  with emits_list len show "\<exists>w'. (case eb_list w of (w', index) \<Rightarrow>
      (case f w' of Inl err \<Rightarrow> Inl err | Inr w'' \<Rightarrow> Inr (listEnd index w''))) = Inr w' \<and>
      emits w w' (enc_kind List bs)"
    by (auto simp: case_prod_beta)
qed

lemma writes_seq:
  assumes "writes f b1" and "writes g b2"
  shows "writes (\<lambda>w. case f w of Inl err \<Rightarrow> Inl err | Inr w' \<Rightarrow> g w') (b1 @ b2)"
  unfolding writes_def
proof (intro impI allI)
  fix w assume "length (b1 @ b2) < 2 ^ 64"
  then have l: "length b1 < 2 ^ 64" "length b2 < 2 ^ 64" by simp_all
  obtain w1 where w1: "f w = Inr w1" "emits w w1 b1" using assms(1) l(1) by (auto simp: writes_def)
  obtain w2 where "g w1 = Inr w2" "emits w1 w2 b2" using assms(2) l(2) by (auto simp: writes_def)
  with w1 show "\<exists>w'. (case f w of Inl err \<Rightarrow> Inl err | Inr w' \<Rightarrow> g w') = Inr w' \<and> emits w w' (b1 @ b2)"
    by (auto intro: emits_trans)
qed

lemma writes_Nil: "writes Inr []"
  by (auto simp: writes_def emits_refl)

lemma writeNilPtr_list:
  "writes (\<lambda>w. Inr (case eb_list w of (w', index) \<Rightarrow> listEnd index w')) (enc_kind List [])"
  using writes_list [OF writes_Nil] by (simp add: case_prod_beta)

lemma single_one [simp]: "enc_string [1] = [1]"
  by (simp add: enc_string_def single_byte_def)

lemma enc_string_fits: "length (enc_string c) < 2 ^ 64 \<Longrightarrow> length c < 2 ^ 64"
  using length_enc_string [of c] by simp

lemma enc_kind_String_Nil: "enc_kind String [] = [0x80]" and enc_kind_List_Nil: "enc_kind List [] = [0xC0]"
  by (simp_all add: head_bytes_def)

lemma writes_writeVal:
  shows "has_type t v \<Longrightarrow> writes (writeVal t ts v) (enc_val t ts v)"
    and "have_type t vs \<Longrightarrow> writes (writeVals t vs) (enc_vals t vs)"
    and "fields_type fs vs \<Longrightarrow> writes (writeFields fs vs) (enc_fields fs vs)"
proof (induction t ts v and t vs and fs vs
    rule: enc_val_enc_vals_enc_fields.induct)
  case (1 t ts b)
  then show ?case
    by (intro writes_write) (auto simp: fun_eq_iff writeString_enc encodeString_enc
      writeByteArray_enc dest: enc_string_fits [simplified] split: gotype.splits)
next
  case (2 t ts i)
  then show ?case
    by (intro writes_write) (auto simp: fun_eq_iff encodeUint_enc uint_content_nat_bytes split: gotype.splits)
next
  case (3 t ts b)
  then show ?case by (intro writes_write) (auto simp: fun_eq_iff writeBool_def)
next
  case (4 t ts i)
  then show ?case
    by (intro writes_write) (auto simp: fun_eq_iff writeBigInt_enc dest: enc_string_fits [simplified])
next
  case (5 t ts)
  then show ?case
    using writeNilPtr_list
    by (auto simp: enc_nil_def writeNilPtr_def enc_kind_List_Nil [symmetric] enc_kind_String_Nil
        simp del: enc_kind.simps intro!: writes_write split: gotype.splits)
next
  case (6 t ts v)
  then show ?case by (auto simp: elem_type_def split: gotype.splits)
next
  case (8 t ts vs)
  then show ?case
    by (auto simp: elem_type_def intro!: writes_list split: gotype.splits simp del: enc_kind.simps)
next
  case (10 t v vs)
  then show ?case by (simp add: writes_seq)
next
  case (13 t ts fs v vs)
  then show ?case by (auto intro: writes_seq)
next
  case (11 vs)
  then show ?case by (cases vs) (auto simp: writes_def emits_refl)
qed (auto simp: writes_def emits_refl)

subsection \<open>Reading the buffer out\<close>

lemma puthead_head:
  "headsize n \<le> length buf \<Longrightarrow>
   puthead buf s l n = Some (head_bytes s l n @ drop (headsize n) buf, headsize n)"
  by (cases buf)
    (auto simp: puthead_def head_bytes_def headsize_def putint_def Let_def split: if_splits)

lemma head_encode_head: "head_encode h = Some (head_bytes 0xC0 0xF7 (word_of_nat (lh_size h)))"
  using headsize_le9 [of "word_of_nat (lh_size h)"]
  by (simp add: head_encode_def puthead_head length_head_bytes)

lemma copy_at_fits:
  "length c \<le> length rest \<Longrightarrow>
   copy_at (acc @ rest) (length acc) c = Some (length c, (acc @ c) @ drop (length c) rest)"
  by (simp add: copy_at_def Let_def min_def)

lemma head_encode_at_fits:
  assumes "headsize (word_of_nat (lh_size h)) \<le> length rest" and "pos = length acc"
  shows "head_encode_at h (acc @ rest) pos =
    (let hb = head_bytes 0xC0 0xF7 (word_of_nat (lh_size h)) in
     Some (length hb, (acc @ hb) @ drop (length hb) rest))"
  using assms by (simp add: head_encode_at_def puthead_head length_head_bytes)

lemma str_slice_drop: "i \<le> j \<Longrightarrow> j \<le> length s \<Longrightarrow> str_slice s i j = Some (take (j - i) (drop i s))"
  by (simp add: str_slice_def slice_def)

lemma toBytes_loop_render:
  assumes "heads_in strpos (length s) hs"
    and "length rest = length (render strpos (drop strpos s) hs)"
  shows "toBytes_loop s hs (acc @ rest) (length acc) strpos =
    Some (acc @ render strpos (drop strpos s) hs)"
  using assms
proof (induction hs arbitrary: strpos acc rest)
  case Nil
  then show ?case by (simp add: str_slice_drop copy_at_fits)
next
  case (Cons h hs)
  let ?o = "lh_offset h" and ?hb = "head_bytes 0xC0 0xF7 (word_of_nat (lh_size h))"
  let ?c = "take (?o - strpos) (drop strpos s)"
  have o: "strpos \<le> ?o" "?o \<le> length s"
    using Cons.prems(1) heads_in_le by auto
  have lc: "length ?c = ?o - strpos" using o by simp
  have len: "length rest = length ?c + length ?hb + length (render ?o (drop ?o s) hs)"
    using Cons.prems(2) o by simp
  have "copy_at (acc @ rest) (length acc) ?c =
      Some (length ?c, (acc @ ?c) @ drop (length ?c) rest)"
    using len by (intro copy_at_fits) simp
  moreover have "head_encode_at h ((acc @ ?c) @ drop (length ?c) rest) (length acc + length ?c) =
      Some (length ?hb, ((acc @ ?c) @ ?hb) @ drop (length ?hb) (drop (length ?c) rest))"
    using len by (subst head_encode_at_fits) (simp_all add: length_head_bytes)
  moreover have "toBytes_loop s hs (((acc @ ?c) @ ?hb) @ drop (length ?hb) (drop (length ?c) rest))
      (length ((acc @ ?c) @ ?hb)) ?o = Some (((acc @ ?c) @ ?hb) @ render ?o (drop ?o s) hs)"
    using Cons.prems(1) len by (intro Cons.IH) simp_all
  ultimately show ?case
    using o lc by (simp add: str_slice_drop add.assoc)
qed

lemma toWriter_loop_render:
  assumes "heads_in strpos (length s) hs"
  shows "toWriter_loop s hs strpos out = Some (out @ render strpos (drop strpos s) hs)"
  using assms
proof (induction hs arbitrary: strpos out)
  case (Cons h hs)
  let ?o = "lh_offset h"
  have o: "strpos \<le> ?o" "?o \<le> length s"
    using Cons.prems(1) heads_in_le by auto
  with Cons show ?case by (cases "strpos = ?o") (simp_all add: str_slice_drop head_encode_head)
qed simp

lemma emits_reset:
  assumes "emits eb_reset w bs"
  shows "eb_size w = length bs" and "render 0 (eb_str w) (eb_lheads w) = bs"
    and "heads_in 0 (length (eb_str w)) (eb_lheads w)"
  using assms by (auto simp: emits_def eb_reset_def eb_size_def)

lemma toBytes_emits: "emits eb_reset w bs \<Longrightarrow> toBytes w = Some bs"
  using emits_reset [of w bs] toBytes_loop_render [of 0 "eb_str w" "eb_lheads w" _ "[]"]
  by (simp add: toBytes_def)

lemma toWriter_emits: "emits eb_reset w bs \<Longrightarrow> toWriter w = Some bs"
  using emits_reset [of w bs] by (simp add: toWriter_def toWriter_loop_render)

subsection \<open>The incremental reader\<close>

text \<open>What a reader still has to deliver, and the number of rounds it needs for that.\<close>

definition rest_of :: "encbuf \<Rightarrow> encReader \<Rightarrow> bytes" where
  "rest_of w r = render (er_strpos r) (drop (er_strpos r) (eb_str w)) (drop (er_lhpos r) (eb_lheads w))"

definition pending :: "encReader \<Rightarrow> bytes" where
  "pending r =
     (case er_buf r of None \<Rightarrow> [] | Some w \<Rightarrow> (case er_piece r of None \<Rightarrow> [] | Some p \<Rightarrow> p) @ rest_of w r)"

definition rounds :: "encReader \<Rightarrow> nat" where
  "rounds r =
     (case er_buf r of None \<Rightarrow> 1
      | Some w \<Rightarrow> (if er_piece r = None then 1 else 2) +
          (2 * (length (eb_lheads w) - er_lhpos r) -
           (if er_lhpos r < length (eb_lheads w) \<and>
               \<not> er_strpos r < lh_offset (eb_lheads w ! er_lhpos r) then 1 else 0)) +
          (if er_strpos r < length (eb_str w) then 1 else 0))"

definition er_ok :: "encReader \<Rightarrow> bool" where
  "er_ok r \<longleftrightarrow>
     (case er_buf r of None \<Rightarrow> True
      | Some w \<Rightarrow> heads_in (er_strpos r) (length (eb_str w)) (drop (er_lhpos r) (eb_lheads w)) \<and>
          er_piece r \<noteq> Some [])"

lemma head_bytes_ne [simp]: "head_bytes s l n \<noteq> []"
  by (simp add: head_bytes_def)

lemma er_next_piece:
  assumes ok: "er_ok r" and nx: "er_next r = (Some p, r')"
  shows "p \<noteq> []" "pending r = p @ pending (r'\<lparr>er_piece := None\<rparr>)"
    "rounds (r'\<lparr>er_piece := None\<rparr>) < rounds r" "er_buf r' \<noteq> None"
    "er_ok (r'\<lparr>er_piece := None\<rparr>)"
proof -
  obtain w where w: "er_buf r = Some w" using nx by (auto simp: er_next_def split: option.splits)
  let ?hs = "eb_lheads w" and ?s = "eb_str w"
  consider (piece) "er_piece r = Some p" "r' = r"
    | (chunk) "er_piece r = None" "er_lhpos r < length ?hs"
        "er_strpos r < lh_offset (?hs ! er_lhpos r)"
    | (head) "er_piece r = None" "er_lhpos r < length ?hs"
        "\<not> er_strpos r < lh_offset (?hs ! er_lhpos r)"
    | (rest) "er_piece r = None" "\<not> er_lhpos r < length ?hs" "er_strpos r < length ?s"
    using nx by (auto simp: er_next_def w Let_def split: if_splits)
  then have "p \<noteq> [] \<and> pending r = p @ pending (r'\<lparr>er_piece := None\<rparr>) \<and>
    rounds (r'\<lparr>er_piece := None\<rparr>) < rounds r \<and> er_buf r' \<noteq> None \<and> er_ok (r'\<lparr>er_piece := None\<rparr>)"
  proof cases
    case piece
    with ok w show ?thesis by (auto simp: pending_def rounds_def er_ok_def rest_of_def)
  next
    case chunk
    let ?h = "?hs ! er_lhpos r"
    have d: "drop (er_lhpos r) ?hs = ?h # drop (er_lhpos r + 1) ?hs"
      using chunk(2) by (simp add: Cons_nth_drop_Suc)
    with ok w heads_in_le have "lh_offset ?h \<le> length ?s" by (auto simp: er_ok_def)
    with chunk nx w d ok show ?thesis
      by (auto simp: er_next_def Let_def str_slice_drop pending_def rest_of_def rounds_def er_ok_def)
  next
    case head
    let ?h = "?hs ! er_lhpos r"
    have d: "drop (er_lhpos r) ?hs = ?h # drop (er_lhpos r + 1) ?hs"
      using head(2) by (simp add: Cons_nth_drop_Suc)
    with ok w head have "er_strpos r = lh_offset ?h" by (auto simp: er_ok_def)
    with head nx w d ok show ?thesis
      by (auto simp: er_next_def Let_def head_encode_head pending_def rest_of_def rounds_def er_ok_def)
  next
    case rest
    with nx w ok show ?thesis
      by (auto simp: er_next_def pending_def rest_of_def rounds_def er_ok_def)
  qed
  then show "p \<noteq> []" "pending r = p @ pending (r'\<lparr>er_piece := None\<rparr>)"
    "rounds (r'\<lparr>er_piece := None\<rparr>) < rounds r" "er_buf r' \<noteq> None"
    "er_ok (r'\<lparr>er_piece := None\<rparr>)" by simp_all
qed

lemma er_next_None:
  assumes ok: "er_ok r" and nx: "er_next r = (None, r')"
  shows "pending r = []" "r' = r"
proof -
  have "pending r = [] \<and> r' = r"
  proof (cases "er_buf r")
    case None
    with nx show ?thesis by (simp add: er_next_def pending_def)
  next
    case (Some w)
    with ok heads_in_le have
      "er_lhpos r < length (eb_lheads w) \<Longrightarrow> er_strpos r \<le> lh_offset (eb_lheads w ! er_lhpos r) \<and>
        lh_offset (eb_lheads w ! er_lhpos r) \<le> length (eb_str w)"
      by (auto simp: er_ok_def Cons_nth_drop_Suc [symmetric])
    with nx ok Some show ?thesis
      by (auto simp: er_next_def pending_def rest_of_def Let_def str_slice_drop head_encode_head
          split: if_splits option.splits)
  qed
  then show "pending r = []" "r' = r" by simp_all
qed

lemma er_read_loop_correct:
  assumes "er_ok r" and "rounds r \<le> fuel" and "length out \<le> room"
  shows "\<exists>r'. er_read_loop fuel room out r =
      Some (out @ take (room - length out) (pending r), length (pending r) \<le> room - length out, r') \<and>
    er_ok r' \<and> pending r' = drop (room - length out) (pending r)"
  using assms
proof (induction fuel arbitrary: out r)
  case 0
  then show ?case by (simp add: rounds_def split: option.splits if_splits)
next
  case (Suc fuel)
  obtain p r' where nx: "er_next r = (p, r')" by (cases "er_next r") auto
  show ?case
  proof (cases p)
    case None
    with er_next_None [OF Suc.prems(1)] nx show ?thesis by (simp add: er_ok_def pending_def)
  next
    case (Some q)
    note nx' = er_next_piece [OF Suc.prems(1) nx [unfolded Some]]
    let ?room = "room - length out"
    show ?thesis
    proof (cases "?room < length q")
      case True
      have "er_ok (r'\<lparr>er_piece := Some (drop ?room q)\<rparr>)"
        "pending (r'\<lparr>er_piece := Some (drop ?room q)\<rparr>) = drop ?room q @ pending (r'\<lparr>er_piece := None\<rparr>)"
        using nx'(4,5) True by (auto simp: er_ok_def pending_def rest_of_def)
      with True show ?thesis by (simp add: nx Some nx'(2) Let_def)
    next
      case False
      then have q: "length q \<le> ?room" "length (out @ q) \<le> room" "room - length (out @ q) = ?room - length q"
        using Suc.prems(3) by simp_all
      have "rounds (r'\<lparr>er_piece := None\<rparr>) \<le> fuel" using nx'(3) Suc.prems(2) by simp
      from Suc.IH [OF nx'(5) this q(2)] q show ?thesis
        by (simp add: nx Some nx'(2) Let_def le_diff_conv2 ac_simps)
    qed
  qed
qed

lemma rounds_le: "er_ok r \<Longrightarrow> er_buf r = Some w \<Longrightarrow> rounds r \<le> 2 * length (eb_lheads w) + 3"
  by (auto simp: rounds_def)

lemma er_read_correct:
  assumes "er_ok r"
  shows "\<exists>r'. er_read room r = Some (take room (pending r), length (pending r) \<le> room, r') \<and>
    er_ok r' \<and> pending r' = drop room (pending r)"
proof -
  have "rounds r \<le> (case er_buf r of None \<Rightarrow> 1 | Some w \<Rightarrow> 2 * length (eb_lheads w) + 3)"
    using rounds_le [OF assms] by (auto simp: rounds_def split: option.split)
  from er_read_loop_correct [OF assms this, of "[]" room] show ?thesis
    by (simp add: er_read_def)
qed

subsection \<open>Encoding is correct\<close>

lemma encode_emits:
  assumes "serializable t" and "has_type t v" and "length (enc_val t no_tags v) < 2 ^ 64"
  shows "\<exists>w. encbuf_encode t v eb_reset = Inr w \<and> emits eb_reset w (enc_val t no_tags v)"
  using writes_writeVal(1) [OF assms(2), of no_tags] assms(1,3)
  by (auto simp: encbuf_encode_def writes_def)

lemma Encode_enc_val:
  assumes "serializable t" and "has_type t v" and "length (enc_val t no_tags v) < 2 ^ 64"
  shows "Encode t v = Some (Inr (enc_val t no_tags v))"
  using encode_emits [OF assms] toWriter_emits by (auto simp: Encode_def)

text \<open>A list with a number, a nested list of strings and a nil pointer, for the witnesses.\<close>

definition sample_type :: gotype where
  "sample_type = TStruct [(TUint 64, no_tags), (TSlice TString, no_tags), (TBigPtr, no_tags),
     (TPtr (TStruct []), no_tags)]"

definition sample_value :: goval where
  "sample_value = VList [VUint 1024, VList [VBytes [0x64, 0x6F, 0x67], VBytes []], VBig 127, VNil]"

definition sample_bytes :: bytes where
  "sample_bytes = [0xCB, 0x82, 0x04, 0x00, 0xC5, 0x83, 0x64, 0x6F, 0x67, 0x80, 0x7F, 0xC0]"

lemma sample_typed: "serializable sample_type" "has_type sample_type sample_value"
  using unsigned_less [of "1024 :: u64"] by (simp_all add: sample_type_def sample_value_def no_tags_def isByte_def)

lemma sample_enc: "enc_val sample_type no_tags sample_value = sample_bytes"
  and sample_length: "length sample_bytes = 12"
  by code_simp+

text \<open>
  C9: \<open>EncodeToBytes\<close> returns the canonical encoding of every value of a serializable type: the
  output array is allocated with exactly the right size, no slice expression of \<open>toBytes\<close> is
  out of range, and merging the string data with the list headers recorded beside it gives the
  encoding defined by structure on the value.
\<close>

theorem EncodeToBytes_correct:
  assumes "serializable t" and "has_type t v" and "length (enc_val t no_tags v) < 2 ^ 64"
  shows "EncodeToBytes t v = Some (Inr (enc_val t no_tags v))"
  using encode_emits [OF assms] toBytes_emits by (auto simp: EncodeToBytes_def)

theorem EncodeToBytes_correct_witness:
  "EncodeToBytes sample_type sample_value = Some (Inr sample_bytes)"
  using EncodeToBytes_correct [OF sample_typed] by (simp add: sample_enc sample_length)

text \<open>
  C14: The three ways out of the encoder agree: for a value of a serializable type the buffer
  read out at once (\<open>toBytes\<close>), chunk by chunk into a writer (\<open>toWriter\<close>), gives the same
  bytes, and \<open>size()\<close> is their number.
\<close>

theorem toWriter_toBytes:
  assumes "serializable t" and "has_type t v" and "length (enc_val t no_tags v) < 2 ^ 64"
  shows "\<exists>w. encbuf_encode t v eb_reset = Inr w \<and> toWriter w = toBytes w \<and>
    toBytes w = Some (enc_val t no_tags v) \<and> eb_size w = length (enc_val t no_tags v)"
proof -
  obtain w where w: "encbuf_encode t v eb_reset = Inr w" "emits eb_reset w (enc_val t no_tags v)"
    using encode_emits [OF assms] by auto
  then show ?thesis
    using toBytes_emits [OF w(2)] toWriter_emits [OF w(2)] emits_reset(1) [OF w(2)] by simp
qed

theorem toWriter_toBytes_witness:
  "\<exists>w. encbuf_encode sample_type sample_value eb_reset = Inr w \<and> toWriter w = toBytes w \<and>
    toBytes w = Some sample_bytes \<and> eb_size w = 12"
  using toWriter_toBytes [OF sample_typed] by (simp add: sample_enc sample_length)

text \<open>
  A client that calls \<open>Read\<close> with buffers of the given lengths: what it has received and whether
  the last call reported the end.
\<close>

fun er_reads :: "nat list \<Rightarrow> encReader \<Rightarrow> (bytes \<times> bool) list option" where
  "er_reads [] r = Some []"
| "er_reads (room # rooms) r =
     (case er_read room r of
       None \<Rightarrow> None
     | Some (out, eof, r') \<Rightarrow> map_option ((#) (out, eof)) (er_reads rooms r'))"

fun cut_up :: "nat list \<Rightarrow> bytes \<Rightarrow> (bytes \<times> bool) list" where
  "cut_up [] bs = []"
| "cut_up (n # ns) bs = (take n bs, length bs \<le> n) # cut_up ns (drop n bs)"

lemma er_reads_correct: "er_ok r \<Longrightarrow> er_reads rooms r = Some (cut_up rooms (pending r))"
proof (induction rooms arbitrary: r)
  case (Cons room rooms)
  with er_read_correct [OF Cons.prems, of room] show ?case by auto
qed simp

text \<open>
  C15: \<open>EncodeToReader\<close> announces the length of the encoding, and a client that calls \<open>Read\<close>
  with buffers of any lengths is given the encoding cut up at exactly those lengths, with
  \<open>io.EOF\<close> exactly from the call on whose buffer takes everything that is left.  Every call
  returns.
\<close>

theorem EncodeToReader_correct:
  assumes "serializable t" and "has_type t v" and "length (enc_val t no_tags v) < 2 ^ 64"
  shows "\<exists>r. EncodeToReader t v = Inr (length (enc_val t no_tags v), r) \<and>
    (\<forall>rooms. er_reads rooms r = Some (cut_up rooms (enc_val t no_tags v)))"
proof -
  obtain w where w: "encbuf_encode t v eb_reset = Inr w" "emits eb_reset w (enc_val t no_tags v)"
    using encode_emits [OF assms] by auto
  let ?r = "\<lparr>er_buf = Some w, er_lhpos = 0, er_strpos = 0, er_piece = None\<rparr>"
  have "er_ok ?r" "pending ?r = enc_val t no_tags v"
    using emits_reset [OF w(2)] by (simp_all add: er_ok_def pending_def rest_of_def)
  with w emits_reset(1) [OF w(2)] er_reads_correct show ?thesis
    by (auto simp: EncodeToReader_def)
qed

theorem EncodeToReader_correct_witness:
  "\<exists>r. EncodeToReader sample_type sample_value = Inr (12, r) \<and>
    er_reads [5, 7, 1] r = Some [([0xCB, 0x82, 0x04, 0x00, 0xC5], False),
      ([0x83, 0x64, 0x6F, 0x67, 0x80, 0x7F, 0xC0], True), ([], True)]"
proof -
  have "cut_up [5, 7, 1] sample_bytes = [([0xCB, 0x82, 0x04, 0x00, 0xC5], False),
      ([0x83, 0x64, 0x6F, 0x67, 0x80, 0x7F, 0xC0], True), ([], True)]"
    by code_simp
  then show ?thesis
    using EncodeToReader_correct [OF sample_typed] unfolding sample_enc sample_length by fastforce
qed

end
