(* ===== verification/Rlp_Stream_Correct.thy ===== *)
theory Rlp_Stream_Correct
  imports Rlp_Stream Rlp_Encode_Correct
begin

text \<open>
  Correctness of the stream decoder: on the encoding of a value it delivers the value and
  consumes exactly the encoding.
\<close>

subsection \<open>Accounting\<close>

definition charge :: "nat \<Rightarrow> Stream \<Rightarrow> Stream" where
  "charge n s =
     s\<lparr>st_kind := None,
       stack := (case stack s of [] \<Rightarrow> []
                 | tos # rest \<Rightarrow> tos\<lparr>lp_pos := lp_pos tos + word_of_nat n\<rparr> # rest),
       remaining := (if limited s then remaining s - word_of_nat n else remaining s)\<rparr>"

text \<open>The stream after \<open>n\<close> bytes of input.\<close>

definition adv :: "nat \<Rightarrow> Stream \<Rightarrow> Stream" where
  "adv n s = (charge n s)\<lparr>st_r := drop n (st_r s)\<rparr>"

text \<open>The limits leave room for \<open>n\<close> more bytes.\<close>

definition top_room :: "Stream \<Rightarrow> nat" where
  "top_room s = (case stack s of [] \<Rightarrow> 2 ^ 64 | tos # _ \<Rightarrow> unat (lp_size tos) - unat (lp_pos tos))"

definition top_ok :: "Stream \<Rightarrow> bool" where
  "top_ok s \<longleftrightarrow> (case stack s of [] \<Rightarrow> True | tos # _ \<Rightarrow> lp_pos tos \<le> lp_size tos)"

definition room :: "nat \<Rightarrow> Stream \<Rightarrow> bool" where
  "room n s \<longleftrightarrow>
     n < 2 ^ 64 \<and> top_ok s \<and> n \<le> top_room s \<and> (limited s \<longrightarrow> n \<le> unat (remaining s))"

text \<open>Streams that differ in the remembered header only.\<close>

definition clean :: "Stream \<Rightarrow> Stream" where
  "clean s = s\<lparr>st_kind := None, st_size := 0, byteval := 0, kinderr := None\<rparr>"

lemma clean_idem [simp]: "clean (clean s) = clean s"
  by (simp add: clean_def)

lemma clean_updates [simp]:
  "clean (s\<lparr>st_kind := k\<rparr>) = clean s" "clean (s\<lparr>st_size := n\<rparr>) = clean s"
  "clean (s\<lparr>byteval := b\<rparr>) = clean s" "clean (s\<lparr>kinderr := e\<rparr>) = clean s"
  by (simp_all add: clean_def)

lemma clean_eqD:
  assumes "clean s = clean s'"
  shows "st_r s = st_r s'" "remaining s = remaining s'" "limited s = limited s'"
    "stack s = stack s'"
proof -
  have "st_r (clean s) = st_r (clean s')" "remaining (clean s) = remaining (clean s')"
    "limited (clean s) = limited (clean s')" "stack (clean s) = stack (clean s')"
    by (simp_all only: assms)
  then show "st_r s = st_r s'" "remaining s = remaining s'" "limited s = limited s'"
    "stack s = stack s'" by (simp_all add: clean_def)
qed

lemma clean_room: "clean s = clean s' \<Longrightarrow> room n s = room n s'"
  using clean_eqD [of s s'] by (simp add: room_def top_room_def top_ok_def)

lemma clean_adv: "clean s = clean s' \<Longrightarrow> clean (adv n s) = clean (adv n s')"
  using clean_eqD [of s s'] by (simp add: clean_def adv_def charge_def)

lemma adv_fields [simp]:
  "st_kind (adv n s) = None" "st_r (adv n s) = drop n (st_r s)" "limited (adv n s) = limited s"
  by (simp_all add: adv_def charge_def)

lemma adv_adv: "adv m (adv n s) = adv (n + m) s"
  by (simp add: adv_def charge_def add.commute split: list.split)

lemma willRead_room: "room n s \<Longrightarrow> willRead (word_of_nat n) s = (None, charge n s)"
  by (auto simp: room_def willRead_def willRead_limit_def charge_def top_ok_def top_room_def Let_def
      word_less_nat_alt word_le_nat_alt unat_sub unat_u64_of_nat split: list.splits)

lemma readFull_room:
  "room n s \<Longrightarrow> n \<le> length (st_r s) \<Longrightarrow> readFull n s = (Inr (take n (st_r s)), adv n s)"
  by (simp add: readFull_def willRead_room adv_def charge_def)

lemma readByte_room: "room 1 s \<Longrightarrow> st_r s = b # r \<Longrightarrow> readByte s = (Inr b, adv 1 s)"
  using willRead_room [of 1 s] by (simp add: readByte_def adv_def charge_def)

lemma room_adv:
  assumes "room (n + m) s"
  shows "room m (adv n s)"
proof -
  have n: "unat (word_of_nat n :: u64) = n" using assms by (simp add: room_def unat_u64_of_nat)
  have pos: "unat (p + word_of_nat n) = unat p + n"
    if "p \<le> z" "n + m \<le> unat z - unat p" for p z :: u64
  proof -
    have "unat p + n \<le> unat z" using that by (simp add: word_le_nat_alt)
    also have "\<dots> < 2 ^ 64" using unsigned_less [of z] by simp
    finally show ?thesis by (simp add: unat_word_ariths n)
  qed
  have rem: "unat (z - word_of_nat n) = unat z - n" if "n + m \<le> unat z" for z :: u64
    using that by (simp add: unat_sub word_le_nat_alt n)
  show ?thesis
    using assms pos rem
    by (auto simp: room_def top_ok_def top_room_def adv_def charge_def word_le_nat_alt
        split: list.splits)
qed

lemma room_mono: "room n s \<Longrightarrow> m \<le> n \<Longrightarrow> room m s"
  by (auto simp: room_def)

lemma room_updates [simp]:
  "room n (s\<lparr>st_kind := k\<rparr>) = room n s" "room n (s\<lparr>st_size := z\<rparr>) = room n s"
  "room n (s\<lparr>byteval := b\<rparr>) = room n s" "room n (s\<lparr>kinderr := e\<rparr>) = room n s"
  by (simp_all add: room_def top_ok_def top_room_def)

lemma adv_updates [simp]:
  "adv n (s\<lparr>st_kind := k\<rparr>) = adv n s" "adv n (s\<lparr>st_size := z\<rparr>) = (adv n s)\<lparr>st_size := z\<rparr>"
  "adv n (s\<lparr>byteval := b\<rparr>) = (adv n s)\<lparr>byteval := b\<rparr>"
  "adv n (s\<lparr>kinderr := e\<rparr>) = (adv n s)\<lparr>kinderr := e\<rparr>"
  by (simp_all add: adv_def charge_def)

subsection \<open>Headers\<close>

lemma readUint_room:
  assumes room: "room (intsize z) s" and r: "st_r s = putint_bytes z @ r" and nz: "z \<noteq> 0"
  shows "readUint (word_of_nat (intsize z)) s = (Inr z, adv (intsize z) s)"
proof -
  let ?m = "intsize z"
  have m: "1 \<le> ?m" "?m \<le> 8" using intsize_pos intsize_le8 by auto
  then have u: "unat (word_of_nat ?m :: byte) = ?m" by (simp add: unat_byte_of_nat)
  have m0: "(word_of_nat ?m :: byte) \<noteq> 0" using u m by (metis not_one_le_zero unsigned_0)
  have m1: "(word_of_nat ?m :: byte) = 1 \<longleftrightarrow> ?m = 1"
    using u by (metis of_nat_1 unsigned_1)
  show ?thesis
  proof (cases "?m = 1")
    case True
    then obtain b where b: "putint_bytes z = [b]"
      using length_putint_bytes [of z] by (cases "putint_bytes z") auto
    then have "z = ucast b" using be_u64_putint_bytes [of z] by (simp add: be_u64_def)
    with True b r room show ?thesis by (simp add: readUint_def readByte_room)
  next
    case False
    have "putint_bytes z ! 0 \<noteq> 0" using hd_putint_bytes nz by (metis hd_conv_nth putint_bytes_ne)
    with False m0 m1 r room show ?thesis
      by (simp add: readUint_def u readFull_room be_u64_putint_bytes nth_append)
  qed
qed

definition hlen :: "kind \<Rightarrow> bytes \<Rightarrow> nat" where
  "hlen k c = (if k = Byte then 1 else headsize (len64 c))"

definition hsize :: "kind \<Rightarrow> bytes \<Rightarrow> u64" where
  "hsize k c = (if k = Byte then 0 else len64 c)"

text \<open>The state in which the header of \<open>enc_kind k c\<close> has been read and is remembered.\<close>

definition peek :: "kind \<Rightarrow> bytes \<Rightarrow> Stream \<Rightarrow> Stream" where
  "peek k c s = (adv (hlen k c) s)\<lparr>st_kind := Some k, st_size := hsize k c,
     byteval := (if k = Byte then hd c else 0), kinderr := None\<rparr>"

lemma readKind_short:
  assumes "n < 56" and "st_r s = (tag + word_of_nat n) # r" and "room 1 s"
    and "tag = 0x80 \<and> k = String \<or> tag = 0xC0 \<and> k = List"
  shows "readKind s = ((k, word_of_nat n, None), (adv 1 s)\<lparr>byteval := 0\<rparr>)"
  using assms tag_unat [of tag n]
  by (auto simp: readKind_def readByte_room Let_def word_less_nat_alt ucast_byte_of_nat)

lemma readKind_long:
  assumes z: "56 \<le> z" and r: "st_r s = (tag + word_of_nat (intsize z)) # putint_bytes z @ r"
    and room: "room (1 + intsize z) s"
    and tag: "tag = 0xB7 \<and> k = String \<or> tag = 0xF7 \<and> k = List"
  shows "readKind s = ((k, z, None), (adv (1 + intsize z) s)\<lparr>byteval := 0\<rparr>)"
proof -
  have m: "1 \<le> intsize z" "intsize z \<le> 8" using intsize_pos intsize_le8 by auto
  have b: "readByte s = (Inr (tag + word_of_nat (intsize z)), adv 1 s)"
    using r room_mono [OF room] by (simp add: readByte_room)
  have "readUint (word_of_nat (intsize z)) ((adv 1 s)\<lparr>byteval := 0\<rparr>) =
      (Inr z, adv (intsize z) ((adv 1 s)\<lparr>byteval := 0\<rparr>))"
    using r z room_adv [OF room] by (intro readUint_room) auto
  with z m tag tag_unat [of tag "intsize z"] b show ?thesis
    by (auto simp: readKind_def Let_def word_less_nat_alt word_le_nat_alt long_size_def adv_adv)
qed

lemma readKind_enc_kind:
  assumes "valid_kind k c" and "st_r s = enc_kind k c @ r" and room: "room (length (enc_kind k c)) s"
  shows "readKind s = ((k, hsize k c, None),
    (adv (hlen k c) s)\<lparr>byteval := (if k = Byte then hd c else 0)\<rparr>)"
proof (cases "k = Byte")
  case True
  with assms obtain x where "c = [x]" "x < 0x80" by (auto simp: single_byte_iff)
  with True assms show ?thesis
    by (simp add: readKind_def readByte_room hlen_def hsize_def Let_def)
next
  case False
  obtain tag ltag where tags: "enc_kind k c = head_bytes tag ltag (len64 c) @ c"
    "tag = 0x80 \<and> k = String \<or> tag = 0xC0 \<and> k = List"
    "ltag = 0xB7 \<and> k = String \<or> ltag = 0xF7 \<and> k = List"
    using False by (cases k) auto
  have c: "length c < 2 ^ 64" using room tags(1) by (simp add: room_def)
  show ?thesis
  proof (cases "length c < 56")
    case True
    with tags assms False readKind_short [OF True, of s tag "c @ r" k] room_mono [OF room, of 1] c
    show ?thesis by (simp add: head_bytes_short hlen_def hsize_def headsize_def u64_of_nat_less)
  next
    case l: False
    then have z: "56 \<le> (len64 c :: u64)" using c by (simp add: word_le_nat_alt unat_u64_of_nat)
    then have h: "headsize (len64 c) = 1 + intsize (len64 c)" by (auto simp: headsize_def)
    then have "room (1 + intsize (len64 c)) s"
      by (intro room_mono [OF room]) (simp add: tags(1) length_head_bytes)
    with tags z assms False readKind_long [OF z, of s ltag "c @ r" k]
    show ?thesis
      by (auto simp: hlen_def hsize_def head_bytes_def headsize_def)
  qed
qed

lemma length_enc_hlen:
  "valid_kind k c \<Longrightarrow> length (enc_kind k c) = hlen k c + (if k = Byte then 0 else length c)"
  by (cases k) (simp_all add: hlen_def length_head_bytes single_byte_def)

definition at_end :: "Stream \<Rightarrow> bool" where
  "at_end s \<longleftrightarrow> (case stack s of [] \<Rightarrow> False | tos # _ \<Rightarrow> lp_pos tos = lp_size tos)"

lemma room_not_at_end: "room n s \<Longrightarrow> 0 < n \<Longrightarrow> \<not> at_end s"
  by (auto simp: at_end_def room_def top_room_def split: list.splits)

lemma kind_error_room:
  assumes "room (unat n) s"
  shows "kind_error n s = None"
  using assms
  by (auto simp: room_def kind_error_def top_room_def top_ok_def word_less_nat_alt word_le_nat_alt
      unat_sub split: list.splits)

lemma kind_error_updates [simp]:
  "kind_error n (s\<lparr>byteval := b\<rparr>) = kind_error n s" "kind_error n (s\<lparr>kinderr := e\<rparr>) = kind_error n s"
  by (cases "stack s"; simp add: kind_error_def)+

lemma Kind_enc:
  assumes "valid_kind k c" and "st_r s = enc_kind k c @ r" and room: "room (length (enc_kind k c)) s"
    and "st_kind s = None"
  shows "Kind s = (Inr (k, hsize k c), peek k c s)"
proof -
  have len: "length (enc_kind k c) = hlen k c + (if k = Byte then 0 else length c)"
    using assms(1) by (rule length_enc_hlen)
  have lc: "length c < 2 ^ 64" using room by (simp add: room_def length_enc_kind)
  have pos: "0 < length (enc_kind k c)"
    using assms(1) by (cases k) (auto simp: single_byte_def)
  have "room (unat (hsize k c)) (adv (hlen k c) s)"
    using room len lc by (intro room_adv) (auto simp: hsize_def unat_u64_of_nat intro: room_mono)
  then have "kind_error (hsize k c) (adv (hlen k c) s) = None" by (rule kind_error_room)
  moreover have "\<not> at_end s" using room_not_at_end [OF room pos] .
  moreover have "readKind (s\<lparr>kinderr := None\<rparr>) = ((k, hsize k c, None),
      (adv (hlen k c) (s\<lparr>kinderr := None\<rparr>))\<lparr>byteval := (if k = Byte then hd c else 0)\<rparr>)"
    using assms by (intro readKind_enc_kind) simp_all
  ultimately show ?thesis
    using assms(4)
    by (simp add: Kind_def at_end_def Let_def peek_def kind_result_def)
qed

lemma Kind_peek: "Kind (peek k c s) = (Inr (k, hsize k c), peek k c s)"
  by (simp add: Kind_def peek_def kind_result_def)

lemma Kind_at_end: "st_kind s = None \<Longrightarrow> at_end s \<Longrightarrow> Kind s = (Inl EOL, s\<lparr>kinderr := None\<rparr>)"
  by (simp add: Kind_def at_end_def)

text \<open>Reading the content after the header.\<close>

lemma peek_fields [simp]:
  "byteval (peek k c s) = (if k = Byte then hd c else 0)"
  "st_r (peek k c s) = drop (hlen k c) (st_r s)"
  "clean (peek k c s) = clean (adv (hlen k c) s)"
  by (simp_all add: peek_def)

lemma readFull_peek:
  assumes "valid_kind k c" and "k \<noteq> Byte" and "st_r s = enc_kind k c @ r"
    and "room (length (enc_kind k c)) s"
  shows "\<exists>s'. readFull (length c) (peek k c s) = (Inr c, s') \<and> st_kind s' = None \<and>
    clean s' = clean (adv (length (enc_kind k c)) s)"
proof -
  have len: "length (enc_kind k c) = hlen k c + length c" using assms by (simp add: length_enc_hlen)
  have d: "drop (hlen k c) (enc_kind k c) = c"
    using assms(2) by (cases k) (simp_all add: hlen_def length_head_bytes)
  have "hlen k c \<le> length (enc_kind k c)" using len by simp
  then have r: "st_r (peek k c s) = c @ r" using assms(3) d by simp
  have "room (length c) (peek k c s)"
    using room_adv [of "hlen k c" "length c" s] assms(4) len by (simp add: peek_def)
  with r have "readFull (length c) (peek k c s) = (Inr c, adv (length c) (peek k c s))"
    by (simp add: readFull_room)
  moreover have "clean (adv (length c) (peek k c s)) = clean (adv (length (enc_kind k c)) s)"
    by (simp add: peek_def adv_adv len)
  ultimately show ?thesis by simp
qed

subsection \<open>What a decoder does on an encoding\<close>

text \<open>
  \<open>decodes dec b v\<close>: on a stream that continues with \<open>b\<close> and whose limits leave room for it,
  \<open>dec\<close> delivers \<open>v\<close> and consumes exactly \<open>b\<close>, whether or not the header of \<open>b\<close> has been
  looked at with \<open>Kind\<close> before.
\<close>

definition starts :: "Stream \<Rightarrow> bytes \<Rightarrow> bool" where
  "starts s b \<longleftrightarrow> st_kind s = None \<and> (\<exists>r. st_r s = b @ r) \<and> room (length b) s"

definition delivers :: "((rlp_error + 'a) \<times> Stream) option \<Rightarrow> 'a \<Rightarrow> Stream \<Rightarrow> bool" where
  "delivers x v s0 \<longleftrightarrow> (\<exists>s. x = Some (Inr v, s) \<and> st_kind s = None \<and> clean s = clean s0)"

definition decodes :: "(Stream \<Rightarrow> ((rlp_error + 'a) \<times> Stream) option) \<Rightarrow> bytes \<Rightarrow> 'a \<Rightarrow> bool" where
  "decodes dec b v \<longleftrightarrow>
     (\<forall>s s'. starts s b \<longrightarrow> s' = s \<or> s' = snd (Kind s) \<longrightarrow> delivers (dec s') v (adv (length b) s))"

lemma deliversI: "x = Some (Inr v, s) \<Longrightarrow> st_kind s = None \<Longrightarrow> clean s = clean s0 \<Longrightarrow> delivers x v s0"
  by (auto simp: delivers_def)

text \<open>A reader that starts by looking at the kind may be called after \<open>Kind\<close> as well.\<close>

definition peeks :: "(Stream \<Rightarrow> 'a) \<Rightarrow> bool" where
  "peeks g \<longleftrightarrow> (\<forall>s. Kind (snd (Kind s)) = Kind s \<longrightarrow> g (snd (Kind s)) = g s)"

lemma peeksI:
  assumes "\<And>x s s'. Kind s = (x, s') \<Longrightarrow> Kind s' = (x, s') \<Longrightarrow> g s' = g s"
  shows "peeks g"
  using assms by (auto simp: peeks_def) (metis prod.collapse)

lemma peeks_Some: "peeks g \<Longrightarrow> peeks (\<lambda>s. Some (g s))"
  and peeks_value_of: "peeks g \<Longrightarrow> peeks (\<lambda>s. value_of h (g s))"
  by (simp_all add: peeks_def)

lemma decodes_kind:
  assumes "peeks g" and valid: "valid_kind k c"
    and dec: "\<And>s. starts s (enc_kind k c) \<Longrightarrow>
      delivers (g (peek k c s)) v (adv (length (enc_kind k c)) s)"
  shows "decodes g (enc_kind k c) v"
  unfolding decodes_def
proof (intro allI impI)
  fix s s' assume s: "starts s (enc_kind k c)" and s': "s' = s \<or> s' = snd (Kind s)"
  then have k: "Kind s = (Inr (k, hsize k c), peek k c s)"
    using valid by (auto simp: starts_def intro: Kind_enc)
  then have "g (peek k c s) = g s"
    using assms(1) Kind_peek [of k c s] by (auto simp: peeks_def dest: spec [of _ s])
  with s' k have "g s' = g (peek k c s)" by auto
  with dec [OF s] show "delivers (g s') v (adv (length (enc_kind k c)) s)" by simp
qed

text \<open>The remembered header of a single byte, and of a longer string or a list.\<close>

lemma decodes_Byte:
  assumes "peeks g" and "x < 0x80"
    and "\<And>s. byteval s = x \<Longrightarrow> Kind s = (Inr (Byte, 0), s) \<Longrightarrow>
      \<exists>s'. g s = Some (Inr v, s') \<and> st_kind s' = None \<and> clean s' = clean s"
  shows "decodes g (enc_kind Byte [x]) v"
proof (rule decodes_kind [OF assms(1)])
  show "valid_kind Byte [x]" using assms(2) by (simp add: single_byte_def)
next
  fix s
  show "delivers (g (peek Byte [x] s)) v (adv (length (enc_kind Byte [x])) s)"
    using assms(3) [of "peek Byte [x] s"] by (auto simp: hsize_def hlen_def delivers_def Kind_peek)
qed

definition content_ahead :: "kind \<Rightarrow> bytes \<Rightarrow> Stream \<Rightarrow> Stream \<Rightarrow> bool" where
  "content_ahead k c s s' \<longleftrightarrow>
     Kind s = (Inr (k, len64 c), s) \<and> readFull (length c) s = (Inr c, s') \<and> st_kind s' = None \<and>
     clean s' = clean (adv (length c) s) \<and>
     room (length c) s \<and> (\<exists>r. st_r s = c @ r) \<and> length c < 2 ^ 64"

lemma decodes_content:
  assumes "peeks g" and "valid_kind k c" and k: "k \<noteq> Byte"
    and "\<And>s s'. content_ahead k c s s' \<Longrightarrow> delivers (g s) v s'"
  shows "decodes g (enc_kind k c) v"
proof (rule decodes_kind [OF assms(1,2)])
  fix s assume s: "starts s (enc_kind k c)"
  then obtain r where r: "st_r s = enc_kind k c @ r" "room (length (enc_kind k c)) s"
    by (auto simp: starts_def)
  have len: "length (enc_kind k c) = hlen k c + length c" using assms(2) k by (simp add: length_enc_hlen)
  obtain s' where s': "readFull (length c) (peek k c s) = (Inr c, s')" "st_kind s' = None"
    "clean s' = clean (adv (length (enc_kind k c)) s)"
    using readFull_peek [OF assms(2) k r] by auto
  have "room (length c) (peek k c s)"
    using room_adv [of "hlen k c" "length c" s] r(2) len by (simp add: peek_def)
  moreover have "st_r (peek k c s) = c @ r"
    using r(1) k by (cases k) (simp_all add: hlen_def length_head_bytes)
  moreover have "clean (adv (length c) (peek k c s)) = clean (adv (length (enc_kind k c)) s)"
    by (simp add: peek_def adv_adv len)
  moreover have "length c < 2 ^ 64" using r(2) len by (simp add: room_def)
  ultimately have "content_ahead k c (peek k c s) s'"
    using s' k by (auto simp: content_ahead_def Kind_peek hsize_def)
  then show "delivers (g (peek k c s)) v (adv (length (enc_kind k c)) s)"
    using assms(4) s'(3) by (fastforce simp: delivers_def)
qed

subsection \<open>Strings, integers and raw values\<close>

lemma single_nth: "\<not> single_byte c \<Longrightarrow> length c = 1 \<Longrightarrow> \<not> c ! 0 < 0x80"
  by (cases c) (auto simp: single_byte_def)

lemma len64_one: "length c < 2 ^ 64 \<Longrightarrow> len64 c = (1 :: u64) \<longleftrightarrow> length c = 1"
  using unat_len64 [of c] by (metis of_nat_1 unsigned_1)

lemma decodes_string:
  assumes "\<And>x. c = [x] \<Longrightarrow> x < 0x80 \<Longrightarrow> decodes g (enc_kind Byte [x]) v"
    and "\<not> single_byte c \<Longrightarrow> decodes g (enc_kind String c) v"
  shows "decodes g (enc_string c) v"
  using assms by (auto simp: enc_string_def single_byte_iff simp del: enc_kind.simps)

lemma peeks_Bytes: "peeks Bytes"
  by (rule peeksI) (simp add: Bytes_def)

lemma peeks_Raw: "peeks Raw"
  by (rule peeksI) (simp add: Raw_def)

lemma peeks_uint: "peeks (uint_max n)"
  by (rule peeksI) (simp add: uint_max_def)

lemma peeks_Bool: "peeks Bool"
  using peeks_uint [of 8] by (simp add: peeks_def Bool_def)

lemma peeks_List_open: "peeks List_open"
  by (rule peeksI) (simp add: List_open_def)

lemma peeks_decodeByteArray: "peeks (decodeByteArray n)"
  by (rule peeksI) (simp add: decodeByteArray_def)

lemmas peeks_readers = peeks_Bytes peeks_Raw peeks_uint peeks_Bool peeks_List_open
  peeks_decodeByteArray

lemma Bytes_decodes: "decodes (\<lambda>s. Some (Bytes s)) (enc_string c) c"
proof (rule decodes_string)
  fix x assume "c = [x]" "x < 0x80"
  then show "decodes (\<lambda>s. Some (Bytes s)) (enc_kind Byte [x]) c"
    by (intro decodes_Byte peeks_Some peeks_readers) (simp_all add: Bytes_def)
next
  assume c: "\<not> single_byte c"
  then show "decodes (\<lambda>s. Some (Bytes s)) (enc_kind String c) c"
    using single_nth [of c]
    by (intro decodes_content peeks_Some peeks_readers)
      (auto simp: Bytes_def content_ahead_def unat_u64_of_nat len64_one delivers_def)
qed

lemma decodes_value_of: "decodes (\<lambda>s. Some (g s)) b v \<Longrightarrow> decodes (\<lambda>s. value_of h (g s)) b (h v)"
  by (force simp: decodes_def delivers_def value_of_def)

lemma Raw_decodes:
  assumes "valid_kind k c"
  shows "decodes (\<lambda>s. Some (Raw s)) (enc_kind k c) (enc_kind k c)"
proof (cases "k = Byte")
  case True
  with assms obtain x where "c = [x]" "x < 0x80" by (auto simp: single_byte_iff)
  moreover from this(2) have "decodes (\<lambda>s. Some (Raw s)) (enc_kind Byte [x]) [x]"
    by (intro decodes_Byte peeks_Some peeks_readers) (simp_all add: Raw_def)
  ultimately show ?thesis using True by simp
next
  case False
  show ?thesis
  proof (rule decodes_content [OF peeks_Some [OF peeks_Raw] assms False])
    fix s s' assume c: "content_ahead k c s s'"
    have "(if k = String then puthead buf 0x80 0xB7 (len64 c) else puthead buf 0xC0 0xF7 (len64 c)) =
        Some (enc_kind k c, headsize (len64 c))"
      if "buf = replicate (headsize (len64 c)) 0 @ c" for buf
      using False that by (cases k) (simp_all add: puthead_head)
    with c False show "delivers (Some (Raw s)) (enc_kind k c) s'"
      by (simp add: Raw_def content_ahead_def unat_u64_of_nat delivers_def Let_def)
  qed
qed

lemma uint_decodes:
  assumes n: "n \<in> {8, 16, 32, 64}" and i: "unat i < 2 ^ n"
  shows "decodes (\<lambda>s. Some (uint_max n s)) (enc_string (nat_bytes (unat i))) i"
  unfolding uint_content_nat_bytes [symmetric]
proof (rule decodes_string)
  fix x assume c: "uint_content i = [x]" "x < 0x80"
  then have "putint_bytes i = [x]" "x \<noteq> 0"
    using hd_putint_bytes [of i] by (auto simp: uint_content_def split: if_splits)
  then have "i = ucast x" using be_u64_putint_bytes [of i] by (simp add: be_u64_def)
  with \<open>x \<noteq> 0\<close> c(2) show "decodes (\<lambda>s. Some (uint_max n s)) (enc_kind Byte [x]) i"
    by (intro decodes_Byte peeks_Some peeks_readers) (simp_all add: uint_max_def)
next
  assume c: "\<not> single_byte (uint_content i)"
  have len: "length (uint_content i) \<le> n div 8"
    unfolding uint_content_nat_bytes length_nat_bytes_le using n i by auto
  have n8: "unat (word_of_nat (n div 8) :: u64) = n div 8" using n by auto
  show "decodes (\<lambda>s. Some (uint_max n s)) (enc_kind String (uint_content i)) i"
  proof (rule decodes_content [OF peeks_Some [OF peeks_uint]])
    fix s s' assume a: "content_ahead String (uint_content i) s s'"
    show "delivers (Some (uint_max n s)) i s'"
    proof (cases "i = 0")
      case True
      with a show ?thesis
        by (auto simp: uint_max_def content_ahead_def uint_content_def readUint_def delivers_def
            adv_def charge_def clean_def split: list.splits)
    next
      case False
      then have u: "uint_content i = putint_bytes i" "128 \<le> i"
        using c by (simp_all add: uint_content_def single_byte_putint not_less)
      have len64: "len64 (uint_content i) = (word_of_nat (intsize i) :: u64)" by (simp add: u)
      have "readUint (word_of_nat (intsize i)) s = (Inr i, adv (intsize i) s)"
        using a u False by (auto simp: content_ahead_def intro!: readUint_room)
      moreover have "\<not> (word_of_nat (n div 8) :: u64) < word_of_nat (intsize i)"
        using len n8 intsize_le8 [of i] by (simp add: u word_less_nat_alt unat_u64_of_nat)
      ultimately show ?thesis
        using a u by (auto simp: uint_max_def content_ahead_def len64 delivers_def leD)
    qed
  qed (use c in simp_all)
qed

lemma Bool_decodes: "decodes (\<lambda>s. Some (Bool s)) (enc_string (if b then [1] else [])) b"
proof -
  have "nat_bytes (unat (if b then 1 else 0 :: u64)) = (if b then [1] else [])"
    by (simp add: nat_bytes.simps [of "Suc 0"])
  then have "decodes (\<lambda>s. Some (uint_max 8 s)) (enc_string (if b then [1] else [])) (if b then 1 else 0)"
    using uint_decodes [of 8 "if b then 1 else 0"] by simp
  then show ?thesis
    by (fastforce simp: decodes_def delivers_def Bool_def)
qed

lemma decodeBigInt_decodes:
  assumes "0 \<le> i"
  shows "decodes (\<lambda>s. Some (decodeBigInt s)) (enc_string (nat_bytes (nat i))) (VBig i)"
proof -
  have z: "\<not> (0 < length (nat_bytes (nat i)) \<and> nat_bytes (nat i) ! 0 = 0)"
    using hd_nat_bytes [of "nat i"] by (cases "nat i = 0") (auto simp: hd_conv_nth)
  show ?thesis
    unfolding decodes_def
  proof (intro allI impI)
    fix s s' assume "starts s (enc_string (nat_bytes (nat i)))" "s' = s \<or> s' = snd (Kind s)"
    then obtain s2 where "Bytes s' = (Inr (nat_bytes (nat i)), s2)" "st_kind s2 = None"
      "clean s2 = clean (adv (length (enc_string (nat_bytes (nat i)))) s)"
      using Bytes_decodes [of "nat_bytes (nat i)"] unfolding decodes_def delivers_def by fastforce
    with z assms show "delivers (Some (decodeBigInt s')) (VBig i)
        (adv (length (enc_string (nat_bytes (nat i)))) s)"
      by (simp add: decodeBigInt_def delivers_def)
  qed
qed

lemma byte_u64_byte [simp]: "ucast (ucast (x :: byte) :: u64) = x"
  using unat_byte_less [of x] by (simp add: word_unat_eq_iff unat_ucast_low)

lemma decodeByteArray_decodes:
  assumes "b \<noteq> [0]"
  shows "decodes (\<lambda>s. Some (decodeByteArray (length b) s)) (enc_string b) (VBytes b)"
proof (rule decodes_string)
  fix x assume b: "b = [x]" "x < 0x80"
  then have "x \<noteq> 0" using assms by simp
  with b show "decodes (\<lambda>s. Some (decodeByteArray (length b) s)) (enc_kind Byte [x]) (VBytes b)"
    by (intro decodes_Byte peeks_Some peeks_readers)
      (simp_all add: decodeByteArray_def Uint_def uint_max_def)
next
  assume b: "\<not> single_byte b"
  then show "decodes (\<lambda>s. Some (decodeByteArray (length b) s)) (enc_kind String b) (VBytes b)"
    using single_nth [of b]
    by (intro decodes_content peeks_Some peeks_readers)
      (auto simp: decodeByteArray_def content_ahead_def len64_one delivers_def)
qed

subsection \<open>Lists\<close>

text \<open>
  Inside a list whose remaining content is exactly \<open>b\<close>, a decoder of several values delivers
  them and arrives at the end of the list.
\<close>

definition fills :: "Stream \<Rightarrow> bytes \<Rightarrow> bool" where
  "fills s b \<longleftrightarrow> starts s b \<and> stack s \<noteq> [] \<and> top_room s = length b"

definition decodes_in :: "(Stream \<Rightarrow> ((rlp_error + 'a) \<times> Stream) option) \<Rightarrow> bytes \<Rightarrow> 'a \<Rightarrow> bool" where
  "decodes_in p b v \<longleftrightarrow> (\<forall>s. fills s b \<longrightarrow> delivers (p s) v (adv (length b) s))"

lemma starts_prefix: "starts s (b1 @ b2) \<Longrightarrow> starts s b1"
  by (auto simp: starts_def intro: room_mono)

lemma starts_after:
  assumes "starts s (b1 @ b2)" and "st_kind s' = None" and "clean s' = clean (adv (length b1) s)"
  shows "starts s' b2"
  using assms clean_eqD [OF assms(3)] clean_room [OF assms(3)] room_adv [of "length b1" "length b2" s]
  by (auto simp: starts_def)

lemma top_room_adv:
  assumes "room n s" and "stack s \<noteq> []"
  shows "top_room (adv n s) = top_room s - n"
proof -
  obtain tos rest where st: "stack s = tos # rest" using assms(2) by (cases "stack s") auto
  have n: "n \<le> unat (lp_size tos) - unat (lp_pos tos)" "lp_pos tos \<le> lp_size tos" "n < 2 ^ 64"
    using assms(1) st by (auto simp: room_def top_ok_def top_room_def)
  then have "unat (lp_pos tos) + n \<le> unat (lp_size tos)" by (simp add: word_le_nat_alt)
  also have "\<dots> < 2 ^ 64" using unsigned_less [of "lp_size tos"] by simp
  finally have "unat (lp_pos tos + word_of_nat n) = unat (lp_pos tos) + n"
    using n(3) by (simp add: unat_word_ariths unat_u64_of_nat)
  then show ?thesis by (simp add: st top_room_def adv_def charge_def)
qed

lemma fills_after:
  assumes f: "fills s (b1 @ b2)" and "st_kind s' = None" and c: "clean s' = clean (adv (length b1) s)"
  shows "fills s' b2"
proof -
  have "room (length b1) s" using f by (auto simp: fills_def starts_def intro: room_mono)
  then have "top_room (adv (length b1) s) = length b2" using f by (simp add: top_room_adv fills_def)
  moreover have "stack (adv (length b1) s) \<noteq> []"
    using f by (auto simp: fills_def adv_def charge_def split: list.splits)
  ultimately show ?thesis
    using starts_after [OF _ assms(2,3)] f clean_eqD(4) [OF c] by (auto simp: fills_def top_room_def)
qed

lemma fills_Nil: "fills s [] \<Longrightarrow> at_end s"
  by (auto simp: fills_def starts_def room_def top_ok_def top_room_def at_end_def word_le_nat_alt
      word_unat_eq_iff split: list.splits)

lemma delivers_seq:
  assumes "delivers x v s1" and "\<And>s. x = Some (Inr v, s) \<Longrightarrow> st_kind s = None \<Longrightarrow> clean s = clean s1 \<Longrightarrow> delivers (f v s) w s2"
  shows "delivers (on_ok x f) w s2"
  using assms by (auto simp: delivers_def on_ok_def)

lemma delivers_map: "delivers x v s \<Longrightarrow> delivers (on_ok x (\<lambda>v s. Some (Inr (f v), s))) (f v) s"
  by (auto simp: delivers_def on_ok_def)

lemma delivers_clean: "delivers x v s \<Longrightarrow> clean s = clean s' \<Longrightarrow> delivers x v s'"
  by (simp add: delivers_def)

lemma decodes_list:
  assumes "decodes_in (p (len64 b)) b vs"
  shows "decodes (\<lambda>s. on_ok (Some (List_open s)) (\<lambda>sz s. on_ok (p sz s) (\<lambda>vs s. end_list (VList vs) s)))
    (enc_kind List b) (VList vs)" (is "decodes ?g _ _")
proof (rule decodes_content)
  show "peeks ?g" using peeks_List_open by (simp add: peeks_def)
next
  fix s s' assume c: "content_ahead List b s s'"
  let ?s = "s\<lparr>stack := \<lparr>lp_pos = 0, lp_size = len64 b\<rparr> # stack s, st_kind := None, st_size := 0\<rparr>"
  have op: "List_open s = (Inr (len64 b), ?s)" using c by (simp add: content_ahead_def List_open_def)
  have "fills ?s b"
    using c by (auto simp: content_ahead_def fills_def starts_def room_def top_ok_def top_room_def
        unat_u64_of_nat)
  with assms obtain s3 where p: "p (len64 b) ?s = Some (Inr vs, s3)"
    and s3: "clean s3 = clean (adv (length b) ?s)"
    by (auto simp: decodes_in_def delivers_def)
  have "stack s3 = \<lparr>lp_pos = len64 b, lp_size = len64 b\<rparr> # stack s"
    using clean_eqD(4) [OF s3] by (simp add: adv_def charge_def)
  then have "\<exists>s4. ListEnd s3 = (None, s4) \<and> st_kind s4 = None \<and> clean s4 = clean (adv (length b) s)"
    using s3 clean_eqD(1-3) [OF s3]
    by (auto simp: ListEnd_def clean_def adv_def charge_def Let_def split: list.split)
  with c p op show "delivers (?g s) (VList vs) s'"
    by (auto simp: on_ok_def end_list_def delivers_def content_ahead_def)
qed simp_all

lemma adv_0: "clean (adv 0 s) = clean s"
  by (auto simp: adv_def charge_def clean_def split: list.split)

definition ends :: "decoder \<Rightarrow> bool" where
  "ends dec \<longleftrightarrow> (\<forall>s. st_kind s = None \<and> at_end s \<longrightarrow>
     (\<exists>s'. dec s = Some (Inl EOL, s') \<and> st_kind s' = None \<and> clean s' = clean s))"

text \<open>One value delivered, and then the rest of the list.\<close>

lemma decodes_in_Cons:
  assumes "decodes dec b v" and "decodes_in p bs vs"
    and q: "\<And>s s1. dec s = Some (Inr v, s1) \<Longrightarrow> q s = on_ok (p s1) (\<lambda>vs s. Some (Inr (v # vs), s))"
  shows "decodes_in q (b @ bs) (v # vs)"
  unfolding decodes_in_def
proof (intro allI impI)
  fix s assume f: "fills s (b @ bs)"
  then have "starts s b" using starts_prefix by (auto simp: fills_def)
  then obtain s1 where s1: "dec s = Some (Inr v, s1)" "st_kind s1 = None"
    "clean s1 = clean (adv (length b) s)"
    using assms(1) by (auto simp: decodes_def delivers_def)
  then have "fills s1 bs" using fills_after f by blast
  then have "delivers (p s1) vs (adv (length bs) s1)" using assms(2) by (simp add: decodes_in_def)
  moreover have "clean (adv (length bs) s1) = clean (adv (length (b @ bs)) s)"
    using clean_adv [OF s1(3), of "length bs"] by (simp add: adv_adv)
  ultimately show "delivers (q s) (v # vs) (adv (length (b @ bs)) s)"
    unfolding q [OF s1(1)] by (intro delivers_clean [OF delivers_map])
qed

lemma decodes_in_end:
  assumes "\<And>s. st_kind s = None \<Longrightarrow> at_end s \<Longrightarrow>
      \<exists>s'. p s = Some (Inr [], s') \<and> st_kind s' = None \<and> clean s' = clean s"
  shows "decodes_in p [] []"
  unfolding decodes_in_def
proof (intro allI impI)
  fix s assume "fills s []"
  then show "delivers (p s) [] (adv (length []) s)"
    using assms [of s] fills_Nil [of s] by (auto simp: fills_def starts_def delivers_def adv_0)
qed

lemma decodeSliceElems_in:
  assumes "ends dec" and "\<forall>v \<in> set vs. decodes dec (enc v) v" and "length vs < fuel"
  shows "decodes_in (decodeSliceElems fuel dec) (concat (map enc vs)) vs"
  using assms(2,3)
proof (induction vs arbitrary: fuel)
  case Nil
  then obtain f where f: "fuel = Suc f" by (cases fuel) auto
  have "\<exists>s'. decodeSliceElems (Suc f) dec s = Some (Inr [], s') \<and> st_kind s' = None \<and> clean s' = clean s"
    if "st_kind s = None" "at_end s" for s
    using assms(1) that by (auto simp: ends_def)
  then show ?case unfolding f by (simp add: decodes_in_end)
next
  case (Cons v vs)
  then obtain f where f: "fuel = Suc f" "length vs < f" by (cases fuel) auto
  with Cons have "decodes_in (decodeSliceElems f dec) (concat (map enc vs)) vs" by simp
  with Cons.prems(1) f(1) show ?case by (auto intro: decodes_in_Cons [where dec = dec])
qed

lemma decodeArrayElems_in:
  assumes "\<forall>v \<in> set vs. decodes dec (enc v) v"
  shows "decodes_in (decodeArrayElems (length vs) dec) (concat (map enc vs)) vs"
  using assms
proof (induction vs)
  case Nil
  then show ?case by (auto intro: decodes_in_end)
next
  case (Cons v vs)
  then have "decodes_in (decodeArrayElems (length vs) dec) (concat (map enc vs)) vs" by simp
  with Cons.prems show ?case by (auto intro: decodes_in_Cons [where dec = dec])
qed

lemma decodeFields_Nil: "decodes_in (decodeFields dec []) [] []"
  by (auto intro: decodes_in_end)

lemma decodeFields_ignored:
  "ignored ts \<Longrightarrow> decodes_in (decodeFields dec fs) b vs \<Longrightarrow>
   decodes_in (decodeFields dec ((t, ts) # fs)) b (zero_val t # vs)"
  by (auto simp: decodes_in_def intro: delivers_map)

lemma decodeFields_Cons:
  assumes "\<not> ignored ts" and "decodes (dec t ts) b v" and "decodes_in (decodeFields dec fs) bs vs"
  shows "decodes_in (decodeFields dec ((t, ts) # fs)) (b @ bs) (v # vs)"
  using assms by (auto intro: decodes_in_Cons [where dec = "dec t ts"])

lemma decodeFields_last:
  assumes "\<not> ignored ts" and "decodes_in (dec t ts) b v"
  shows "decodes_in (decodeFields dec [(t, ts)]) b [v]"
  using assms by (fastforce simp: decodes_in_def delivers_def on_ok_def)

end
