(* ===== verification/Rlp_Roundtrip.thy ===== *)
theory Rlp_Roundtrip
  imports Rlp_Stream_Correct
begin

text \<open>
  Encoder and decoder together: decoding what was encoded gives the value back, for the values
  that the two agree on, and the one family of values on which they do not.
\<close>

subsection \<open>The values that survive a round trip\<close>

text \<open>
  Besides being well typed, a value must be what a decoder produces: no nil pointer where the
  field is not tagged \<open>nil\<close> (it is decoded as a pointer to an empty value), no empty value behind
  a pointer tagged \<open>nil\<close> (it is decoded as nil), byte slices and interface slices as the only
  interface values, one item in a \<open>RawValue\<close>, the zero value in ignored fields, \<open>tail\<close> only on
  the last field; and it must not contain the byte array \<open>[1]byte{0}\<close>.
\<close>

definition one_item :: "bytes \<Rightarrow> bool" where
  "one_item b \<longleftrightarrow> (case Split b of Inl e \<Rightarrow> False | Inr (k, c, r) \<Rightarrow> r = [])"

fun storable :: "gotype \<Rightarrow> tags \<Rightarrow> goval \<Rightarrow> bool"
  and storables :: "gotype \<Rightarrow> goval list \<Rightarrow> bool"
  and storable_fields :: "(gotype \<times> tags) list \<Rightarrow> goval list \<Rightarrow> bool"
where
  "storable t ts (VBytes b) \<longleftrightarrow>
     (case t of TRawValue \<Rightarrow> one_item b | TString \<Rightarrow> True | TSlice e \<Rightarrow> isByte e
      | TArray n e \<Rightarrow> isByte e \<and> length b = n \<and> b \<noteq> [0] | _ \<Rightarrow> False)"
| "storable t ts (VUint i) \<longleftrightarrow>
     (case t of TUint n \<Rightarrow> n \<in> {8, 16, 32, 64} \<and> unat i < 2 ^ n | _ \<Rightarrow> False)"
| "storable t ts (VBool b) \<longleftrightarrow> t = TBool"
| "storable t ts (VBig i) \<longleftrightarrow> (t = TBigPtr \<or> t = TBig) \<and> 0 \<le> i"
| "storable t ts VNil \<longleftrightarrow>
     (case t of TPtr e \<Rightarrow> nilOK ts \<and> nilKind ts \<noteq> Byte | _ \<Rightarrow> False)"
| "storable t ts (VPtr v) \<longleftrightarrow>
     (case t of TPtr e \<Rightarrow> storable e no_tags v \<and>
        (nilOK ts \<longrightarrow> enc_val e no_tags v \<noteq> [0x80] \<and> enc_val e no_tags v \<noteq> [0xC0])
      | _ \<Rightarrow> False)"
| "storable t ts (VList vs) \<longleftrightarrow>
     (case t of TSlice e \<Rightarrow> \<not> isByte e \<and> storables e vs
      | TArray n e \<Rightarrow> \<not> isByte e \<and> length vs = n \<and> \<not> tail ts \<and> storables e vs
      | TStruct fs \<Rightarrow> storable_fields fs vs | _ \<Rightarrow> False)"
| "storable t ts (VIface dt v) \<longleftrightarrow> t = TInterface \<and>
     (case v of VBytes b \<Rightarrow> dt = TSlice (TUint 8) | VList vs \<Rightarrow> dt = TSlice TInterface | _ \<Rightarrow> False) \<and>
     storable dt no_tags v"
| "storables t [] \<longleftrightarrow> True"
| "storables t (v # vs) \<longleftrightarrow> storable t no_tags v \<and> storables t vs"
| "storable_fields [] [] \<longleftrightarrow> True"
| "storable_fields [] (v # vs) \<longleftrightarrow> False"
| "storable_fields (f # fs) [] \<longleftrightarrow> False"
| "storable_fields ((t, ts) # fs) (v # vs) \<longleftrightarrow>
     (if ignored ts then v = zero_val t else storable t ts v \<and> (tail ts \<longrightarrow> fs = [])) \<and>
     storable_fields fs vs"

lemma storable_typed:
  shows "storable t ts v \<Longrightarrow> has_type t v"
    and "storables t vs \<Longrightarrow> have_type t vs"
    and "storable_fields fs vs \<Longrightarrow> fields_type fs vs"
proof (induction t ts v and t vs and fs vs rule: storable_storables_storable_fields.induct)
  case (8 t ts dt v)
  then show ?case by (cases v) (auto simp: isByte_def)
qed (auto split: gotype.splits if_splits)

definition item :: "bytes \<Rightarrow> bool" where
  "item b \<longleftrightarrow> (\<exists>k c. valid_kind k c \<and> b = enc_kind k c)"

lemma itemI: "valid_kind k c \<Longrightarrow> item (enc_kind k c)"
  by (auto simp: item_def)

lemma item_string [simp]: "item (enc_string c)"
  unfolding item_def enc_string_def by (metis valid_kind.simps(1,2))

lemma item_list [simp]: "item (head_bytes 0xC0 0xF7 (len64 c) @ c)"
  unfolding item_def by (metis valid_kind.simps(3) enc_kind.simps(3))

lemma item_ne: "item b \<Longrightarrow> b \<noteq> []"
  by (auto simp: item_def enc_kind_ne simp del: enc_kind.simps)

lemma one_item_item: "one_item b \<Longrightarrow> length b < 2 ^ 64 \<Longrightarrow> item b"
  by (auto simp: one_item_def item_def Split_iff split: sum.splits prod.splits)

lemma storable_item:
  assumes "storable t ts v" and "\<not> tail ts" and "length (enc_val t ts v) < 2 ^ 64"
  shows "item (enc_val t ts v)"
  using assms
proof (induction v arbitrary: t ts)
  case (VBytes b)
  then show ?case by (auto simp: one_item_item split: gotype.splits)
next
  case (VNil)
  then show ?case
    by (auto simp: enc_nil_def ptrNilKind_def single_byte_def simp del: enc_kind.simps
        split: gotype.splits intro!: itemI)
next
  case (VPtr v)
  then show ?case by (auto simp: elem_type_def no_tags_def split: gotype.splits)
next
  case (VIface dt v)
  then show ?case by (auto simp: no_tags_def)
qed (auto split: gotype.splits)

subsection \<open>Decoders of pointers and interfaces\<close>

lemma decodes_long: "(length b < 2 ^ 64 \<Longrightarrow> decodes dec b v) \<Longrightarrow> decodes dec b v"
  by (auto simp: decodes_def starts_def room_def)

lemma starts_Kind:
  assumes "valid_kind k c" and "starts s (enc_kind k c)"
  shows "Kind s = (Inr (k, hsize k c), peek k c s)"
  using assms by (auto simp: starts_def intro: Kind_enc)

lemma decodes_peek:
  assumes "valid_kind k c" and "decodes dec (enc_kind k c) v" and "starts s (enc_kind k c)"
  shows "delivers (dec (peek k c s)) v (adv (length (enc_kind k c)) s)"
  using assms starts_Kind [OF assms(1,3)] by (auto simp: decodes_def)

lemma decodeSimplePtr_decodes:
  "decodes dec b v \<Longrightarrow> decodes (decodeSimplePtr dec) b (VPtr v)"
  by (auto simp: decodes_def decodeSimplePtr_def intro: delivers_map)

lemma decodeNilPtr_decodes:
  assumes dec: "decodes dec b v" and it: "item b" and ne: "b \<noteq> [0x80]" "b \<noteq> [0xC0]"
  shows "decodes (decodeNilPtr nk dec) b (VPtr v)"
proof (rule decodes_long)
  assume len: "length b < 2 ^ 64"
  obtain k c where b: "valid_kind k c" "b = enc_kind k c" using it by (auto simp: item_def)
  have "k \<noteq> Byte \<Longrightarrow> c \<noteq> []"
    using ne b by (cases k) (auto simp: head_bytes_def)
  moreover have "length c < 2 ^ 64" using len b by (simp add: length_enc_kind)
  ultimately have nz: "\<not> (k \<noteq> Byte \<and> hsize k c = 0)"
    by (auto simp: hsize_def word_unat_eq_iff unat_u64_of_nat)
  show "decodes (decodeNilPtr nk dec) b (VPtr v)"
    unfolding b(2)
  proof (intro decodes_kind [OF _ b(1)] peeksI)
    fix s assume s: "starts s (enc_kind k c)"
    have "decodeNilPtr nk dec (peek k c s) =
        on_ok (dec (peek k c s)) (\<lambda>v s. Some (Inr (VPtr v), s))"
      using nz by (auto simp: decodeNilPtr_def Kind_peek)
    with delivers_map [OF decodes_peek [OF b(1) dec [unfolded b(2)] s]]
    show "delivers (decodeNilPtr nk dec (peek k c s)) (VPtr v) (adv (length (enc_kind k c)) s)"
      by simp
  qed (simp add: decodeNilPtr_def)
qed

lemma decodeNilPtr_nil:
  assumes "nk \<noteq> Byte"
  shows "decodes (decodeNilPtr nk dec) (enc_kind nk []) VNil"
proof (intro decodes_kind peeksI)
  show "valid_kind nk []" using assms by (cases nk) (simp_all add: single_byte_def)
next
  fix s
  have "length (enc_kind nk []) = hlen nk []"
    using assms by (cases nk) (simp_all add: hlen_def length_head_bytes)
  with assms show "delivers (decodeNilPtr nk dec (peek nk [] s)) VNil (adv (length (enc_kind nk [])) s)"
    by (auto simp: decodeNilPtr_def Kind_peek hsize_def delivers_def)
qed (simp add: decodeNilPtr_def)

lemma decodeListSlice_decodes:
  assumes "ends dec" and "\<forall>v \<in> set vs. decodes dec (enc v) v \<and> enc v \<noteq> []" and "length vs < fuel"
  shows "decodes (decodeListSlice fuel dec) (enc_kind List (concat (map enc vs))) (VList vs)"
proof (rule decodes_long)
  assume "length (enc_kind List (concat (map enc vs))) < 2 ^ 64"
  then have len: "length (concat (map enc vs)) < 2 ^ 64" by (simp del: length_concat)
  let ?b = "concat (map enc vs)"
  let ?p = "\<lambda>sz s. if sz = (0 :: u64) then Some (Inr [], s) else decodeSliceElems fuel dec s"
  have "decodes_in (?p (len64 ?b)) ?b vs"
  proof (cases "vs = []")
    case True
    then show ?thesis by (auto intro: decodes_in_end)
  next
    case False
    then have "?b \<noteq> []" using assms(2) by (cases vs) auto
    then have "len64 ?b \<noteq> (0 :: u64)"
      using len unat_len64 [of ?b] by (metis length_0_conv unsigned_0)
    then show ?thesis using assms by (simp add: decodeSliceElems_in)
  qed
  from decodes_list [of ?p, OF this] show "decodes (decodeListSlice fuel dec) (enc_kind List ?b) (VList vs)"
    by (rule back_subst [of "\<lambda>g. decodes g _ _"])
      (auto simp: decodeListSlice_def on_ok_def fun_eq_iff split: option.split sum.split prod.split)
qed

lemma decodeInterface_string:
  "decodes (decodeInterface fuel dec) (enc_string c) (VIface (TSlice (TUint 8)) (VBytes c))"
proof -
  let ?h = "\<lambda>b. VIface (TSlice (TUint 8)) (VBytes b)"
  have d: "decodes (\<lambda>s. value_of ?h (Bytes s)) (enc_string c) (?h c)"
    by (intro decodes_value_of Bytes_decodes)
  obtain k where k: "valid_kind k c" "enc_string c = enc_kind k c" "k \<noteq> List"
    by (metis enc_string_def valid_kind.simps(1,2) kind.distinct)
  show ?thesis
    unfolding k(2)
    by (intro decodes_kind peeksI k(1))
      (use k(3) in \<open>auto simp: decodeInterface_def Kind_peek intro!: decodes_peek k(1) d [unfolded k(2)]\<close>)
qed

lemma decodeInterface_list:
  assumes "decodes (decodeListSlice fuel dec) (enc_kind List b) v"
  shows "decodes (decodeInterface fuel dec) (enc_kind List b) (VIface (TSlice TInterface) v)"
  by (intro decodes_kind peeksI)
    (auto simp: decodeInterface_def Kind_peek simp del: enc_kind.simps intro!: delivers_map decodes_peek assms)

subsection \<open>Decoders at the end of a list\<close>

abbreviation enough :: "(nat \<Rightarrow> bool) \<Rightarrow> bool" where
  "enough P \<equiv> eventually P sequentially"

lemma enough_Suc: "enough P \<Longrightarrow> (\<And>fuel. P fuel \<Longrightarrow> Q (Suc fuel)) \<Longrightarrow> enough Q"
  by (subst eventually_sequentially_Suc [symmetric]) (erule eventually_mono)

lemma enough_gt: "enough (\<lambda>fuel. n < fuel)"
  by (rule eventually_gt_at_top)

text \<open>A reader that starts with \<open>Kind\<close> passes the end of the list on.\<close>

lemma endsI:
  assumes "\<And>s. Kind s = (Inl EOL, s\<lparr>kinderr := None\<rparr>) \<Longrightarrow> dec s = Some (Inl EOL, s\<lparr>kinderr := None\<rparr>)"
  shows "ends dec"
  using assms by (auto simp: ends_def Kind_at_end)

lemma ends_decodeVal: "serializable t \<Longrightarrow> enough (\<lambda>fuel. ends (decodeVal fuel t no_tags))"
proof (induction t)
  case (TPtr t)
  then have "enough (\<lambda>fuel. ends (decodeVal fuel t no_tags))" by simp
  then show ?case
    by (rule enough_Suc)
      (fastforce simp: ends_def no_tags_def decodeSimplePtr_def on_ok_def)
next
  case TOther
  then show ?case by simp
qed (rule enough_Suc [of "\<lambda>_. True"], simp,
     rule endsI, simp add: no_tags_def value_of_def Raw_def Bytes_def decodeBigInt_def uint_max_def
       Bool_def decodeByteArray_def decodeListSlice_def decodeListArray_def decodeStruct_def
       decodeInterface_def List_open_def on_ok_def)+

subsection \<open>Every storable value is decoded\<close>

definition tail_slice :: "gotype \<Rightarrow> tags \<Rightarrow> bool" where
  "tail_slice t ts \<longleftrightarrow> tail ts \<and> (case t of TSlice e \<Rightarrow> \<not> isByte e | _ \<Rightarrow> False)"

definition decodes_as :: "gotype \<Rightarrow> tags \<Rightarrow> goval \<Rightarrow> nat \<Rightarrow> bool" where
  "decodes_as t ts v fuel \<longleftrightarrow>
     (if tail_slice t ts then decodes_in (decodeVal fuel t ts) (enc_val t ts v) v
      else decodes (decodeVal fuel t ts) (enc_val t ts v) v)"

definition elems_ok :: "gotype \<Rightarrow> goval list \<Rightarrow> nat \<Rightarrow> bool" where
  "elems_ok t vs fuel \<longleftrightarrow> (\<forall>v \<in> set vs. decodes (decodeVal fuel t no_tags) (enc_val t no_tags v) v)"

lemma tail_no_tags [simp]: "\<not> tail_slice t no_tags" "\<not> tail no_tags" "\<not> nilOK no_tags"
  by (simp_all add: tail_slice_def no_tags_def)

lemma enc_vals_concat: "enc_vals t vs = concat (map (enc_val t no_tags) vs)"
  by (induction vs) auto

lemma slice_decodes:
  assumes "elems_ok e vs fuel" and "ends (decodeVal fuel e no_tags)" and "length vs < fuel"
    and "storables e vs"
  shows "decodes (decodeListSlice fuel (decodeVal fuel e no_tags)) (enc_kind List (enc_vals e vs)) (VList vs)"
    and "decodes_in (\<lambda>s. on_ok (decodeSliceElems fuel (decodeVal fuel e no_tags) s)
      (\<lambda>vs s. Some (Inr (VList vs), s))) (enc_vals e vs) (VList vs)"
proof -
  have st: "storable e no_tags v" if "v \<in> set vs" for v
    using assms(4) that by (induction vs) auto
  have "enc_val e no_tags v \<noteq> []" if "v \<in> set vs" for v
    using storable_item [OF st [OF that]] item_ne by (cases "length (enc_val e no_tags v) < 2 ^ 64") auto
  with assms show "decodes (decodeListSlice fuel (decodeVal fuel e no_tags))
      (enc_kind List (enc_vals e vs)) (VList vs)"
    unfolding enc_vals_concat elems_ok_def by (intro decodeListSlice_decodes) auto
  have "decodes_in (decodeSliceElems fuel (decodeVal fuel e no_tags)) (enc_vals e vs) vs"
    using assms unfolding enc_vals_concat elems_ok_def by (intro decodeSliceElems_in) auto
  then show "decodes_in (\<lambda>s. on_ok (decodeSliceElems fuel (decodeVal fuel e no_tags) s)
      (\<lambda>vs s. Some (Inr (VList vs), s))) (enc_vals e vs) (VList vs)"
    by (auto simp: decodes_in_def intro: delivers_map)
qed

lemma array_decodes:
  assumes "elems_ok e vs fuel"
  shows "decodes (decodeListArray (length vs) (decodeVal fuel e no_tags)) (enc_kind List (enc_vals e vs)) (VList vs)"
proof -
  have "decodes_in (decodeArrayElems (length vs) (decodeVal fuel e no_tags)) (enc_vals e vs) vs"
    using assms unfolding enc_vals_concat elems_ok_def by (intro decodeArrayElems_in) auto
  from decodes_list [of "\<lambda>_. decodeArrayElems (length vs) (decodeVal fuel e no_tags)", OF this]
  show ?thesis by (simp add: decodeListArray_def [abs_def])
qed

lemma struct_decodes:
  assumes "decodes_in (decodeFields dec fs) b vs"
  shows "decodes (decodeStruct dec fs) (enc_kind List b) (VList vs)"
  using decodes_list [of "\<lambda>_. decodeFields dec fs", OF assms] by (simp add: decodeStruct_def [abs_def])

lemma always_Suc: "(\<And>fuel. Q (Suc fuel)) \<Longrightarrow> enough Q"
  by (rule enough_Suc [of "\<lambda>_. True"]) simp_all

lemma bytes_decodes_as:
  assumes "storable t ts (VBytes b)"
  shows "decodes (decodeVal (Suc fuel) t ts) (enc_val t ts (VBytes b)) (VBytes b)"
proof (cases "t = TRawValue")
  case True
  then have "one_item b" using assms by simp
  have "decodes (\<lambda>s. value_of VBytes (Raw s)) b (VBytes b)"
  proof (rule decodes_long)
    assume "length b < 2 ^ 64"
    with \<open>one_item b\<close> have "item b" by (rule one_item_item)
    then obtain k c where "valid_kind k c" "b = enc_kind k c" by (auto simp: item_def)
    then show "decodes (\<lambda>s. value_of VBytes (Raw s)) b (VBytes b)"
      by (auto intro: decodes_value_of Raw_decodes)
  qed
  with True show ?thesis by (simp add: decodes_def)
next
  case False
  have "decodes (\<lambda>s. value_of VBytes (Bytes s)) (enc_string b) (VBytes b)"
    by (intro decodes_value_of Bytes_decodes)
  with False assms decodeByteArray_decodes [of b] show ?thesis
    by (auto simp: decodes_def split: gotype.splits)
qed

lemma decodes_fun: "decodes f b v \<Longrightarrow> (\<And>s. g s = f s) \<Longrightarrow> decodes g b v"
  by (simp add: decodes_def)

lemma scalar_decodes_as:
  shows "storable t ts (VUint i) \<Longrightarrow> decodes (decodeVal (Suc fuel) t ts) (enc_val t ts (VUint i)) (VUint i)"
    and "storable t ts (VBool b) \<Longrightarrow> decodes (decodeVal (Suc fuel) t ts) (enc_val t ts (VBool b)) (VBool b)"
    and "storable t ts (VBig n) \<Longrightarrow> decodes (decodeVal (Suc fuel) t ts) (enc_val t ts (VBig n)) (VBig n)"
    and "storable t ts VNil \<Longrightarrow> decodes (decodeVal (Suc fuel) t ts) (enc_val t ts VNil) VNil"
proof -
  show "decodes (decodeVal (Suc fuel) t ts) (enc_val t ts (VUint i)) (VUint i)"
    if st: "storable t ts (VUint i)"
  proof -
    obtain n where t: "t = TUint n" using st by (cases t) auto
    then have n: "n \<in> {8, 16, 32, 64}" "unat i < 2 ^ n" using st by auto
    show ?thesis
      using decodes_value_of [OF uint_decodes [OF n], where h = VUint]
      by (auto simp: t intro: decodes_fun)
  qed
  show "decodes (decodeVal (Suc fuel) t ts) (enc_val t ts (VBool b)) (VBool b)"
    if "storable t ts (VBool b)"
    using that decodes_value_of [OF Bool_decodes [of b], where h = VBool]
    by (auto intro: decodes_fun simp del: enc_string_Nil single_one)
  show "decodes (decodeVal (Suc fuel) t ts) (enc_val t ts (VBig n)) (VBig n)"
    if "storable t ts (VBig n)"
    using that decodeBigInt_decodes [of n] by (auto intro: decodes_fun)
  show "decodes (decodeVal (Suc fuel) t ts) (enc_val t ts VNil) VNil" if st: "storable t ts VNil"
  proof -
    obtain e where t: "t = TPtr e" and ok: "nilOK ts" "nilKind ts \<noteq> Byte"
      using st by (auto split: gotype.splits)
    then have "enc_val t ts VNil = enc_kind (nilKind ts) []"
      by (cases "nilKind ts") (simp_all add: enc_nil_def ptrNilKind_def)
    with t ok show ?thesis
      by (auto intro!: decodes_fun [OF decodeNilPtr_nil] simp del: enc_val.simps enc_kind.simps)
  qed
qed

lemma enough_Suc_Suc: "enough P \<Longrightarrow> (\<And>fuel. P (Suc fuel) \<Longrightarrow> Q (Suc fuel)) \<Longrightarrow> enough Q"
  by (subst (asm) eventually_sequentially_Suc [symmetric]) (rule enough_Suc)

lemma decodes_storable:
  shows "storable t ts v \<Longrightarrow> serializable t \<Longrightarrow> enough (decodes_as t ts v)"
    and "storables t vs \<Longrightarrow> serializable t \<Longrightarrow> enough (elems_ok t vs)"
    and "storable_fields fs vs \<Longrightarrow> serializable (TStruct fs) \<Longrightarrow>
      enough (\<lambda>fuel. decodes_in (decodeFields (decodeVal fuel) fs) (enc_fields fs vs) vs)"
proof (induction t ts v and t vs and fs vs rule: storable_storables_storable_fields.induct)
  case (1 t ts b)
  then show ?case
    by (intro always_Suc) (auto simp: decodes_as_def tail_slice_def bytes_decodes_as
      simp del: decodeVal.simps enc_val.simps split: gotype.splits)
next
  case (6 t ts v)
  then obtain e where e: "t = TPtr e" "storable e no_tags v"
    "nilOK ts \<Longrightarrow> enc_val e no_tags v \<noteq> [0x80] \<and> enc_val e no_tags v \<noteq> [0xC0]"
    by (auto split: gotype.splits)
  have nilptr: "decodes (decodeNilPtr (nilKind ts) dec) (enc_val e no_tags v) (VPtr v)"
    if "decodes dec (enc_val e no_tags v) v" "nilOK ts" for dec
  proof (rule decodes_long)
    assume "length (enc_val e no_tags v) < 2 ^ 64"
    with e that storable_item [OF e(2)] show "decodes (decodeNilPtr (nilKind ts) dec) (enc_val e no_tags v) (VPtr v)"
      by (intro decodeNilPtr_decodes) auto
  qed
  have ptr: "decodes (decodeVal (Suc fuel) t ts) (enc_val t ts (VPtr v)) (VPtr v)"
    if "decodes_as e no_tags v fuel" for fuel
  proof -
    have "decodeVal (Suc fuel) t ts = (if nilOK ts then decodeNilPtr (nilKind ts) (decodeVal fuel e no_tags)
        else decodeSimplePtr (decodeVal fuel e no_tags))"
      by (simp add: fun_eq_iff e(1))
    with that nilptr decodeSimplePtr_decodes show ?thesis
      by (simp add: decodes_as_def e(1) elem_type_def)
  qed
  have "enough (decodes_as e no_tags v)" "\<not> tail_slice t ts" using 6 e by (simp_all add: tail_slice_def)
  with ptr show ?case
    by (elim enough_Suc) (simp add: decodes_as_def [of t] del: decodeVal.simps enc_val.simps)
next
  case (7 t ts vs)
  consider (slice) e where "t = TSlice e" "\<not> isByte e" "storables e vs"
    | (array) n e where "t = TArray n e" "\<not> isByte e" "length vs = n" "\<not> tail ts" "storables e vs"
    | (struct) fs where "t = TStruct fs" "storable_fields fs vs"
    using 7(4) by (cases t) auto
  then show ?case
  proof cases
    case slice
    then have "enough (elems_ok e vs)" "enough (\<lambda>fuel. ends (decodeVal fuel e no_tags))"
      using 7 by (simp_all add: ends_decodeVal)
    with enough_gt [of "length vs"]
    have "enough (\<lambda>fuel. elems_ok e vs fuel \<and> ends (decodeVal fuel e no_tags) \<and> length vs < fuel)"
      by eventually_elim simp
    then show ?thesis
      by (rule enough_Suc) (use slice slice_decodes [of e vs] in
        \<open>auto simp: decodes_as_def tail_slice_def elem_type_def decodes_in_def decodes_def simp del: enc_kind.simps\<close>)
  next
    case array
    then have "enough (elems_ok e vs)" using 7 by simp
    then show ?thesis
      by (rule enough_Suc) (use array array_decodes [of e vs] in
        \<open>auto simp: decodes_as_def tail_slice_def elem_type_def decodes_def simp del: enc_kind.simps\<close>)
  next
    case struct
    then have "enough (\<lambda>fuel. decodes_in (decodeFields (decodeVal fuel) fs) (enc_fields fs vs) vs)"
      using 7 by simp
    then show ?thesis
      by (rule enough_Suc) (use struct struct_decodes in
        \<open>auto simp: decodes_as_def tail_slice_def decodes_def simp del: enc_kind.simps\<close>)
  qed
next
  case (8 t ts dt v)
  then have t: "t = TInterface" by simp
  consider (bytes) b where "v = VBytes b" "dt = TSlice (TUint 8)"
    | (list) vs where "v = VList vs" "dt = TSlice TInterface"
    using 8(2) by (cases v) auto
  then show ?case
  proof cases
    case bytes
    then show ?thesis
      using t decodeInterface_string
      by (intro always_Suc) (auto simp: decodes_as_def tail_slice_def decodes_def)
  next
    case list
    then have "enough (decodes_as dt no_tags v)" using 8 by simp
    then show ?thesis
    proof (rule enough_Suc_Suc)
      fix fuel assume "decodes_as dt no_tags v (Suc fuel)"
      then have "decodes (decodeListSlice fuel (decodeVal fuel TInterface no_tags))
          (enc_kind List (enc_vals TInterface vs)) v"
        using list by (simp add: decodes_as_def isByte_def elem_type_def decodes_def del: enc_kind.simps)
      from decodeInterface_list [OF this] show "decodes_as t ts (VIface dt v) (Suc fuel)"
        using list t by (simp add: decodes_as_def tail_slice_def elem_type_def decodes_def del: enc_kind.simps)
    qed
  qed
next
  case (10 t v vs)
  then have "enough (decodes_as t no_tags v)" "enough (elems_ok t vs)" by simp_all
  then show ?case by eventually_elim (simp add: elems_ok_def decodes_as_def)
next
  case (14 t ts fs v vs)
  have rest: "enough (\<lambda>fuel. decodes_in (decodeFields (decodeVal fuel) fs) (enc_fields fs vs) vs)"
    using 14 by simp
  show ?case
  proof (cases "ignored ts")
    case True
    with 14(3) have "v = zero_val t" by simp
    with True decodeFields_ignored show ?thesis
      by (intro eventually_mono [OF rest]) (simp del: decodeFields.simps)
  next
    case False
    then have v: "enough (decodes_as t ts v)" using 14 by simp
    show ?thesis
    proof (cases "tail_slice t ts")
      case True
      then have "fs = [] \<and> vs = []"
        using False 14(3) by (cases vs) (auto simp: tail_slice_def)
      with True False show ?thesis
        by (intro eventually_mono [OF v]) (simp add: decodes_as_def decodeFields_last del: decodeFields.simps)
    next
      case nt: False
      from v rest show ?thesis
        by eventually_elim (use False nt decodeFields_Cons in \<open>simp add: decodes_as_def del: decodeFields.simps\<close>)
    qed
  qed
qed (auto simp: elems_ok_def decodeFields_Nil decodes_as_def tail_slice_def scalar_decodes_as
    simp del: decodeVal.simps enc_val.simps intro!: always_Suc split: gotype.splits)

subsection \<open>Round trips\<close>

lemma starts_Reset:
  assumes "length (b @ r) < 2 ^ 64"
  shows "starts (Reset (b @ r) (len64 (b @ r))) b"
  using assms unat_len64 [of "b @ r"]
  by (auto simp: starts_def Reset_def room_def top_ok_def top_room_def unat_u64_of_nat
      simp del: of_nat_add)

lemma DecodeBytes_storable:
  assumes "storable t no_tags v" and "serializable t"
    and len: "length (enc_val t no_tags v @ r) < 2 ^ 64"
  shows "\<exists>f. \<forall>fuel \<ge> f. DecodeBytes fuel (enc_val t no_tags v @ r) t =
    Some (if r = [] then Inr v else Inl ErrMoreThanOneValue)"
proof -
  let ?b = "enc_val t no_tags v"
  let ?s = "Reset (?b @ r) (len64 (?b @ r))"
  have st: "starts ?s ?b" by (rule starts_Reset [OF len])
  have r: "drop (length ?b) (st_r ?s) = r" by (simp add: Reset_def)
  have "DecodeBytes fuel (?b @ r) t = Some (if r = [] then Inr v else Inl ErrMoreThanOneValue)"
    if d: "decodes_as t no_tags v fuel" for fuel
  proof -
    obtain s where s: "decodeVal fuel t no_tags ?s = Some (Inr v, s)"
      "clean s = clean (adv (length ?b) ?s)"
      using d st by (auto simp: decodes_as_def decodes_def delivers_def)
    then have "st_r s = r" using clean_eqD(1) [OF s(2)] r by simp
    with s(1) assms(2) show ?thesis by (simp add: DecodeBytes_def Stream_Decode_def)
  qed
  with decodes_storable(1) [OF assms(1,2)] show ?thesis
    unfolding eventually_sequentially by meson
qed

text \<open>
  C3: Decoding what \<open>EncodeToBytes\<close> returns gives the value back: for every storable value of a
  serializable type, encoding succeeds and, with enough fuel, \<open>DecodeBytes\<close> on the result
  returns exactly the value.
\<close>

theorem DecodeBytes_EncodeToBytes:
  assumes "storable t no_tags v" and "serializable t" and "length (enc_val t no_tags v) < 2 ^ 64"
  shows "\<exists>b f. EncodeToBytes t v = Some (Inr b) \<and> (\<forall>fuel \<ge> f. DecodeBytes fuel b t = Some (Inr v))"
proof -
  obtain f where "\<forall>fuel \<ge> f. DecodeBytes fuel (enc_val t no_tags v) t = Some (Inr v)"
    using DecodeBytes_storable [OF assms(1,2), of "[]"] assms(3) by auto
  moreover have "EncodeToBytes t v = Some (Inr (enc_val t no_tags v))"
    using encode_emits [OF assms(2) storable_typed(1) [OF assms(1)] assms(3)] toBytes_emits
    by (auto simp: EncodeToBytes_def)
  ultimately show ?thesis by blast
qed

definition trip_type :: gotype where
  "trip_type = TStruct [(TUint 64, no_tags), (TPtr (TStruct [(TString, no_tags)]),
     \<lparr>nilOK = True, nilKind = List, tail = False, ignored = False\<rparr>),
     (TSlice TBigPtr, \<lparr>nilOK = False, nilKind = Byte, tail = True, ignored = False\<rparr>)]"

definition trip_value :: goval where
  "trip_value = VList [VUint 1024, VNil, VList [VBig 127, VBig 256]]"

lemma trip_facts:
  "storable trip_type no_tags trip_value" "serializable trip_type"
  "enc_val trip_type no_tags trip_value = [0xC8, 0x82, 0x04, 0x00, 0xC0, 0x7F, 0x82, 0x01, 0x00]"
  subgoal
    using unsigned_less [of "1024 :: u64"]
    by (simp add: trip_type_def trip_value_def no_tags_def isByte_def)
  by code_simp+

theorem DecodeBytes_EncodeToBytes_witness:
  "\<exists>b f. EncodeToBytes trip_type trip_value = Some (Inr b) \<and>
    (\<forall>fuel \<ge> f. DecodeBytes fuel b trip_type = Some (Inr trip_value))"
  using DecodeBytes_EncodeToBytes [OF trip_facts(1,2)] by (simp add: trip_facts(3))

text \<open>
  C20: \<open>DecodeBytes\<close> insists on a single value: an encoding followed by anything is refused with
  \<open>ErrMoreThanOneValue\<close>.
\<close>

theorem DecodeBytes_trailing:
  assumes "storable t no_tags v" and "serializable t"
    and "length (enc_val t no_tags v @ r) < 2 ^ 64" and "r \<noteq> []"
  shows "\<exists>f. \<forall>fuel \<ge> f. DecodeBytes fuel (enc_val t no_tags v @ r) t = Some (Inl ErrMoreThanOneValue)"
  using DecodeBytes_storable [OF assms(1-3)] assms(4) by simp

theorem DecodeBytes_trailing_witness:
  "\<exists>f. \<forall>fuel \<ge> f. DecodeBytes fuel [0xC8, 0x82, 0x04, 0x00, 0xC0, 0x7F, 0x82, 0x01, 0x00, 0x05] trip_type =
    Some (Inl ErrMoreThanOneValue)"
  using DecodeBytes_trailing [OF trip_facts(1,2), of "[5]"] by (simp add: trip_facts(3))

subsection \<open>One-byte arrays that hold zero\<close>

text \<open>
  \<open>decodeByteArray\<close> takes a single byte with \<open>s.Uint()\<close> and drops the error.  For the byte 0
  that error is \<open>ErrCanonInt\<close>, and \<open>Uint\<close> returns it without clearing the remembered kind, so
  the stream stays where it is.
\<close>

lemma decodeByteArray_zero:
  assumes "Kind s = (Inr (Byte, sz), s)" and "byteval s = 0"
  shows "decodeByteArray 1 s = (Inr (VBytes [0]), s)"
  using assms by (simp add: decodeByteArray_def Uint_def uint_max_def)

lemma decodeSliceElems_stuck:
  "dec s = None \<or> dec s = Some (Inr v, s) \<Longrightarrow> decodeSliceElems fuel dec s = None"
  by (induction fuel) (auto simp: on_ok_def)

lemma peeked_zero:
  assumes "starts s [0]"
  shows "Kind s = (Inr (Byte, 0), peek Byte [0] s)"
    and "Kind (peek Byte [0] s) = (Inr (Byte, 0), peek Byte [0] s)"
  using starts_Kind [of Byte "[0]" s] assms Kind_peek [of Byte "[0]" s]
  by (simp_all add: single_byte_def hsize_def)

lemma decodeByteArray_starts_zero:
  assumes "starts s [0]"
  shows "decodeByteArray 1 s = (Inr (VBytes [0]), peek Byte [0] s)"
    and "decodeByteArray 1 (peek Byte [0] s) = (Inr (VBytes [0]), peek Byte [0] s)"
proof -
  show z: "decodeByteArray 1 (peek Byte [0] s) = (Inr (VBytes [0]), peek Byte [0] s)"
    using peeked_zero(2) [OF assms] by (rule decodeByteArray_zero) simp
  then show "decodeByteArray 1 s = (Inr (VBytes [0]), peek Byte [0] s)"
    using peeked_zero [OF assms] by (simp add: decodeByteArray_def)
qed

text \<open>The stream inside the list \<open>C1 00\<close>.\<close>

definition in_list_zero :: "bytes \<Rightarrow> Stream" where
  "in_list_zero r =
     \<lparr>st_r = 0 # r, remaining = 1 + len64 r, limited = True, st_kind = None, st_size = 0, byteval = 0,
      kinderr = None, stack = [\<lparr>lp_pos = 0, lp_size = 1 + len64 r\<rparr>]\<rparr>"

lemma List_open_C1:
  "List_open (Reset [0xC1, 0] 2) = (Inr 1, in_list_zero [])"
  "List_open (Reset [0xC2, 0, 5] 3) = (Inr 2, in_list_zero [5])"
  by code_simp+

lemma starts_in_list_zero: "length r < 255 \<Longrightarrow> starts (in_list_zero r) [0]"
proof -
  assume r: "length r < 255"
  then have "unat (1 + len64 r :: u64) = 1 + length r"
    using unat_u64_of_nat [of "1 + length r"] by simp
  then show ?thesis by (simp add: starts_def in_list_zero_def room_def top_ok_def top_room_def)
qed

text \<open>
  C21: The encoding of the one-element slice \<open>[][1]byte{{0}}\<close> is the two bytes \<open>C1 00\<close>, and
  decoding these two bytes into that type never returns: whatever the fuel, the loop over the
  elements has not ended, because the element decoder succeeds again and again without moving.
\<close>

theorem decode_zero_byte_array_diverges:
  "EncodeToBytes (TSlice (TArray 1 (TUint 8))) (VList [VBytes [0]]) = Some (Inr [0xC1, 0x00]) \<and>
   (\<forall>fuel. DecodeBytes fuel [0xC1, 0x00] (TSlice (TArray 1 (TUint 8))) = None)"
proof (intro conjI allI)
  show "EncodeToBytes (TSlice (TArray 1 (TUint 8))) (VList [VBytes [0]]) = Some (Inr [0xC1, 0x00])"
    by code_simp
next
  fix fuel
  let ?s = "in_list_zero []" and ?e = "TArray 1 (TUint 8)"
  let ?z = "peek Byte [0] ?s"
  have z: "decodeVal f ?e no_tags ?z = None \<or> decodeVal f ?e no_tags ?z = Some (Inr (VBytes [0]), ?z)"
    and s: "decodeVal f ?e no_tags ?s = None \<or> decodeVal f ?e no_tags ?s = Some (Inr (VBytes [0]), ?z)" for f
    using decodeByteArray_starts_zero [OF starts_in_list_zero [of "[]"]]
    by (cases f; simp add: isByte_def)+
  have stuck: "decodeSliceElems n (decodeVal f ?e no_tags) ?s = None" for n f
    using s [of f] decodeSliceElems_stuck [of "decodeVal f ?e no_tags" ?z, OF z [of f]]
    by (cases n) (auto simp: on_ok_def split: option.splits)
  show "DecodeBytes fuel [0xC1, 0x00] (TSlice ?e) = None"
    by (cases fuel) (simp_all add: DecodeBytes_def Stream_Decode_def isByte_def decodeListSlice_def
        List_open_C1 on_ok_def stuck del: One_nat_def)
qed


end
