(* ===== verification/Trie_Encoding.thy ===== *)
theory Trie_Encoding
  imports Prelude
begin

text \<open>
  \<open>trie/encoding.go\<close>: the three forms of a trie key.  KEYBYTES is the key itself, HEX has one
  nibble per byte and may end in the terminator 16, COMPACT is the form stored in a node, with
  the parity and the terminator in the first nibble.
\<close>

subsection \<open>The conversions\<close>

definition hasTerm :: "bytes \<Rightarrow> bool" where
  "hasTerm s \<longleftrightarrow> 0 < length s \<and> s ! (length s - 1) = 16"

text \<open>
  \<open>decodeNibbles\<close> into an array of half the length.  Both callers pass an even number of
  nibbles; on an odd number Go would index past the end.
\<close>

fun decodeNibbles :: "bytes \<Rightarrow> bytes" where
  "decodeNibbles (x # y # nibbles) = (push_bit 4 x OR y) # decodeNibbles nibbles"
| "decodeNibbles _ = []"

definition hexToCompact :: "bytes \<Rightarrow> bytes" where
  "hexToCompact hex =
     (let terminator = (if hasTerm hex then 1 else 0) :: byte;
          hex = (if hasTerm hex then take (length hex - 1) hex else hex);
          b0 = push_bit 5 terminator
      in if length hex mod 2 = 1
         then ((b0 OR push_bit 4 1) OR hd hex) # decodeNibbles (tl hex)
         else b0 # decodeNibbles hex)"

text \<open>The loop of \<open>hexToCompactInPlace\<close> overwrites the array it reads.\<close>

function compact_loop :: "nat \<Rightarrow> nat \<Rightarrow> nat \<Rightarrow> bytes \<Rightarrow> bytes" where
  "compact_loop hexLen bi ni hex =
     (if ni < hexLen
      then compact_loop hexLen (bi + 1) (ni + 2) (hex[bi := push_bit 4 (hex ! ni) OR hex ! (ni + 1)])
      else hex)"
  by pat_completeness auto
termination by (relation "measure (\<lambda>(hexLen, bi, ni, hex). hexLen - ni)") auto

text \<open>The updated array and the length of the result; \<open>None\<close> is the panic of \<open>hex[0]\<close> on an
  empty slice.\<close>

definition hexToCompactInPlace :: "bytes \<Rightarrow> (bytes \<times> nat) option" where
  "hexToCompactInPlace hex =
     (let tm = 0 < length hex \<and> hex ! (length hex - 1) = 16;
          hexLen = (if tm then length hex - 1 else length hex);
          firstByte = (if tm then push_bit 5 1 else 0) :: byte;
          binLen = hexLen div 2 + 1
      in if hex = [] then None
         else if hexLen mod 2 = 1
         then Some ((compact_loop hexLen 1 1 hex)[0 := (firstByte OR push_bit 4 1) OR hex ! 0], binLen)
         else Some ((compact_loop hexLen 1 0 hex)[0 := firstByte], binLen))"

definition keybytesToHex :: "bytes \<Rightarrow> bytes" where
  "keybytesToHex str = concat (map (\<lambda>b. [b div 16, b mod 16]) str) @ [16]"

definition compactToHex :: "bytes \<Rightarrow> bytes" where
  "compactToHex compact =
     (if length compact = 0 then compact
      else
        let base = keybytesToHex compact;
            base = (if base ! 0 < 2 then take (length base - 1) base else base);
            chop = 2 - ((base ! 0) AND 1)
        in drop (unat chop) base)"

definition hexToKeybytes :: "bytes \<Rightarrow> bytes option" where
  "hexToKeybytes hex =
     (let hex = (if hasTerm hex then take (length hex - 1) hex else hex)
      in if length hex mod 2 \<noteq> 0 then None else Some (decodeNibbles hex))"

fun prefixLen :: "bytes \<Rightarrow> bytes \<Rightarrow> nat" where
  "prefixLen (a # as) (b # bs) = (if a \<noteq> b then 0 else 1 + prefixLen as bs)"
| "prefixLen _ _ = 0"

subsection \<open>Nibbles\<close>

definition nibble :: "byte \<Rightarrow> bool" where
  "nibble x \<longleftrightarrow> x < 16"

definition nibbles :: "bytes \<Rightarrow> bool" where
  "nibbles xs \<longleftrightarrow> list_all nibble xs"

text \<open>A key in HEX form: nibbles, perhaps with the terminator at the end.\<close>

definition hex_key :: "bytes \<Rightarrow> bool" where
  "hex_key k \<longleftrightarrow> nibbles (if hasTerm k then butlast k else k)"

lemma byte_div_mod: "(b :: byte) div 16 = drop_bit 4 b" "b mod 16 = take_bit 4 b"
  by (simp_all add: drop_bit_eq_div take_bit_eq_mod)

lemma join_split: "push_bit 4 ((b :: byte) div 16) OR (b mod 16) = b"
  unfolding byte_div_mod by (rule bit_word_eqI) (auto simp: bit_simps)

lemma nibble_take: "nibble x \<Longrightarrow> take_bit 4 x = x"
  by (simp add: nibble_def take_bit_eq_mod word_unat_eq_iff unat_mod word_less_nat_alt)

lemma nibble_bit: "nibble x \<Longrightarrow> bit x n \<Longrightarrow> n < 4"
  by (metis bit_take_bit_iff nibble_take)

lemma split_join:
  assumes "nibble x" and "nibble y"
  shows "(push_bit 4 x OR y) div 16 = x" "(push_bit 4 x OR y) mod 16 = y"
  unfolding byte_div_mod using assms
  by (auto intro!: bit_word_eqI simp: bit_simps dest: nibble_bit)

lemma nibble_div_mod: "nibble (b div 16)" "nibble (b mod 16)"
proof -
  have "unat b div 16 < 16" "unat b mod 16 < 16" using unat_byte_less [of b] by (simp_all add: less_mult_imp_div_less)
  then show "nibble (b div 16)" "nibble (b mod 16)"
    by (simp_all add: nibble_def word_less_nat_alt unat_div unat_mod)
qed

text \<open>The nibbles of a byte string, without the terminator.\<close>

definition to_nibbles :: "bytes \<Rightarrow> bytes" where
  "to_nibbles bs = concat (map (\<lambda>b. [b div 16, b mod 16]) bs)"

lemma to_nibbles_simps [simp]:
  "to_nibbles [] = []" "to_nibbles (b # bs) = b div 16 # b mod 16 # to_nibbles bs"
  by (simp_all add: to_nibbles_def)

lemma nibbles_simps [simp]:
  "nibbles []" "nibbles (x # xs) \<longleftrightarrow> nibble x \<and> nibbles xs" "nibbles (xs @ ys) \<longleftrightarrow> nibbles xs \<and> nibbles ys"
  by (auto simp: nibbles_def)

lemma nibbles_to_nibbles [simp]: "nibbles (to_nibbles bs)"
  by (induction bs) (simp_all add: nibble_div_mod)

lemma length_to_nibbles [simp]: "length (to_nibbles bs) = 2 * length bs"
  by (induction bs) simp_all

lemma decode_to_nibbles [simp]: "decodeNibbles (to_nibbles bs) = bs"
  by (induction bs) (simp_all add: join_split)

lemma to_nibbles_decode: "nibbles xs \<Longrightarrow> even (length xs) \<Longrightarrow> to_nibbles (decodeNibbles xs) = xs"
  by (induction xs rule: decodeNibbles.induct) (auto simp: split_join)

lemma length_decodeNibbles: "length (decodeNibbles xs) = length xs div 2"
  by (induction xs rule: decodeNibbles.induct) auto

lemma keybytesToHex_nibbles: "keybytesToHex bs = to_nibbles bs @ [16]"
  by (simp add: keybytesToHex_def to_nibbles_def)

lemma hasTerm_snoc: "hasTerm (xs @ [x]) \<longleftrightarrow> x = 16"
  by (simp add: hasTerm_def)

lemma nibbles_noterm: "nibbles xs \<Longrightarrow> \<not> hasTerm xs"
  by (cases xs rule: rev_cases) (auto simp: hasTerm_def nibble_def)

lemma hex_key_cases:
  assumes "hex_key k"
  obtains xs where "k = xs @ [16]" "nibbles xs" | "nibbles k" "\<not> hasTerm k"
  using assms by (cases k rule: rev_cases) (auto simp: hex_key_def hasTerm_def split: if_splits)

subsection \<open>Round trips\<close>

text \<open>The first byte of the compact form.\<close>

lemma flag_byte:
  fixes t :: byte
  assumes "t \<in> {0, 1}" and "nibble x"
  shows "((push_bit 5 t OR push_bit 4 1) OR x) div 16 = 2 * t + 1"
    "((push_bit 5 t OR push_bit 4 1) OR x) mod 16 = x"
proof -
  have "push_bit 5 t OR push_bit 4 1 = push_bit 4 (2 * t + 1)" "nibble (2 * t + 1)"
    using assms(1) by (auto simp: nibble_def)
  with assms(2) show "((push_bit 5 t OR push_bit 4 1) OR x) div 16 = 2 * t + 1"
    "((push_bit 5 t OR push_bit 4 1) OR x) mod 16 = x" by (simp_all add: split_join)
qed

lemma compactToHex_Cons:
  "compactToHex (b # bs) =
     (let base = b div 16 # b mod 16 # to_nibbles bs @ (if b div 16 < 2 then [] else [16])
      in drop (unat (2 - ((b div 16) AND 1) :: byte)) base)"
  by (simp add: compactToHex_def keybytesToHex_nibbles Let_def)

lemma compactToHex_hexToCompact_aux:
  assumes "nibbles xs" and t: "t \<in> {0, 1 :: byte}"
  shows "compactToHex (if length xs mod 2 = 1
      then ((push_bit 5 t OR push_bit 4 1) OR hd xs) # decodeNibbles (tl xs)
      else push_bit 5 t # decodeNibbles xs) = xs @ (if t = 1 then [16] else [])"
proof (cases "length xs mod 2 = 1")
  case True
  then obtain y ys where xs: "xs = y # ys" by (cases xs) auto
  moreover have "odd (length xs)" using True by presburger
  ultimately have "to_nibbles (decodeNibbles ys) = ys" using assms(1) by (intro to_nibbles_decode) auto
  with True t assms(1) xs flag_byte [of 0 y] flag_byte [of 1 y] show ?thesis
    by (auto simp: compactToHex_Cons)
next
  case False
  then have "even (length xs)" by presburger
  then have "to_nibbles (decodeNibbles xs) = xs" using assms(1) by (intro to_nibbles_decode)
  with False t show ?thesis by (auto simp: compactToHex_Cons)
qed

lemma compact_roundtrip:
  assumes "hex_key k"
  shows "compactToHex (hexToCompact k) = k"
  using assms
proof (cases rule: hex_key_cases)
  case (1 xs)
  then show ?thesis
    using compactToHex_hexToCompact_aux [of xs 1]
    by (simp add: hexToCompact_def hasTerm_snoc Let_def cong: if_cong)
next
  case 2
  then show ?thesis
    using compactToHex_hexToCompact_aux [of k 0] by (simp add: hexToCompact_def Let_def cong: if_cong)
qed

text \<open>
  C27: The compact form of a key in HEX form, of either parity and with or without the terminator,
  is converted back to the same key.
\<close>

theorem compactToHex_hexToCompact:
  assumes "hex_key k"
  shows "compactToHex (hexToCompact k) = k"
  using assms by (rule compact_roundtrip)

theorem compactToHex_hexToCompact_witness:
  "hexToCompact [1, 2, 3, 4, 5, 16] = [0x31, 0x23, 0x45] \<and>
   compactToHex [0x31, 0x23, 0x45] = [1, 2, 3, 4, 5, 16]"
proof -
  have c: "hexToCompact [1, 2, 3, 4, 5, 16] = [0x31, 0x23, 0x45]" by code_simp
  have "hex_key [1, 2, 3, 4, 5, 16]" by code_simp
  from compactToHex_hexToCompact [OF this] c show ?thesis by simp
qed

text \<open>
  C28: A key in KEYBYTES form survives the conversion to HEX and back, and the HEX form is always a
  terminated key.
\<close>

theorem hexToKeybytes_keybytesToHex:
  "hexToKeybytes (keybytesToHex key) = Some key \<and> hasTerm (keybytesToHex key) \<and>
   hex_key (keybytesToHex key)"
  by (simp add: hexToKeybytes_def keybytesToHex_nibbles hasTerm_snoc hex_key_def)

subsection \<open>The conversion in place\<close>

lemma length_compact_loop [simp]: "length (compact_loop hexLen bi ni hex) = length hex"
  by (induction hexLen bi ni hex rule: compact_loop.induct) (subst compact_loop.simps, simp)

declare compact_loop.simps [simp del]

lemma compact_loop_decode:
  assumes "bi \<le> ni + 1" and "hexLen \<le> length hex" and "even (hexLen - ni)" and "ni \<le> hexLen"
  shows "take (bi + (hexLen - ni) div 2) (compact_loop hexLen bi ni hex) =
    take bi hex @ decodeNibbles (take (hexLen - ni) (drop ni hex))"
  using assms
proof (induction hexLen bi ni hex rule: compact_loop.induct)
  case (1 hexLen bi ni hex)
  show ?case
  proof (cases "ni < hexLen")
    case True
    have n: "2 \<le> hexLen - ni" using "1.prems"(3) True by presburger
    then obtain m where m: "hexLen - ni = m + 2" "hexLen - (ni + 2) = m"
      by (metis le_add_diff_inverse2 diff_diff_left)
    let ?v = "push_bit 4 (hex ! ni) OR hex ! (ni + 1)"
    have d: "drop ni hex = hex ! ni # hex ! (ni + 1) # drop (ni + 2) hex"
      using "1.prems"(2) n by (simp add: Cons_nth_drop_Suc)
    have "take (bi + 1 + m div 2) (compact_loop hexLen (bi + 1) (ni + 2) (hex[bi := ?v])) =
        take (bi + 1) (hex[bi := ?v]) @ decodeNibbles (take m (drop (ni + 2) (hex[bi := ?v])))"
    proof -
      have "bi + 1 \<le> ni + 2 + 1" "hexLen \<le> length (hex[bi := ?v])" "even (hexLen - (ni + 2))" "ni + 2 \<le> hexLen"
        using "1.prems" m n by simp_all
      from "1.IH" [OF True this] show ?thesis by (simp only: m(2))
    qed
    moreover have "take (bi + 1) (hex[bi := ?v]) = take bi hex @ [?v]"
      using "1.prems"(1,2) n by (simp add: take_Suc_conv_app_nth)
    moreover have "drop (ni + 2) (hex[bi := ?v]) = drop (ni + 2) hex"
      using "1.prems"(1) by simp
    ultimately show ?thesis
      using True by (subst compact_loop.simps) (simp add: m d)
  next
    case False
    then show ?thesis using "1.prems" by (subst compact_loop.simps) simp
  qed
qed

text \<open>
  C29: \<open>hexToCompactInPlace\<close>, which overwrites the slice it reads, leaves the same bytes at its
  front as \<open>hexToCompact\<close> returns, and returns their number; only the empty slice makes it
  panic.
\<close>

theorem hexToCompactInPlace_hexToCompact:
  "(case hexToCompactInPlace hex of
     None \<Rightarrow> hex = []
   | Some (buf, n) \<Rightarrow> take n buf = hexToCompact hex \<and> n = length (hexToCompact hex) \<and>
       length buf = length hex)"
proof (cases "hex = []")
  case False
  define l where "l = (if hasTerm hex then length hex - 1 else length hex)"
  define t :: byte where "t = (if hasTerm hex then 1 else 0)"
  have tm: "(0 < length hex \<and> hex ! (length hex - 1) = 16) = hasTerm hex"
    by (simp add: hasTerm_def)
  have l: "l \<le> length hex" by (simp add: l_def)
  have compact: "hexToCompact hex =
      (if l mod 2 = 1 then ((push_bit 5 t OR push_bit 4 1) OR hd (take l hex)) # decodeNibbles (tl (take l hex))
       else push_bit 5 t # decodeNibbles (take l hex))"
    by (simp add: hexToCompact_def l_def t_def Let_def cong: if_cong)
  have inplace: "hexToCompactInPlace hex =
      (if l mod 2 = 1
       then Some ((compact_loop l 1 1 hex)[0 := (push_bit 5 t OR push_bit 4 1) OR hex ! 0], l div 2 + 1)
       else Some ((compact_loop l 1 0 hex)[0 := push_bit 5 t], l div 2 + 1))"
    unfolding hexToCompactInPlace_def tm using False by (simp add: l_def t_def Let_def cong: if_cong)
  have 1: "take 1 hex = [hex ! 0]" using False by (cases hex) auto
  have upd: "take (1 + n) (xs[0 := b]) = b # drop 1 (take (1 + n) xs)" if "xs \<noteq> []" for n b and xs :: bytes
    using that by (cases xs) auto
  have ne: "compact_loop l i j hex \<noteq> []" for i j using False by (metis length_compact_loop length_0_conv)
  show ?thesis
  proof (cases "l mod 2 = 1")
    case True
    then have odd: "l div 2 = (l - 1) div 2" "even (l - 1)" "1 \<le> l" by presburger+
    have "take (1 + l div 2) (compact_loop l 1 1 hex) = hex ! 0 # decodeNibbles (take (l - 1) (drop 1 hex))"
      using compact_loop_decode [of 1 1 l hex] odd l 1 by simp
    moreover have "hd (take l hex) = hex ! 0" "tl (take l hex) = take (l - 1) (drop 1 hex)"
      using False odd(3) by (simp_all add: hd_conv_nth tl_take drop_Suc)
    moreover have "length (take (l - 1) (drop 1 hex)) = l - 1" using l by simp
    ultimately show ?thesis
      using True upd [OF ne [of 1 1], of "l div 2"] odd(1)
      by (simp add: inplace compact length_decodeNibbles)
  next
    case False
    then have "even (l - 0)" by presburger
    then have "take (1 + l div 2) (compact_loop l 1 0 hex) = hex ! 0 # decodeNibbles (take l hex)"
      using compact_loop_decode [of 1 0 l hex] l 1 by simp
    moreover have "length (take l hex) = l" using l by simp
    ultimately show ?thesis
      using False upd [OF ne [of 1 0], of "l div 2"]
      by (simp add: inplace compact length_decodeNibbles)
  qed
qed (simp add: hexToCompactInPlace_def)

end
