(* ===== verification/Trie_Tree.thy ===== *)
theory Trie_Tree
  imports Trie_Encoding "HOL-Library.Sublist"
begin

text \<open>
  The Merkle Patricia trie as a mathematical object: trees in which every node is present, with
  lookup, insertion and deletion, the well-formedness that makes a tree the canonical
  representation of a map, and the laws of a map.  The operations of \<open>trie/trie.go\<close>, which
  work on partially loaded nodes, are proved to implement these.
\<close>

subsection \<open>Trees and keys\<close>

datatype ptree = E | V bytes | S bytes ptree | F "ptree list"

text \<open>A terminated key: nibbles and then the terminator.\<close>

definition tkey :: "bytes \<Rightarrow> bool" where
  "tkey k \<longleftrightarrow> k \<noteq> [] \<and> last k = 16 \<and> nibbles (butlast k)"

fun value_or_nil :: "ptree \<Rightarrow> bool" where
  "value_or_nil E = True"
| "value_or_nil (V v) = (v \<noteq> [])"
| "value_or_nil _ = False"

text \<open>
  Well-formed trees, for the places where terminated keys arrive: a short node ends either in a
  value, and then its key is terminated, or in a branch; a branch has at least two children.
\<close>

lemma size_take [termination_simp]: "x \<in> set (take n ts) \<Longrightarrow> size x < Suc (size_list size ts)"
  by (meson in_set_takeD le_imp_less_Suc order_refl size_list_estimation')

lemma size_nth [termination_simp]: "i < length ts \<Longrightarrow> size (ts ! i) < Suc (size_list size ts)"
  by (meson nth_mem le_imp_less_Suc order_refl size_list_estimation')

fun canon :: "ptree \<Rightarrow> bool" where
  "canon E = True"
| "canon (V v) = False"
| "canon (S k t) =
     (case t of V v \<Rightarrow> tkey k \<and> v \<noteq> [] | F ts \<Rightarrow> k \<noteq> [] \<and> nibbles k \<and> canon (F ts) | _ \<Rightarrow> False)"
| "canon (F ts) =
     (length ts = 17 \<and> list_all canon (take 16 ts) \<and> value_or_nil (ts ! 16) \<and>
      2 \<le> length (filter (\<lambda>t. t \<noteq> E) ts))"

fun get :: "ptree \<Rightarrow> bytes \<Rightarrow> bytes option" where
  "get E k = None"
| "get (V v) k = Some v"
| "get (S nk t) k = (if prefix nk k then get t (drop (length nk) k) else None)"
| "get (F ts) [] = None"
| "get (F ts) (x # k) = (if unat x < length ts then get (ts ! unat x) k else None)"

definition mk_short :: "bytes \<Rightarrow> ptree \<Rightarrow> ptree" where
  "mk_short k t = (if k = [] then t else S k t)"

fun ins :: "ptree \<Rightarrow> bytes \<Rightarrow> bytes \<Rightarrow> ptree" where
  "ins E k v = mk_short k (V v)"
| "ins (V u) k v = V v"
| "ins (S nk t) k v =
     (let m = prefixLen k nk in
      if m = length nk then S nk (ins t (drop m k) v)
      else mk_short (take m k)
        (F ((replicate 17 E)[unat (nk ! m) := mk_short (drop (m + 1) nk) t,
                             unat (k ! m) := mk_short (drop (m + 1) k) (V v)])))"
| "ins (F ts) [] v = F ts"
| "ins (F ts) (x # k) v =
     (if unat x < length ts then F (ts[unat x := ins (ts ! unat x) k v]) else F ts)"

definition join :: "bytes \<Rightarrow> ptree \<Rightarrow> ptree" where
  "join k t = (case t of S k' t' \<Rightarrow> S (k @ k') t' | _ \<Rightarrow> S k t)"

definition occupied :: "ptree list \<Rightarrow> nat list" where
  "occupied ts = filter (\<lambda>i. ts ! i \<noteq> E) [0..<length ts]"

text \<open>A branch that is left with one child becomes a short node.\<close>

definition shrink :: "ptree list \<Rightarrow> ptree" where
  "shrink ts =
     (case occupied ts of
       [pos] \<Rightarrow> join [word_of_nat pos] (ts ! pos)
     | _ \<Rightarrow> F ts)"

fun del :: "ptree \<Rightarrow> bytes \<Rightarrow> ptree" where
  "del E k = E"
| "del (V u) k = E"
| "del (S nk t) k =
     (let m = prefixLen k nk in
      if m < length nk then S nk t else if m = length k then E else join nk (del t (drop m k)))"
| "del (F ts) [] = F ts"
| "del (F ts) (x # k) =
     (if unat x < length ts then shrink (ts[unat x := del (ts ! unat x) k]) else F ts)"

subsection \<open>Keys\<close>

lemma tkey_Nil [simp]: "\<not> tkey []"
  by (simp add: tkey_def)

lemma tkey_Cons: "tkey (x # k) \<longleftrightarrow> (if k = [] then x = 16 else nibble x \<and> tkey k)"
  by (auto simp: tkey_def)

lemma tkey_append: "k \<noteq> [] \<Longrightarrow> tkey (p @ k) \<longleftrightarrow> nibbles p \<and> tkey k"
  by (auto simp: tkey_def butlast_append)

lemma tkey_appendI: "nibbles p \<Longrightarrow> tkey k \<Longrightarrow> tkey (p @ k)"
  by (cases "k = []") (simp_all add: tkey_append)

lemma tkey_snoc: "nibbles p \<Longrightarrow> tkey (p @ [16])"
  by (simp add: tkey_def)

lemma nibble_16: "\<not> nibble 16"
  by (simp add: nibble_def)

lemma nibble_unat: "nibble x \<Longrightarrow> unat x < 16"
  by (simp add: nibble_def word_less_nat_alt)

lemma tkey_hd: "tkey (x # k) \<Longrightarrow> unat x < 17 \<and> (unat x = 16 \<longleftrightarrow> x = 16) \<and> (x = 16 \<longleftrightarrow> k = [])"
  using nibble_unat [of x] nibble_16 by (auto simp: tkey_Cons split: if_splits)

lemma tkey_not_nibbles: "tkey k \<Longrightarrow> \<not> nibbles (k @ r)"
  by (cases k rule: rev_cases) (auto simp: tkey_def nibble_16)

lemma tkey_prefix_eq: "tkey a \<Longrightarrow> tkey b \<Longrightarrow> prefix a b \<Longrightarrow> a = b"
  by (metis append_Nil2 prefixE tkey_append tkey_not_nibbles)

lemma keybytesToHex_tkey: "tkey (keybytesToHex key)"
  by (simp add: keybytesToHex_nibbles tkey_snoc)

lemma keybytesToHex_inject: "keybytesToHex a = keybytesToHex b \<longleftrightarrow> a = b"
  by (auto simp: keybytesToHex_nibbles) (metis decode_to_nibbles)

lemma prefixLen_split:
  obtains p a' b' where "a = p @ a'" "b = p @ b'" "prefixLen a b = length p"
    "a' = [] \<or> b' = [] \<or> hd a' \<noteq> hd b'"
proof (induction a b arbitrary: thesis rule: prefixLen.induct)
  case (1 x as y bs)
  show ?case
  proof (cases "x = y")
    case True
    from "1.IH" obtain p a' b' where "as = p @ a'" "bs = p @ b'" "prefixLen as bs = length p"
      "a' = [] \<or> b' = [] \<or> hd a' \<noteq> hd b'" using True by auto
    with True show ?thesis by (intro "1.prems" [of "x # p" a' b']) auto
  next
    case False
    then show ?thesis by (intro "1.prems" [of "[]" "x # as" "y # bs"]) auto
  qed
qed auto

subsection \<open>Keys that fit a place in the tree\<close>

definition fits :: "ptree \<Rightarrow> bytes \<Rightarrow> bool" where
  "fits t k \<longleftrightarrow> (tkey k \<and> canon t) \<or> (k = [] \<and> value_or_nil t)"

lemma canon_fits: "canon t \<Longrightarrow> tkey k \<Longrightarrow> fits t k"
  by (simp add: fits_def)

lemma fits_V: "fits (V u) k \<longleftrightarrow> k = [] \<and> u \<noteq> []"
  by (auto simp: fits_def)

lemma fits_E: "fits E k \<longleftrightarrow> tkey k \<or> k = []"
  by (auto simp: fits_def)

lemma canon_child:
  assumes "canon (F ts)" and "i < 17"
  shows "length ts = 17" "if i < 16 then canon (ts ! i) else value_or_nil (ts ! i)"
proof -
  show l: "length ts = 17" using assms(1) by simp
  show "if i < 16 then canon (ts ! i) else value_or_nil (ts ! i)"
  proof (cases "i < 16")
    case True
    then have "take 16 ts ! i \<in> set (take 16 ts)" using l by (intro nth_mem) simp
    with True assms(1) show ?thesis by (simp add: list_all_iff)
  next
    case False
    then have "i = 16" using assms(2) by simp
    with assms(1) show ?thesis by simp
  qed
qed

lemma fits_F:
  assumes "fits (F ts) k"
  obtains x k' where "k = x # k'" "unat x < 17" "length ts = 17" "fits (ts ! unat x) k'"
    "tkey k" "canon (F ts)"
proof -
  have w: "canon (F ts)" "tkey k" using assms by (auto simp: fits_def simp del: canon.simps)
  then obtain x k' where k: "k = x # k'" by (cases k) auto
  have x: "unat x < 17" "unat x = 16 \<longleftrightarrow> k' = []" using tkey_hd [of x k'] w(2) k by auto
  have "fits (ts ! unat x) k'"
    using canon_child(2) [OF w(1) x(1)] x w(2) k by (auto simp: fits_def tkey_Cons split: if_splits)
  with that k x canon_child(1) [OF w(1) x(1)] w show ?thesis by blast
qed

lemma fits_S:
  assumes "fits (S nk t) k"
  shows "tkey k" "nk \<noteq> []" "canon (S nk t)" "prefix nk k \<Longrightarrow> fits t (drop (length nk) k)"
proof -
  have w: "canon (S nk t)" "tkey k" using assms by (auto simp: fits_def simp del: canon.simps)
  then show "tkey k" "canon (S nk t)" by simp_all
  show "nk \<noteq> []" using w(1) by (auto split: ptree.splits)
  assume "prefix nk k"
  then obtain r where k: "k = nk @ r" by (auto simp: prefix_def)
  show "fits t (drop (length nk) k)"
  proof (cases t)
    case (V v)
    with w k tkey_prefix_eq [of nk k] show ?thesis by (auto simp: fits_V)
  next
    case (F ts)
    then have n: "nibbles nk" "canon (F ts)" using w(1) by auto
    then have "r \<noteq> []" using w(2) k tkey_not_nibbles [of nk "[]"] by auto
    with w(2) k n F show ?thesis by (auto simp: fits_def tkey_append)
  qed (use w(1) in auto)
qed

text \<open>A terminated key never ends inside the key of a short node.\<close>

lemma S_split:
  assumes "fits (S nk t) k"
  obtains (inside) r where "k = nk @ r" "prefixLen k nk = length nk" "fits t r" "prefix nk k"
  | (fork) p x r y s where "k = p @ x # r" "nk = p @ y # s" "x \<noteq> y" "prefixLen k nk = length p"
      "nibbles p" "tkey (x # r)" "unat x < 17" "unat y < 17" "unat x \<noteq> unat y" "\<not> prefix nk k"
proof -
  note f = fits_S [OF assms]
  obtain p a b where s: "k = p @ a" "nk = p @ b" "prefixLen k nk = length p"
    "a = [] \<or> b = [] \<or> hd a \<noteq> hd b" by (rule prefixLen_split)
  show thesis
  proof (cases b)
    case Nil
    with s f(4) inside [of a] show thesis by simp
  next
    case (Cons y s')
    have nk: "tkey nk \<or> nibbles nk" using f(3) by (auto split: ptree.splits)
    have "a \<noteq> []"
    proof
      assume "a = []"
      then have "tkey p" using f(1) s by simp
      with nk s(2) Cons show False
        using tkey_not_nibbles [of p "[]"] tkey_not_nibbles [of p b] by (auto simp: tkey_append)
    qed
    then obtain x r where a: "a = x # r" by (cases a) auto
    have "unat y < 17" using nk s(2) Cons tkey_hd [of y s'] nibble_unat [of y] by (auto simp: tkey_append)
    moreover have xr: "tkey (x # r)" "nibbles p" using f(1) s(1) a by (auto simp: tkey_append)
    moreover have "x \<noteq> y" using s(4) a Cons by simp
    moreover from this have "unat x \<noteq> unat y" by (simp add: word_unat_eq_iff)
    moreover have "\<not> prefix nk k" using s a Cons \<open>x \<noteq> y\<close> by auto
    ultimately show thesis using fork [of p x r y s'] s a Cons tkey_hd [of x r] by simp
  qed
qed

lemma get_mk_short:
  "get (mk_short p t) k = (if prefix p k then get t (drop (length p) k) else None)"
  by (simp add: mk_short_def)

lemma fits_mode: "fits t k \<Longrightarrow> fits t k' \<Longrightarrow> t \<noteq> E \<Longrightarrow> k = [] \<longleftrightarrow> k' = []"
  by (cases t) (auto simp: fits_def)

lemma S_not_E: "canon (S nk t) \<Longrightarrow> t \<noteq> E"
  by auto

subsection \<open>Insertion\<close>

lemma unat_eq_word: "unat (x :: byte) = unat y \<longleftrightarrow> x = y"
  by (simp add: word_unat_eq_iff)

lemma tkey_tail_eq:
  assumes "tkey (x # r)" and "tkey (x # q)"
  shows "prefix r q \<longleftrightarrow> r = q"
  using assms tkey_prefix_eq [of r q] by (auto simp: tkey_Cons nibble_16 split: if_splits)

lemma get_fork:
  assumes k: "k = p @ x # r" and nk: "nk = p @ y # s" and d: "unat x \<noteq> unat y"
    and x: "unat x < 17" and y: "unat y < 17" and "tkey k" and "tkey k'"
  shows "get (mk_short p (F ((replicate 17 E)[unat y := mk_short s t, unat x := mk_short r (V v)]))) k' =
    (if k' = k then Some v else get (S nk t) k')"
proof (cases "prefix p k'")
  case False
  with k nk show ?thesis by (auto simp: get_mk_short prefix_def)
next
  case True
  then obtain c where c: "k' = p @ c" by (auto simp: prefix_def)
  have "c \<noteq> []"
    using assms(6,7) k c tkey_not_nibbles [of p "[]"] by (auto simp: tkey_append)
  then obtain z q where z: "c = z # q" by (cases c) auto
  have t: "tkey (x # r)" "tkey (z # q)" using assms(6,7) k c z by (auto simp: tkey_append)
  then have "unat z < 17" using tkey_hd by blast
  then consider "z = x" | "z = y" "z \<noteq> x" | "z \<noteq> x" "z \<noteq> y" by blast
  then show ?thesis
  proof cases
    case 1
    with t tkey_tail_eq [of x r q] have "prefix r q \<longleftrightarrow> r = q" by simp
    with 1 x y d k nk c z show ?thesis by (auto simp: get_mk_short)
  next
    case 2
    with x y d k nk c z show ?thesis by (auto simp: get_mk_short unat_eq_word)
  next
    case 3
    with x y d k nk c z \<open>unat z < 17\<close> show ?thesis
      by (auto simp: get_mk_short nth_list_update unat_eq_word)
  qed
qed

lemma get_ins:
  assumes "fits t k" and "fits t k'" and "k = [] \<longleftrightarrow> k' = []"
  shows "get (ins t k v) k' = (if k' = k then Some v else get t k')"
  using assms
proof (induction t k v arbitrary: k' rule: ins.induct)
  case (1 k v)
  then show ?case
    using tkey_prefix_eq [of k k'] by (auto simp: get_mk_short fits_E)
next
  case (3 nk t k v)
  note f = fits_S [OF "3.prems"(1)] and f' = fits_S [OF "3.prems"(2)]
  from "3.prems"(1) show ?case
  proof (cases rule: S_split)
    case (inside r)
    have "get (ins t r v) (drop (length nk) k') = (if k' = k then Some v else get t (drop (length nk) k'))"
      if p: "prefix nk k'"
    proof -
      have r': "fits t (drop (length nk) k')" using f'(4) p by blast
      have "drop (length nk) k' = r \<longleftrightarrow> k' = k" using p inside(1) by (auto simp: prefix_def)
      with "3.IH" [OF refl, of "drop (length nk) k'"] inside r' fits_mode [OF inside(3) r' S_not_E [OF f(3)]]
      show ?thesis by simp
    qed
    with inside show ?thesis by auto
  next
    case (fork p x r y s)
    have "ins (S nk t) k v =
        mk_short p (F ((replicate 17 E)[unat y := mk_short s t, unat x := mk_short r (V v)]))"
      using fork(1-4) by (simp add: nth_append)
    with get_fork [OF fork(1,2,9,7,8) f(1) f'(1)] show ?thesis by (simp del: ins.simps)
  qed
next
  case (5 ts x k v)
  from "5.prems"(1) have x: "unat x < 17" "length ts = 17" "fits (ts ! unat x) k" "tkey (x # k)"
    by (auto elim: fits_F)
  from "5.prems"(2) obtain z q where z: "k' = z # q" "unat z < 17" "fits (ts ! unat z) q" "tkey (z # q)"
    by (auto elim: fits_F)
  show ?case
  proof (cases "z = x")
    case True
    then have "k = [] \<longleftrightarrow> q = []" using tkey_hd [OF x(4)] tkey_hd [OF z(4)] by simp
    with "5.IH" [of q] True x z show ?thesis by simp
  next
    case False
    with x z show ?thesis by (simp add: unat_eq_word)
  qed
next
  case (2 u k v)
  then show ?case by (simp add: fits_V)
next
  case (4 ts v)
  then show ?case by (simp add: fits_def)
qed

lemma ins_same: "fits t k \<Longrightarrow> get t k = Some v \<Longrightarrow> ins t k v = t"
proof (induction t k v rule: ins.induct)
  case (3 nk t k v)
  from "3.prems"(1) show ?case
  proof (cases rule: S_split)
    case (inside r)
    with 3 show ?thesis by simp
  next
    case (fork p x r y s)
    with "3.prems"(2) show ?thesis by simp
  qed
next
  case (5 ts x k v)
  then have "unat x < 17" "length ts = 17" "fits (ts ! unat x) k" by (auto elim: fits_F)
  with 5 show ?case by simp
qed auto

text \<open>Well-formedness of a branch, child by child.\<close>

lemma two_filter:
  "2 \<le> length (filter P xs) \<longleftrightarrow> (\<exists>i j. i < length xs \<and> j < length xs \<and> i \<noteq> j \<and> P (xs ! i) \<and> P (xs ! j))"
proof -
  let ?A = "{i. i < length xs \<and> P (xs ! i)}"
  have "2 \<le> card ?A \<longleftrightarrow> (\<exists>i j. i \<in> ?A \<and> j \<in> ?A \<and> i \<noteq> j)"
  proof
    assume c: "2 \<le> card ?A"
    then obtain i where i: "i \<in> ?A" by (metis card.empty all_not_in_conv not_numeral_le_zero)
    have "card (?A - {i}) \<noteq> 0" using c i by simp
    then obtain j where "j \<in> ?A - {i}" by (metis card.empty all_not_in_conv)
    with i show "\<exists>i j. i \<in> ?A \<and> j \<in> ?A \<and> i \<noteq> j" by auto
  next
    assume "\<exists>i j. i \<in> ?A \<and> j \<in> ?A \<and> i \<noteq> j"
    then obtain i j where "{i, j} \<subseteq> ?A" "i \<noteq> j" by auto
    then show "2 \<le> card ?A" using card_mono [of ?A "{i, j}"] by simp
  qed
  then show ?thesis by (auto simp: length_filter_conv_card)
qed

lemma canon_F:
  "canon (F ts) \<longleftrightarrow> length ts = 17 \<and> (\<forall>i < 16. canon (ts ! i)) \<and> value_or_nil (ts ! 16) \<and>
     (\<exists>i j. i < 17 \<and> j < 17 \<and> i \<noteq> j \<and> ts ! i \<noteq> E \<and> ts ! j \<noteq> E)"
proof (cases "length ts = 17")
  case True
  then have "list_all canon (take 16 ts) \<longleftrightarrow> (\<forall>i < 16. canon (ts ! i))"
    by (auto simp: list_all_length)
  with True show ?thesis by (simp add: two_filter)
qed simp

declare canon.simps(4) [simp del]

lemma ins_not_E: "ins t k v \<noteq> E"
  by (cases "(t, k, v)" rule: ins.cases) (auto simp: mk_short_def Let_def)

definition place :: "byte \<Rightarrow> ptree \<Rightarrow> bool" where
  "place x t \<longleftrightarrow> (if unat x < 16 then canon t else value_or_nil t)"

lemma place_V: "tkey (x # r) \<Longrightarrow> v \<noteq> [] \<Longrightarrow> place x (mk_short r (V v))"
  using nibble_unat [of x] by (auto simp: place_def mk_short_def tkey_Cons split: if_splits)

lemma place_F: "nibbles (y # s) \<Longrightarrow> canon (F ts) \<Longrightarrow> place y (mk_short s (F ts))"
  using nibble_unat [of y] by (auto simp: place_def mk_short_def)

lemma place_rest:
  assumes "canon (S nk t)" and "nk = p @ y # s"
  shows "place y (mk_short s t)" "mk_short s t \<noteq> E"
proof -
  show "place y (mk_short s t)"
    using assms by (cases t) (auto simp: tkey_append place_V place_F)
  show "mk_short s t \<noteq> E" using assms by (auto simp: mk_short_def)
qed

lemma canon_mk_short_F: "nibbles p \<Longrightarrow> canon (F ts) \<Longrightarrow> canon (mk_short p (F ts))"
  by (simp add: mk_short_def)

lemma canon_fork:
  assumes "place x t" "place y u" "t \<noteq> E" "u \<noteq> E" "unat x \<noteq> unat y" "unat x < 17" "unat y < 17"
  shows "canon (F ((replicate 17 E)[unat y := u, unat x := t]))"
proof -
  let ?ts = "(replicate 17 E)[unat y := u, unat x := t]"
  have "\<exists>i j. i < 17 \<and> j < 17 \<and> i \<noteq> j \<and> ?ts ! i \<noteq> E \<and> ?ts ! j \<noteq> E"
    by (intro exI [of _ "unat x"] exI [of _ "unat y"]) (use assms in simp)
  moreover have "\<forall>i < 16. canon (?ts ! i)" "value_or_nil (?ts ! 16)"
    using assms by (auto simp: nth_list_update place_def)
  ultimately show ?thesis by (simp add: canon_F)
qed

lemma canon_F_update:
  assumes "canon (F ts)" and "i < 17" and "if i < 16 then canon u else value_or_nil u"
    and "\<exists>a b. a < 17 \<and> b < 17 \<and> a \<noteq> b \<and> ts[i := u] ! a \<noteq> E \<and> ts[i := u] ! b \<noteq> E"
  shows "canon (F (ts[i := u]))"
  using assms by (auto simp: canon_F nth_list_update)

lemma canon_F_update_nonE:
  assumes "canon (F ts)" and "i < 17" and "if i < 16 then canon u else value_or_nil u" and "u \<noteq> E"
  shows "canon (F (ts[i := u]))"
proof (rule canon_F_update [OF assms(1-3)])
  obtain a b where "a < 17" "b < 17" "a \<noteq> b" "ts ! a \<noteq> E" "ts ! b \<noteq> E" "length ts = 17"
    using assms(1) by (auto simp: canon_F)
  with assms(2,4) show "\<exists>a b. a < 17 \<and> b < 17 \<and> a \<noteq> b \<and> ts[i := u] ! a \<noteq> E \<and> ts[i := u] ! b \<noteq> E"
    by (rule_tac x = a in exI, rule_tac x = b in exI) (simp add: nth_list_update)
qed

lemma canon_ins:
  assumes "fits t k" and "v \<noteq> []"
  shows "if k = [] then ins t k v = V v else canon (ins t k v)"
  using assms
proof (induction t k v rule: ins.induct)
  case (1 k v)
  then show ?case by (auto simp: fits_E mk_short_def)
next
  case (2 u k v)
  then show ?case by (simp add: fits_V)
next
  case (3 nk t k v)
  note f = fits_S [OF "3.prems"(1)]
  from "3.prems"(1) show ?case
  proof (cases rule: S_split)
    case (inside r)
    have "canon (S nk (ins t r v))"
    proof (cases t)
      case (V u)
      with inside(3) f(3) "3.prems"(2) show ?thesis by (simp add: fits_V)
    next
      case (F ts)
      with inside(3) have "r \<noteq> []" by (auto simp: fits_def)
      moreover have "\<exists>ts'. ins t r v = F ts'" using F by (cases r) auto
      ultimately show ?thesis using 3 inside f(3) F by auto
    qed (use f(3) in auto)
    with inside f(1) show ?thesis by auto
  next
    case (fork p x r y s)
    have "ins (S nk t) k v =
        mk_short p (F ((replicate 17 E)[unat y := mk_short s t, unat x := mk_short r (V v)]))"
      using fork(1-4) by (simp add: nth_append)
    moreover have "canon (F ((replicate 17 E)[unat y := mk_short s t, unat x := mk_short r (V v)]))"
      using fork "3.prems"(2) place_rest [OF f(3) fork(2)]
      by (intro canon_fork place_V) (auto simp: mk_short_def)
    ultimately show ?thesis using f(1) fork(5) by (auto simp: canon_mk_short_F simp del: ins.simps)
  qed
next
  case (4 ts v)
  then show ?case by (simp add: fits_def)
next
  case (5 ts x k v)
  from "5.prems"(1) have x: "unat x < 17" "length ts = 17" "fits (ts ! unat x) k" "tkey (x # k)" "canon (F ts)"
    by (auto elim: fits_F)
  then have "if k = [] then ins (ts ! unat x) k v = V v else canon (ins (ts ! unat x) k v)"
    using 5 by simp
  then have "canon (F (ts[unat x := ins (ts ! unat x) k v]))"
    using x(1,5) "5.prems"(2) tkey_hd [OF x(4)]
    by (intro canon_F_update_nonE ins_not_E) (auto split: if_splits)
  with x show ?case by simp
qed

subsection \<open>Deletion\<close>

lemma get_join: "get (join nk t) k = (if prefix nk k then get t (drop (length nk) k) else None)"
  by (cases t) (auto simp: join_def prefix_def)

lemma occupied_single:
  assumes "occupied ts = [pos]"
  shows "pos < length ts" "ts ! pos \<noteq> E" "\<And>i. i < length ts \<Longrightarrow> i \<noteq> pos \<Longrightarrow> ts ! i = E"
proof -
  have "set (occupied ts) = {pos}" using assms by simp
  then have *: "{i. i < length ts \<and> ts ! i \<noteq> E} = {pos}" by (auto simp: occupied_def)
  then show "pos < length ts" "ts ! pos \<noteq> E" by blast+
  show "ts ! i = E" if "i < length ts" "i \<noteq> pos" for i using * that by blast
qed

lemma shrink_cases:
  assumes "j < length ts" and "ts ! j \<noteq> E"
  obtains (one) pos where "shrink ts = join [word_of_nat pos] (ts ! pos)" "occupied ts = [pos]"
  | (many) "shrink ts = F ts" "\<exists>a b. a < length ts \<and> b < length ts \<and> a \<noteq> b \<and> ts ! a \<noteq> E \<and> ts ! b \<noteq> E"
proof -
  have j: "j \<in> set (occupied ts)" using assms by (simp add: occupied_def)
  have d: "distinct (occupied ts)" by (simp add: occupied_def)
  show thesis
  proof (cases "occupied ts" rule: remdups_adj.cases)
    case (2 pos)
    then show thesis by (intro one) (simp_all add: shrink_def)
  next
    case (3 a b as)
    then have "a \<noteq> b" "a \<in> set (occupied ts)" "b \<in> set (occupied ts)" using d by auto
    then have "\<exists>a b. a < length ts \<and> b < length ts \<and> a \<noteq> b \<and> ts ! a \<noteq> E \<and> ts ! b \<noteq> E"
      by (auto simp: occupied_def)
    with 3 show thesis by (intro many) (simp_all add: shrink_def)
  qed (use j in simp)
qed

lemma unat_small: "i < 17 \<Longrightarrow> unat (word_of_nat i :: byte) = i"
  by (simp add: unsigned_of_nat take_bit_nat_eq_self)

lemma get_shrink:
  assumes "length ts = 17" and "tkey k"
  shows "get (shrink ts) k = get (F ts) k"
proof -
  obtain z q where k: "k = z # q" "unat z < 17" using assms(2) tkey_hd by (cases k) auto
  show ?thesis
  proof (cases "\<exists>pos. occupied ts = [pos]")
    case True
    then obtain pos where pos: "occupied ts = [pos]" ..
    note o = occupied_single [OF pos]
    have "(word_of_nat pos = z) = (pos = unat z)"
      using unat_small [of pos] o(1) assms(1) by auto
    with o k assms(1) show ?thesis
      by (auto simp: shrink_def pos get_join)
  next
    case False
    then have "shrink ts = F ts" by (auto simp: shrink_def split: list.split)
    then show ?thesis by simp
  qed
qed

lemma get_del:
  assumes "fits t k" and "fits t k'" and "k = [] \<longleftrightarrow> k' = []"
  shows "get (del t k) k' = (if k' = k then None else get t k')"
  using assms
proof (induction t k arbitrary: k' rule: del.induct)
  case (3 nk t k)
  note f = fits_S [OF "3.prems"(1)] and f' = fits_S [OF "3.prems"(2)]
  from "3.prems"(1) show ?case
  proof (cases rule: S_split)
    case (inside r)
    show ?thesis
    proof (cases "r = []")
      case True
      with inside have "get (S nk t) k' = None" if "k' \<noteq> k"
        using tkey_prefix_eq [of nk k'] f(1) f'(1) that by auto
      with True inside show ?thesis by auto
    next
      case False
      have "get (del t r) (drop (length nk) k') = (if k' = k then None else get t (drop (length nk) k'))"
        if p: "prefix nk k'"
      proof -
        have r': "fits t (drop (length nk) k')" using f'(4) p by blast
        have "drop (length nk) k' = r \<longleftrightarrow> k' = k" using p inside(1) by (auto simp: prefix_def)
        with "3.IH" [OF refl, of "drop (length nk) k'"] inside False r'
          fits_mode [OF inside(3) r' S_not_E [OF f(3)]]
        show ?thesis by simp
      qed
      with inside False show ?thesis by (auto simp: get_join)
    qed
  next
    case (fork p x r y s)
    then show ?thesis by auto
  qed
next
  case (5 ts x k)
  from "5.prems"(1) have x: "unat x < 17" "length ts = 17" "fits (ts ! unat x) k" "tkey (x # k)"
    by (auto elim: fits_F)
  from "5.prems"(2) obtain z q where z: "k' = z # q" "unat z < 17" "fits (ts ! unat z) q" "tkey (z # q)"
    by (auto elim: fits_F)
  have "get (F (ts[unat x := del (ts ! unat x) k])) k' = (if k' = x # k then None else get (F ts) k')"
  proof (cases "z = x")
    case True
    then have "k = [] \<longleftrightarrow> q = []" using tkey_hd [OF x(4)] tkey_hd [OF z(4)] by simp
    with "5.IH" [of q] True x z show ?thesis by simp
  next
    case False
    with x z show ?thesis by (simp add: unat_eq_word)
  qed
  with x z get_shrink [of "ts[unat x := del (ts ! unat x) k]" k'] show ?case by simp
next
  case (2 u k)
  then show ?case by (simp add: fits_V)
qed (simp_all add: fits_def)

lemma canon_join:
  assumes "canon t" and "nibbles nk" and "nk \<noteq> []" and "t \<noteq> E"
  shows "canon (join nk t)"
  using assms by (cases t) (auto simp: join_def tkey_appendI split: ptree.splits)

lemma canon_shrink:
  assumes "length ts = 17" and "\<forall>i < 16. canon (ts ! i)" and "value_or_nil (ts ! 16)"
    and j: "j < 17" "ts ! j \<noteq> E"
  shows "canon (shrink ts)" "shrink ts \<noteq> E"
proof -
  have "canon (shrink ts) \<and> shrink ts \<noteq> E"
    using j(1) [folded assms(1)] j(2)
  proof (cases rule: shrink_cases)
    case (one pos)
    note o = occupied_single [OF one(2)]
    show ?thesis
    proof (cases "pos < 16")
      case True
      then have "nibbles [word_of_nat pos]"
        using unat_small [of pos] by (simp add: nibble_def word_less_nat_alt)
      then have "canon (join [word_of_nat pos] (ts ! pos))"
        using True assms(2) o(2) by (intro canon_join) simp_all
      then show ?thesis using one by (auto simp: join_def split: ptree.splits)
    next
      case False
      then have "pos = 16" using o(1) assms(1) by simp
      moreover from this obtain v where "ts ! pos = V v" "v \<noteq> []"
        using assms(3) o(2) by (cases "ts ! pos") auto
      ultimately show ?thesis using one by (simp add: join_def tkey_def)
    qed
  next
    case many
    then show ?thesis using assms by (simp add: canon_F)
  qed
  then show "canon (shrink ts)" "shrink ts \<noteq> E" by simp_all
qed

lemma canon_del:
  assumes "fits t k"
  shows "(if k = [] then del t k = E else canon (del t k)) \<and> (\<forall>ts. t = F ts \<longrightarrow> del t k \<noteq> E)"
  using assms
proof (induction t k rule: del.induct)
  case (3 nk t k)
  note f = fits_S [OF "3.prems"]
  from "3.prems" show ?case
  proof (cases rule: S_split)
    case (inside r)
    show ?thesis
    proof (cases "r = []")
      case True
      with inside f(1) show ?thesis by auto
    next
      case False
      then obtain ts where F: "t = F ts" using f(3) inside(3) by (cases t) (auto simp: fits_def)
      have "canon (del t r)" "del t r \<noteq> E" "nibbles nk" using "3.IH" [OF refl] inside False F f(3) by auto
      then have "canon (join nk (del t r))" using f(2) by (intro canon_join)
      with inside False f(1) show ?thesis by auto
    qed
  next
    case (fork p x r y s)
    with f show ?thesis by auto
  qed
next
  case (5 ts x k)
  from "5.prems" have x: "unat x < 17" "length ts = 17" "fits (ts ! unat x) k" "tkey (x # k)" "canon (F ts)"
    by (auto elim: fits_F)
  let ?u = "del (ts ! unat x) k"
  have u: "if k = [] then ?u = E else canon ?u" using "5.IH" x by (cases "k = []") auto
  obtain a where "a < 17" "a \<noteq> unat x" "ts ! a \<noteq> E"
    using x(5) by (auto simp: canon_F)
  moreover have "\<forall>i < 16. canon (ts[unat x := ?u] ! i)" "value_or_nil (ts[unat x := ?u] ! 16)"
    using u x tkey_hd [OF x(4)] by (auto simp: canon_F nth_list_update)
  ultimately have "canon (shrink (ts[unat x := ?u]))" "shrink (ts[unat x := ?u]) \<noteq> E"
    using canon_shrink [of "ts[unat x := ?u]" a] x(2) by auto
  with x show ?case by simp
next
  case (2 u k)
  then show ?case by (simp add: fits_V)
qed (auto simp: fits_def)

lemma del_same: "fits t k \<Longrightarrow> get t k = None \<Longrightarrow> del t k = t"
proof (induction t k rule: del.induct)
  case (3 nk t k)
  note f = fits_S [OF "3.prems"(1)]
  from "3.prems"(1) show ?case
  proof (cases rule: S_split)
    case (inside r)
    with "3.prems"(2) have "get t r = None" by simp
    moreover from this have "r \<noteq> []"
      using f(3) inside(3) by (cases t) (auto simp: fits_def)
    moreover from this obtain ts where "t = F ts" using f(3) inside(3) by (cases t) (auto simp: fits_def)
    ultimately show ?thesis using 3 inside by (simp add: join_def)
  next
    case (fork p x r y s)
    then show ?thesis by simp
  qed
next
  case (5 ts x k)
  then have x: "unat x < 17" "length ts = 17" "fits (ts ! unat x) k" "canon (F ts)" by (auto elim: fits_F)
  with 5 have "del (ts ! unat x) k = ts ! unat x" by simp
  moreover obtain a b where ab: "a < length ts" "b < length ts" "a \<noteq> b" "ts ! a \<noteq> E" "ts ! b \<noteq> E"
    using x(2,4) by (auto simp: canon_F)
  moreover have "shrink ts = F ts"
    using ab(1,4)
  proof (cases rule: shrink_cases)
    case (one pos)
    from occupied_single(3) [OF one(2)] ab show ?thesis by metis
  qed simp
  ultimately show ?case using x by simp
qed auto

subsection \<open>Canonicity\<close>

text \<open>Every subtree of a canonical tree holds a key, and a branch holds two that part at once.\<close>

lemma canon_nonempty: "canon t \<Longrightarrow> t \<noteq> E \<Longrightarrow> \<exists>k. tkey k \<and> get t k \<noteq> None"
proof (induction t)
  case (S nk t)
  show ?case
  proof (cases t)
    case (V v)
    with S.prems show ?thesis by (intro exI [of _ nk]) simp
  next
    case (F ts)
    with S obtain k where "tkey k" "get t k \<noteq> None" by auto
    with F S.prems show ?thesis by (intro exI [of _ "nk @ k"]) (simp add: tkey_appendI)
  qed (use S.prems in auto)
next
  case (F ts)
  then obtain i where i: "i < 17" "ts ! i \<noteq> E" "length ts = 17" by (auto simp: canon_F)
  show ?case
  proof (cases "i < 16")
    case True
    then have "ts ! i \<in> set ts" "canon (ts ! i)" using F.prems i by (auto simp: canon_F)
    then obtain k where "tkey k" "get (ts ! i) k \<noteq> None" using F.IH i(2) by blast
    with True i unat_small [of i] show ?thesis
      by (intro exI [of _ "word_of_nat i # k"]) (auto simp: tkey_Cons nibble_def word_less_nat_alt)
  next
    case False
    with i F.prems have "i = 16" "value_or_nil (ts ! 16)" by (auto simp: canon_F)
    with i show ?thesis by (intro exI [of _ "[16]"]) (cases "ts ! 16"; simp add: tkey_def)
  qed
qed auto

lemma child_key:
  assumes "canon (F ts)" and "i < 17" and "ts ! i \<noteq> E"
  shows "\<exists>k. tkey (word_of_nat i # k) \<and> get (F ts) (word_of_nat i # k) \<noteq> None"
proof (cases "i < 16")
  case True
  then obtain k where "tkey k" "get (ts ! i) k \<noteq> None"
    using assms canon_nonempty [of "ts ! i"] by (auto simp: canon_F)
  with True assms unat_small [of i] show ?thesis
    by (intro exI [of _ k]) (auto simp: canon_F tkey_Cons nibble_def word_less_nat_alt)
next
  case False
  with assms have "i = 16" "value_or_nil (ts ! 16)" "length ts = 17" by (auto simp: canon_F)
  with assms(3) show ?thesis by (intro exI [of _ "[]"]) (cases "ts ! 16"; simp add: tkey_def)
qed

lemma two_keys:
  assumes "canon (F ts)"
  obtains x r y s where "x \<noteq> y" "tkey (x # r)" "tkey (y # s)"
    "get (F ts) (x # r) \<noteq> None" "get (F ts) (y # s) \<noteq> None"
proof -
  obtain i j where ij: "i < 17" "j < 17" "i \<noteq> j" "ts ! i \<noteq> E" "ts ! j \<noteq> E"
    using assms by (auto simp: canon_F)
  then have "(word_of_nat i :: byte) \<noteq> word_of_nat j"
    using unat_small [of i] unat_small [of j] by metis
  with child_key [OF assms ij(1,4)] child_key [OF assms ij(2,5)] that show thesis by blast
qed

definition same_keys :: "ptree \<Rightarrow> ptree \<Rightarrow> bool" where
  "same_keys t u \<longleftrightarrow> (\<forall>k. tkey k \<longrightarrow> get t k = get u k)"

lemma get_S_prefix: "get (S nk t) k \<noteq> None \<Longrightarrow> prefix nk k"
  by (simp split: if_splits)

lemma short_not_branch:
  assumes "canon (S nk t)" and "canon (F ts)"
  shows "\<not> same_keys (S nk t) (F ts)"
proof
  assume s: "same_keys (S nk t) (F ts)"
  obtain x r y s' where k: "x \<noteq> y" "tkey (x # r)" "tkey (y # s')"
    "get (F ts) (x # r) \<noteq> None" "get (F ts) (y # s') \<noteq> None" using assms(2) by (rule two_keys)
  then have "prefix nk (x # r)" "prefix nk (y # s')"
    using s get_S_prefix unfolding same_keys_def by metis+
  moreover have "nk \<noteq> []" using assms(1) by (auto split: ptree.splits)
  ultimately show False using k(1) by (cases nk) auto
qed

text \<open>The key of a short node above a branch is the longest common prefix of the keys.\<close>

lemma short_prefix:
  assumes s: "same_keys (S nk (F ts)) (S nk' t)" and c: "canon (S nk (F ts))"
  shows "prefix nk' nk"
proof -
  have nk: "nibbles nk" "canon (F ts)" using c by auto
  obtain x r y s' where k: "x \<noteq> y" "tkey (x # r)" "tkey (y # s')"
    "get (F ts) (x # r) \<noteq> None" "get (F ts) (y # s') \<noteq> None" using nk(2) by (rule two_keys)
  have "get (S nk' t) (nk @ x # r) \<noteq> None" "get (S nk' t) (nk @ y # s') \<noteq> None"
    using s k nk(1) tkey_appendI unfolding same_keys_def
    by (metis (no_types, lifting) append_eq_conv_conj get.simps(3) prefixI)+
  note this [THEN get_S_prefix]
  then show "prefix nk' nk" using k(1)
    by (auto simp: prefix_append prefix_Cons)
qed

lemma same_keys_child:
  assumes "same_keys (F ts) (F us)" and "length ts = 17" "length us = 17" and "i < 16"
  shows "same_keys (ts ! i) (us ! i)"
  unfolding same_keys_def
proof (intro allI impI)
  fix k assume k: "tkey k"
  have i: "unat (word_of_nat i :: byte) = i" using assms(4) by (simp add: unat_small)
  then have "tkey (word_of_nat i # k)"
    using assms(4) k by (auto simp: tkey_Cons nibble_def word_less_nat_alt)
  with assms i have "get (F ts) (word_of_nat i # k) = get (F us) (word_of_nat i # k)"
    unfolding same_keys_def by blast
  with assms i show "get (ts ! i) k = get (us ! i) k" by simp
qed

lemma same_keys_value:
  assumes "same_keys (F ts) (F us)" and "canon (F ts)" "canon (F us)"
  shows "ts ! 16 = us ! 16"
proof -
  have "tkey [16]" by (simp add: tkey_def)
  with assms(1) have "get (F ts) [16] = get (F us) [16]" unfolding same_keys_def by blast
  with assms(2,3) show ?thesis
    by (cases "ts ! 16"; cases "us ! 16") (auto simp: canon_F)
qed

lemma same_keys_sym: "same_keys t u \<Longrightarrow> same_keys u t"
  by (simp add: same_keys_def)

lemma leaf_keys:
  assumes "canon (S nk (V v))" and "tkey k"
  shows "get (S nk (V v)) k = (if k = nk then Some v else None)"
  using assms tkey_prefix_eq [of nk k] by auto

lemma leaf_not_short_branch:
  assumes "canon (S nk (V v))" and "canon (S nk' (F ts))"
  shows "\<not> same_keys (S nk (V v)) (S nk' (F ts))"
proof
  assume s: "same_keys (S nk (V v)) (S nk' (F ts))"
  then have "prefix nk nk'" using short_prefix same_keys_sym assms(2) by blast
  with assms tkey_not_nibbles [of nk] show False by (auto simp: prefix_def)
qed

lemma canon_unique:
  assumes "canon t" and "canon u" and "same_keys t u"
  shows "t = u"
  using assms
proof (induction t arbitrary: u)
  case E
  then have "E = u" using canon_nonempty [of u] unfolding same_keys_def by fastforce
  then show ?case .
next
  case (S nk t)
  from S.prems canon_nonempty [of "S nk t"] have "u \<noteq> E" by (auto simp: same_keys_def)
  moreover have "\<not> (\<exists>us. u = F us)" using short_not_branch S.prems by blast
  ultimately obtain nk' t' where u: "u = S nk' t'" using S.prems(2) by (cases u) auto
  show ?case
  proof (cases t)
    case (V v)
    then obtain v' where v': "t' = V v'"
      using S.prems u leaf_not_short_branch by (cases t') auto
    have "tkey nk" using S.prems(1) V by simp
    with S.prems(3) have "get (S nk (V v)) nk = get (S nk' (V v')) nk"
      unfolding same_keys_def u V v' by blast
    with leaf_keys [of nk' v' nk] S.prems(2) u v' \<open>tkey nk\<close> have "nk = nk' \<and> v = v'"
      by (simp split: if_splits)
    then show ?thesis using u V v' by simp
  next
    case (F ts)
    then obtain us where us: "t' = F us"
      using S.prems(1,2) same_keys_sym [OF S.prems(3)] u leaf_not_short_branch [of nk' _ nk ts]
      by (cases t') auto
    have "nk = nk'"
      using short_prefix [of nk ts nk' "F us"] short_prefix [of nk' us nk "F ts"] S.prems u F us
        same_keys_sym prefix_order.antisym by blast
    moreover from this have "same_keys (F ts) (F us)"
      unfolding same_keys_def
    proof (intro allI impI)
      fix k assume "tkey k"
      moreover have "nibbles nk" using S.prems(1) F by simp
      ultimately have "get (S nk t) (nk @ k) = get u (nk @ k)"
        using S.prems(3) tkey_appendI unfolding same_keys_def by blast
      then show "get (F ts) k = get (F us) k" using F u us \<open>nk = nk'\<close> by simp
    qed
    ultimately show ?thesis using S F u us by auto
  qed (use S.prems in auto)
next
  case (F ts)
  from F.prems canon_nonempty [of "F ts"] have "u \<noteq> E" by (auto simp: same_keys_def)
  moreover have "\<not> (\<exists>nk t. u = S nk t)" using short_not_branch same_keys_sym F.prems by blast
  ultimately obtain us where u: "u = F us" using F.prems(2) by (cases u) auto
  have l: "length ts = 17" "length us = 17" using F.prems u by (auto simp: canon_F)
  have "ts ! i = us ! i" if "i < 17" for i
  proof (cases "i < 16")
    case True
    then show ?thesis
      using F.IH [of "ts ! i" "us ! i"] F.prems u l same_keys_child [of ts us i] by (auto simp: canon_F)
  next
    case False
    then have "i = 16" using that by simp
    then show ?thesis using same_keys_value F.prems u by simp
  qed
  with l u show ?case by (simp add: list_eq_iff_nth_eq)
qed auto

end
