(* ===== verification/Trie_Core.thy ===== *)
theory Trie_Core
  imports Trie_Tree "HOL-Library.Monad_Syntax"
begin

text \<open>
  \<open>trie/trie.go\<close> and the node types of \<open>trie/node.go\<close>.  A trie is loaded lazily: where a
  subtree has not been read yet there is a hash node, and the operations read it from the
  database when they come to it.  The database is a parameter, the function from a hash to the
  node stored under it (\<open>Database.node\<close>).

  An operation may fail for a missing node or panic; both are error values.  It returns \<open>None\<close>
  only if it does not return at all, which a database with a cycle of hashes could cause.
\<close>

subsection \<open>Nodes\<close>

record nodeFlag =
  nf_hash :: "bytes option"
  nf_dirty :: bool

datatype node =
    NilNode
  | ValueNode bytes
  | HashNode bytes
  | ShortNode bytes node nodeFlag
  | FullNode "node list" nodeFlag

datatype trie_error = MissingNodeError bytes bytes | Panic

type_synonym node_db = "bytes \<Rightarrow> node option"

definition newFlag :: nodeFlag where
  "newFlag = \<lparr>nf_hash = None, nf_dirty = True\<rparr>"

definition BytesToHash :: "bytes \<Rightarrow> bytes" where
  "BytesToHash b =
     (let b = (if 32 < length b then drop (length b - 32) b else b)
      in replicate (32 - length b) 0 @ b)"

definition resolveHash :: "node_db \<Rightarrow> bytes \<Rightarrow> bytes \<Rightarrow> trie_error + node" where
  "resolveHash db n pfx =
     (let hash = BytesToHash n in
      case db hash of Some node \<Rightarrow> Inr node | None \<Rightarrow> Inl (MissingNodeError hash pfx))"

definition resolve :: "node_db \<Rightarrow> node \<Rightarrow> bytes \<Rightarrow> trie_error + node" where
  "resolve db n pfx = (case n of HashNode h \<Rightarrow> resolveHash db h pfx | _ \<Rightarrow> Inr n)"

definition on_node :: "trie_error + 'a \<Rightarrow> ('a \<Rightarrow> trie_error + 'b) \<Rightarrow> (trie_error + 'b) option" where
  "on_node r f = Some (case r of Inl e \<Rightarrow> Inl e | Inr a \<Rightarrow> f a)"

subsection \<open>Lookup\<close>

partial_function (option) tryGet ::
  "node_db \<Rightarrow> node \<Rightarrow> bytes \<Rightarrow> nat \<Rightarrow> (trie_error + bytes option \<times> node \<times> bool) option"
where
  "tryGet db origNode key pos =
     (case origNode of
       NilNode \<Rightarrow> Some (Inr (None, NilNode, False))
     | ValueNode v \<Rightarrow> Some (Inr (Some v, origNode, False))
     | ShortNode k val flags \<Rightarrow>
         if length key - pos < length k \<or> k \<noteq> take (length k) (drop pos key)
         then Some (Inr (None, origNode, False))
         else do {
           r \<leftarrow> tryGet db val key (pos + length k);
           on_node r (\<lambda>(value, newnode, didResolve).
             Inr (value, if didResolve then ShortNode k newnode flags else origNode, didResolve))
         }
     | FullNode children flags \<Rightarrow>
         if length key \<le> pos \<or> length children \<le> unat (key ! pos) then Some (Inl Panic)
         else do {
           r \<leftarrow> tryGet db (children ! unat (key ! pos)) key (pos + 1);
           on_node r (\<lambda>(value, newnode, didResolve).
             Inr (value,
               if didResolve then FullNode (children[unat (key ! pos) := newnode]) flags else origNode,
               didResolve))
         }
     | HashNode n \<Rightarrow>
         (case resolveHash db n (take pos key) of
           Inl e \<Rightarrow> Some (Inl e)
         | Inr child \<Rightarrow> do {
             r \<leftarrow> tryGet db child key pos;
             on_node r (\<lambda>(value, newnode, _). Inr (value, newnode, True))
           }))"

subsection \<open>Insertion\<close>

partial_function (option) insert_node ::
  "node_db \<Rightarrow> node \<Rightarrow> bytes \<Rightarrow> bytes \<Rightarrow> node \<Rightarrow> (trie_error + bool \<times> node) option"
where
  "insert_node db n pfx key value =
     (if length key = 0 then
        (case n of
          ValueNode v \<Rightarrow>
            (case value of
              ValueNode v' \<Rightarrow> Some (Inr (v \<noteq> v', value))
            | _ \<Rightarrow> Some (Inl Panic))
        | _ \<Rightarrow> Some (Inr (True, value)))
      else case n of
        ShortNode nKey nVal flags \<Rightarrow>
          (let matchlen = prefixLen key nKey in
           if matchlen = length nKey then do {
             r \<leftarrow> insert_node db nVal (pfx @ take matchlen key) (drop matchlen key) value;
             on_node r (\<lambda>(dirty, nn).
               if \<not> dirty then Inr (False, n) else Inr (True, ShortNode nKey nn newFlag))
           }
           else if 17 \<le> unat (nKey ! matchlen) then Some (Inl Panic)
           else do {
             r1 \<leftarrow> insert_node db NilNode (pfx @ take (matchlen + 1) nKey)
                     (drop (matchlen + 1) nKey) nVal;
             case r1 of
               Inl e \<Rightarrow> Some (Inl e)
             | Inr (_, child1) \<Rightarrow>
                 if length key \<le> matchlen \<or> 17 \<le> unat (key ! matchlen) then Some (Inl Panic)
                 else do {
                   r2 \<leftarrow> insert_node db NilNode (pfx @ take (matchlen + 1) key)
                           (drop (matchlen + 1) key) value;
                   on_node r2 (\<lambda>(_, child2).
                     let branch = FullNode ((replicate 17 NilNode)
                           [unat (nKey ! matchlen) := child1, unat (key ! matchlen) := child2]) newFlag
                     in if matchlen = 0 then Inr (True, branch)
                        else Inr (True, ShortNode (take matchlen key) branch newFlag))
                 }
           })
      | FullNode children flags \<Rightarrow>
          if length children \<le> unat (key ! 0) then Some (Inl Panic)
          else do {
            r \<leftarrow> insert_node db (children ! unat (key ! 0)) (pfx @ [key ! 0]) (drop 1 key) value;
            on_node r (\<lambda>(dirty, nn).
              if \<not> dirty then Inr (False, n)
              else Inr (True, FullNode (children[unat (key ! 0) := nn]) newFlag))
          }
      | NilNode \<Rightarrow> Some (Inr (True, ShortNode key value newFlag))
      | HashNode h \<Rightarrow>
          (case resolveHash db h pfx of
            Inl e \<Rightarrow> Some (Inl e)
          | Inr rn \<Rightarrow> do {
              r \<leftarrow> insert_node db rn pfx key value;
              on_node r (\<lambda>(dirty, nn). if \<not> dirty then Inr (False, rn) else Inr (True, nn))
            })
      | ValueNode v \<Rightarrow> Some (Inl Panic))"

subsection \<open>Deletion\<close>

text \<open>The scan for the only child: \<open>-1\<close> for no child, \<open>-2\<close> for several.\<close>

fun child_pos :: "nat \<Rightarrow> int \<Rightarrow> node list \<Rightarrow> int" where
  "child_pos i pos [] = pos"
| "child_pos i pos (cld # children) =
     (if cld \<noteq> NilNode then (if pos = -1 then child_pos (i + 1) (int i) children else -2)
      else child_pos (i + 1) pos children)"

definition concat_key :: "bytes \<Rightarrow> bytes \<Rightarrow> bytes" where
  "concat_key s1 s2 = s1 @ s2"

text \<open>What becomes of a full node after one of its children has changed.\<close>

definition reduce_full :: "node_db \<Rightarrow> node list \<Rightarrow> bytes \<Rightarrow> trie_error + bool \<times> node" where
  "reduce_full db children pfx =
     (let pos = child_pos 0 (-1) children in
      if 0 \<le> pos then
        (if pos \<noteq> 16 then
           (case resolve db (children ! nat pos) pfx of
             Inl e \<Rightarrow> Inl e
           | Inr cnode \<Rightarrow>
               (case cnode of
                 ShortNode cKey cVal _ \<Rightarrow> Inr (True, ShortNode (word_of_int pos # cKey) cVal newFlag)
               | _ \<Rightarrow> Inr (True, ShortNode [word_of_int pos] (children ! nat pos) newFlag)))
         else Inr (True, ShortNode [word_of_int pos] (children ! nat pos) newFlag))
      else Inr (True, FullNode children newFlag))"

partial_function (option) delete_node ::
  "node_db \<Rightarrow> node \<Rightarrow> bytes \<Rightarrow> bytes \<Rightarrow> (trie_error + bool \<times> node) option"
where
  "delete_node db n pfx key =
     (case n of
       ShortNode nKey nVal flags \<Rightarrow>
         (let matchlen = prefixLen key nKey in
          if matchlen < length nKey then Some (Inr (False, n))
          else if matchlen = length key then Some (Inr (True, NilNode))
          else do {
            r \<leftarrow> delete_node db nVal (pfx @ take (length nKey) key) (drop (length nKey) key);
            on_node r (\<lambda>(dirty, child).
              if \<not> dirty then Inr (False, n)
              else (case child of
                ShortNode cKey cVal _ \<Rightarrow> Inr (True, ShortNode (concat_key nKey cKey) cVal newFlag)
              | _ \<Rightarrow> Inr (True, ShortNode nKey child newFlag)))
          })
     | FullNode children flags \<Rightarrow>
         if length key = 0 \<or> length children \<le> unat (key ! 0) then Some (Inl Panic)
         else do {
           r \<leftarrow> delete_node db (children ! unat (key ! 0)) (pfx @ [key ! 0]) (drop 1 key);
           on_node r (\<lambda>(dirty, nn).
             if \<not> dirty then Inr (False, n)
             else reduce_full db (children[unat (key ! 0) := nn]) pfx)
         }
     | ValueNode v \<Rightarrow> Some (Inr (True, NilNode))
     | NilNode \<Rightarrow> Some (Inr (False, NilNode))
     | HashNode h \<Rightarrow>
         (case resolveHash db h pfx of
           Inl e \<Rightarrow> Some (Inl e)
         | Inr rn \<Rightarrow> do {
             r \<leftarrow> delete_node db rn pfx key;
             on_node r (\<lambda>(dirty, nn). if \<not> dirty then Inr (False, rn) else Inr (True, nn))
           }))"

subsection \<open>The trie\<close>

record Trie =
  root :: node
  unhashed :: nat

definition emptyRoot :: bytes where
  "emptyRoot =
     [0x56, 0xe8, 0x1f, 0x17, 0x1b, 0xcc, 0x55, 0xa6, 0xff, 0x83, 0x45, 0xe6, 0x92, 0xc0, 0xf8, 0x6e,
      0x5b, 0x48, 0xe0, 0x1b, 0x99, 0x6c, 0xad, 0xc0, 0x01, 0x62, 0x2f, 0xb5, 0xe3, 0x63, 0xb4, 0x21]"

text \<open>\<open>New\<close> over a database.\<close>

definition New :: "node_db \<Rightarrow> bytes \<Rightarrow> trie_error + Trie" where
  "New db hash =
     (if hash \<noteq> replicate 32 0 \<and> hash \<noteq> emptyRoot then
        (case resolveHash db hash [] of
          Inl e \<Rightarrow> Inl e
        | Inr rootnode \<Rightarrow> Inr \<lparr>root = rootnode, unhashed = 0\<rparr>)
      else Inr \<lparr>root = NilNode, unhashed = 0\<rparr>)"

definition TryGet :: "node_db \<Rightarrow> bytes \<Rightarrow> Trie \<Rightarrow> ((trie_error + bytes option) \<times> Trie) option" where
  "TryGet db key t = do {
     r \<leftarrow> tryGet db (root t) (keybytesToHex key) 0;
     case r of
       Inl e \<Rightarrow> Some (Inl e, t)
     | Inr (value, newroot, didResolve) \<Rightarrow>
         Some (Inr value, if didResolve then t\<lparr>root := newroot\<rparr> else t)
   }"

definition TryDelete :: "node_db \<Rightarrow> bytes \<Rightarrow> Trie \<Rightarrow> (trie_error option \<times> Trie) option" where
  "TryDelete db key t = do {
     let t = t\<lparr>unhashed := unhashed t + 1\<rparr>;
     r \<leftarrow> delete_node db (root t) [] (keybytesToHex key);
     case r of
       Inl e \<Rightarrow> Some (Some e, t)
     | Inr (_, n) \<Rightarrow> Some (None, t\<lparr>root := n\<rparr>)
   }"

definition TryUpdate :: "node_db \<Rightarrow> bytes \<Rightarrow> bytes \<Rightarrow> Trie \<Rightarrow> (trie_error option \<times> Trie) option" where
  "TryUpdate db key value t = do {
     let t = t\<lparr>unhashed := unhashed t + 1\<rparr>;
     let k = keybytesToHex key;
     r \<leftarrow> (if length value \<noteq> 0 then insert_node db (root t) [] k (ValueNode value)
           else delete_node db (root t) [] k);
     case r of
       Inl e \<Rightarrow> Some (Some e, t)
     | Inr (_, n) \<Rightarrow> Some (None, t\<lparr>root := n\<rparr>)
   }"

text \<open>\<open>Get\<close>, \<open>Update\<close> and \<open>Delete\<close> log an error and go on.\<close>

definition Get :: "node_db \<Rightarrow> bytes \<Rightarrow> Trie \<Rightarrow> (bytes option \<times> Trie) option" where
  "Get db key t =
     map_option (\<lambda>(r, t). (case r of Inl e \<Rightarrow> None | Inr v \<Rightarrow> v, t)) (TryGet db key t)"

definition Update :: "node_db \<Rightarrow> bytes \<Rightarrow> bytes \<Rightarrow> Trie \<Rightarrow> Trie option" where
  "Update db key value t = map_option snd (TryUpdate db key value t)"

definition Delete :: "node_db \<Rightarrow> bytes \<Rightarrow> Trie \<Rightarrow> Trie option" where
  "Delete db key t = map_option snd (TryDelete db key t)"

end
