(* ===== verification/Trie_Correct.thy ===== *)
theory Trie_Correct
  imports Trie_Core
begin

text \<open>
  The operations on partially loaded nodes implement those on trees: a node stands for the tree
  that reading every hash node from the database would give.
\<close>

subsection \<open>What a node stands for\<close>

text \<open>
  \<open>H r t\<close> is the hash a tree is known by, if it has one: the root (\<open>r\<close>) always has one, a tree below
  it has none if its encoding is short enough to be part of its parent's.  \<open>A t\<close> says that the
  tree is in the database.  A node stands at the root (\<open>Top\<close>) or under a parent, which has a
  cached hash or not.

  A cached hash must be the hash of the tree it is cached for, a node with a cached hash that is
  not dirty must be in the database, and under a parent with a cached hash every node that has a
  hash has it cached.  A hash node must be the hash of a tree that the database holds, and what
  the database holds under a hash is a short or a full node.
\<close>

type_synonym tree_hash = "bool \<Rightarrow> ptree \<Rightarrow> bytes option"

datatype place_in = Top | Under bool

fun weak :: "place_in \<Rightarrow> place_in" where
  "weak Top = Top"
| "weak (Under b) = Under False"

fun strong :: "place_in \<Rightarrow> place_in" where
  "strong Top = Top"
| "strong (Under b) = Under True"

fun stored :: "node \<Rightarrow> bool" where
  "stored (ShortNode k n f) = True"
| "stored (FullNode ns f) = True"
| "stored _ = False"

definition below :: "nodeFlag \<Rightarrow> place_in" where
  "below f = Under (nf_hash f \<noteq> None)"

definition flag_ok :: "tree_hash \<Rightarrow> (ptree \<Rightarrow> bool) \<Rightarrow> place_in \<Rightarrow> nodeFlag \<Rightarrow> ptree \<Rightarrow> bool" where
  "flag_ok H A c f t \<longleftrightarrow>
     (case nf_hash f of
       Some h \<Rightarrow> H (c = Top) t = Some h \<and> (nf_dirty f \<or> A t)
     | None \<Rightarrow> (c = Under True \<or> \<not> nf_dirty f \<longrightarrow> H False t = None) \<and> (c = Top \<longrightarrow> nf_dirty f))"

inductive expands ::
  "node_db \<Rightarrow> tree_hash \<Rightarrow> (ptree \<Rightarrow> bool) \<Rightarrow> place_in \<Rightarrow> node \<Rightarrow> ptree \<Rightarrow> bool"
  for db H A
where
  nil: "expands db H A c NilNode E"
| val: "expands db H A c (ValueNode v) (V v)"
| short: "expands db H A (below f) n t \<Longrightarrow> flag_ok H A c f (S k t) \<Longrightarrow>
    expands db H A c (ShortNode k n f) (S k t)"
| full: "list_all2 (expands db H A (below f)) ns ts \<Longrightarrow> flag_ok H A c f (F ts) \<Longrightarrow>
    expands db H A c (FullNode ns f) (F ts)"
| hash: "db (BytesToHash h) = Some n \<Longrightarrow> stored n \<Longrightarrow> expands db H A (strong c) n t \<Longrightarrow> H (c = Top) t = Some h \<Longrightarrow>
    A t \<Longrightarrow> expands db H A c (HashNode h) t"
monos list_all2_mono

inductive_cases expands_NilE: "expands db H A c NilNode t"
inductive_cases expands_ValE: "expands db H A c (ValueNode v) t"
inductive_cases expands_ShortE: "expands db H A c (ShortNode k n f) t"
inductive_cases expands_FullE: "expands db H A c (FullNode ns f) t"
inductive_cases expands_HashE: "expands db H A c (HashNode h) t"

inductive_cases expands_to_E: "expands db H A c n E"
inductive_cases expands_to_V: "expands db H A c n (V v)"

lemma flag_ok_new [simp]: "flag_ok H A c newFlag t \<longleftrightarrow> c \<noteq> Under True \<or> H False t = None"
  by (auto simp: flag_ok_def newFlag_def)

lemma below_new [simp]: "below newFlag = Under False"
  by (simp add: newFlag_def below_def)

text \<open>A node may lose its place under a parent with a cached hash.\<close>

lemma weak_strong [simp]:
  "weak c = Top \<longleftrightarrow> c = Top" "weak c \<noteq> Under True" "strong c = Top \<longleftrightarrow> c = Top"
  "strong (weak c) = strong c" "strong (strong c) = strong c" "weak (strong c) = weak c"
  by (cases c; simp)+

lemma flag_ok_weak: "flag_ok H A c f t \<Longrightarrow> flag_ok H A (weak c) f t"
  by (auto simp: flag_ok_def split: option.splits)

lemma flag_ok_strong: "flag_ok H A (strong c) f t \<Longrightarrow> flag_ok H A c f t"
  by (cases c) (auto simp: flag_ok_def split: option.splits)

lemma expands_weak: "expands db H A c n t \<Longrightarrow> expands db H A (weak c) n t"
proof (induction rule: expands.induct)
  case (full f ns ts c)
  have "list_all2 (expands db H A (below f)) ns ts" using full.IH by (rule list_all2_mono) simp
  then show ?case using flag_ok_weak [OF full.hyps] by (rule expands.full)
qed (auto intro: expands.intros flag_ok_weak)

lemma expands_strong: "expands db H A (strong c) n t \<Longrightarrow> expands db H A c n t"
proof (induction "strong c" n t rule: expands.induct)
  case (full f ns ts)
  have "list_all2 (expands db H A (below f)) ns ts" using full.hyps(1) by (rule list_all2_mono) simp
  then show ?case using flag_ok_strong [OF full.hyps(2)] by (rule expands.full)
qed (auto intro: expands.intros flag_ok_strong)

lemma weak_below [simp]: "weak (below f) = Under False"
  by (simp add: below_def)

lemma expands_below: "expands db H A (below f) n t \<Longrightarrow> expands db H A (Under False) n t"
  by (drule expands_weak) simp

lemma expands_short_new:
  "expands db H A (Under False) n t \<Longrightarrow> expands db H A (weak c) (ShortNode k n newFlag) (S k t)"
  by (rule expands.short) simp_all

lemma stored_expands: "expands db H A c n t \<Longrightarrow> stored n \<Longrightarrow> (\<exists>k u. t = S k u) \<or> (\<exists>ts. t = F ts)"
  by (induction rule: expands.induct) auto

lemma expands_nil_iff: "expands db H A c n t \<Longrightarrow> n = NilNode \<longleftrightarrow> t = E"
  by (induction rule: expands.induct) (auto dest: stored_expands)

lemma expands_val_iff: "expands db H A c n t \<Longrightarrow> n = ValueNode v \<longleftrightarrow> t = V v"
  by (induction rule: expands.induct) (auto dest: stored_expands)

subsection \<open>Lookup\<close>

lemma prefix_iff_take: "prefix k xs \<longleftrightarrow> length k \<le> length xs \<and> k = take (length k) xs"
proof
  assume "length k \<le> length xs \<and> k = take (length k) xs"
  then show "prefix k xs" by (metis take_is_prefix)
qed (auto simp: prefix_def)

lemma drop_Cons_nth:
  assumes "drop pos xs = x # ys"
  shows "pos < length xs" "xs ! pos = x" "drop (pos + 1) xs = ys"
proof -
  show "pos < length xs" using assms by (rule contrapos_pp) simp
  show "xs ! pos = x" using assms by (rule nth_via_drop)
  show "drop (pos + 1) xs = ys" using assms by (metis Suc_eq_plus1 drop_Suc list.sel(3) tl_drop)
qed

text \<open>
  Lookup with a database \<open>db'\<close> that may lack nodes of the complete database \<open>db\<close>: it returns what
  the tree holds, with a node that has more of the trie loaded and stands for the same tree, or
  it reports a hash that \<open>db'\<close> does not have.
\<close>

definition lookup_ok ::
  "node_db \<Rightarrow> node_db \<Rightarrow> tree_hash \<Rightarrow> (ptree \<Rightarrow> bool) \<Rightarrow> place_in \<Rightarrow> ptree \<Rightarrow> bytes \<Rightarrow>
    (trie_error + bytes option \<times> node \<times> bool) option \<Rightarrow> bool"
where
  "lookup_ok db db' H A c t key r \<longleftrightarrow>
     (\<exists>n' d. r = Some (Inr (get t key, n', d)) \<and> expands db H A c n' t) \<or>
     (\<exists>h p. r = Some (Inl (MissingNodeError h p)) \<and> db' h = None \<and> db h \<noteq> None)"

lemma lookup_ok_short:
  assumes "lookup_ok db db' H A (below f) t (drop (length k) key) r" and "expands db H A (below f) n t"
    and f: "flag_ok H A c f (S k t)" and "prefix k key"
  shows "lookup_ok db db' H A c (S k t) key (Option.bind r (\<lambda>r. on_node r (\<lambda>(value, newnode, didResolve).
    Inr (value, if didResolve then ShortNode k newnode f else ShortNode k n f, didResolve))))"
  using assms by (auto simp: lookup_ok_def on_node_def intro: expands.short)

lemma lookup_ok_full:
  assumes "lookup_ok db db' H A (below f) (ts ! unat x) k r" and L: "list_all2 (expands db H A (below f)) ns ts"
    and f: "flag_ok H A c f (F ts)" and "unat x < length ts"
  shows "lookup_ok db db' H A c (F ts) (x # k) (Option.bind r (\<lambda>r. on_node r (\<lambda>(value, newnode, didResolve).
    Inr (value, if didResolve then FullNode (ns[unat x := newnode]) f else FullNode ns f, didResolve))))"
proof -
  have "expands db H A c (FullNode (ns[unat x := n']) f) (F ts)" if "expands db H A (below f) n' (ts ! unat x)" for n'
    using list_all2_update_cong [OF L that, of "unat x"] f by (simp add: expands.full)
  then show ?thesis
    using assms expands.full [OF L f] by (auto simp: lookup_ok_def on_node_def)
qed

lemma tryGet_partial:
  assumes "expands db H A c n t" and "fits t (drop pos key)" and "pos \<le> length key" and sub: "db' \<subseteq>\<^sub>m db"
  shows "lookup_ok db db' H A c t (drop pos key) (tryGet db' n key pos)"
  using assms(1-3)
proof (induction arbitrary: pos rule: expands.induct)
  case nil
  then show ?case by (subst tryGet.simps) (auto simp: lookup_ok_def intro: expands.nil)
next
  case (val c v)
  then show ?case by (subst tryGet.simps) (auto simp: lookup_ok_def intro: expands.val)
next
  case (short f n t c k)
  let ?key = "drop pos key"
  have p: "(length key - pos < length k \<or> k \<noteq> take (length k) ?key) = (\<not> prefix k ?key)"
    using prefix_iff_take [of k ?key] by auto
  show ?case
  proof (cases "prefix k ?key")
    case True
    then have "fits t (drop (pos + length k) key)" "pos + length k \<le> length key"
      using fits_S(4) [OF short.prems(1)] short.prems(2) prefix_length_le [OF True]
      by (auto simp: add.commute)
    from short.IH [OF this]
    have "lookup_ok db db' H A (below f) t (drop (length k) ?key) (tryGet db' n key (pos + length k))"
      by (simp add: add.commute)
    from lookup_ok_short [OF this short.hyps True] True p show ?thesis
      by (subst tryGet.simps) simp
  next
    case False
    with p short show ?thesis by (subst tryGet.simps) (auto simp: lookup_ok_def intro: expands.short)
  qed
next
  case (full f ns ts c)
  obtain x k' where x: "drop pos key = x # k'" "unat x < 17" "length ts = 17" "fits (ts ! unat x) k'"
    using full.prems(1) by (rule fits_F)
  then have pos: "pos < length key" "key ! pos = x" "drop (pos + 1) key = k'"
    using drop_Cons_nth [OF x(1)] by simp_all
  have L: "list_all2 (expands db H A (below f)) ns ts"
    using full.IH by (rule list_all2_mono) simp
  have l: "length ns = 17" using list_all2_lengthD [OF L] x(3) by simp
  have "fits (ts ! unat x) (drop (pos + 1) key)" "pos + 1 \<le> length key" using x pos by simp_all
  with list_all2_nthD [OF full.IH, of "unat x"] x(2) l
  have "lookup_ok db db' H A (below f) (ts ! unat x) k' (tryGet db' (ns ! unat x) key (pos + 1))"
    using pos(3) by auto
  from lookup_ok_full [OF this L full.hyps] x pos l show ?case
    by (subst tryGet.simps) (simp add: split_def cong: if_cong)
next
  case (hash h n c t)
  show ?case
  proof (cases "db' (BytesToHash h)")
    case None
    with hash.hyps show ?thesis
      by (subst tryGet.simps) (auto simp: lookup_ok_def resolveHash_def)
  next
    case (Some m)
    with sub hash.hyps(1) have "m = n" by (auto simp: map_le_def dom_def)
    with Some hash.IH [OF hash.prems] show ?thesis
      by (subst tryGet.simps) (auto simp: lookup_ok_def resolveHash_def on_node_def intro: expands_strong)
  qed
qed

lemma tryGet_expands:
  assumes "expands db H A c n t" and "fits t (drop pos key)" and "pos \<le> length key"
  shows "\<exists>n' d. tryGet db n key pos = Some (Inr (get t (drop pos key), n', d)) \<and> expands db H A c n' t"
  using tryGet_partial [OF assms, of db] by (auto simp: lookup_ok_def)

subsection \<open>Insertion\<close>

lemma insert_node_nil:
  "insert_node db NilNode pfx key value =
     Some (Inr (True, if key = [] then value else ShortNode key value newFlag))"
  by (subst insert_node.simps) simp

lemma expands_mk_short:
  "expands db H A (Under False) n t \<Longrightarrow> expands db H A (Under False) (if key = [] then n else ShortNode key n newFlag) (mk_short key t)"
  by (simp add: mk_short_def expands.short)

lemma expands_fork:
  assumes "expands db H A (Under False) n t" and "expands db H A (Under False) n' t'"
  shows "expands db H A (weak c) (FullNode ((replicate 17 NilNode)[i := n, j := n']) newFlag)
    (F ((replicate 17 E)[i := t, j := t']))"
proof -
  have "list_all2 (expands db H A (Under False)) (replicate 17 NilNode) (replicate 17 E)"
    by (simp add: list_all2_conv_all_nth expands.nil)
  with assms show ?thesis by (auto intro!: expands.full list_all2_update_cong)
qed

lemma insert_expands_short:
  assumes e: "expands db H A (below f) n t" and "flag_ok H A c f (S nk t)" and fits: "fits (S nk t) key"
    and IH: "\<And>pfx r. fits t r \<Longrightarrow> \<exists>n'. insert_node db n pfx r (ValueNode v) =
      Some (Inr (get t r \<noteq> Some v, n')) \<and> expands db H A (Under False) n' (ins t r v)"
  shows "\<exists>n'. insert_node db (ShortNode nk n f) pfx key (ValueNode v) =
    Some (Inr (get (S nk t) key \<noteq> Some v, n')) \<and> expands db H A (weak c) n' (ins (S nk t) key v)"
  using fits
proof (cases rule: S_split)
  case (inside r)
  have ne: "key \<noteq> []" using fits_S(1) [OF fits] by auto
  from IH [OF inside(3)] obtain n' where
    "insert_node db n (pfx @ nk) r (ValueNode v) = Some (Inr (get t r \<noteq> Some v, n'))"
    "expands db H A (Under False) n' (ins t r v)" by blast
  moreover have "ins t r v = t" if "get t r = Some v" using inside(3) that by (rule ins_same)
  ultimately show ?thesis
    using inside ne e expands_weak [OF expands.short [OF e assms(2)]]
    by (subst insert_node.simps) (auto simp: on_node_def Let_def intro: expands.short)
next
  case (fork p x r y s)
  have "expands db H A (weak c') (FullNode ((replicate 17 NilNode)[unat y := if s = [] then n else ShortNode s n newFlag,
      unat x := if r = [] then ValueNode v else ShortNode r (ValueNode v) newFlag]) newFlag)
    (F ((replicate 17 E)[unat y := mk_short s t, unat x := mk_short r (V v)]))" for c'
    by (intro expands_fork expands_mk_short expands_below [OF e] expands.val)
  from this [of c] this [of "Under False"] fork show ?thesis
    by (subst insert_node.simps)
      (auto simp: on_node_def Let_def insert_node_nil nth_append mk_short_def intro: expands.short)
qed

lemma insert_expands:
  assumes "expands db H A c n t" and "fits t key"
  shows "\<exists>n'. insert_node db n pfx key (ValueNode v) = Some (Inr (get t key \<noteq> Some v, n')) \<and>
    expands db H A (weak c) n' (ins t key v)"
  using assms
proof (induction arbitrary: pfx key rule: expands.induct)
  case (nil c)
  show ?case by (auto simp: insert_node_nil mk_short_def intro: expands.intros)
next
  case (val c u)
  then show ?case by (subst insert_node.simps) (auto simp: fits_V intro: expands.val)
next
  case (short f n t c k)
  show ?case using short.IH by (intro insert_expands_short short.hyps short.prems) simp
next
  case (full f ns ts c)
  obtain x k' where x: "key = x # k'" "unat x < 17" "length ts = 17" "fits (ts ! unat x) k'"
    using full.prems(1) by (rule fits_F)
  have L: "list_all2 (expands db H A (below f)) ns ts"
    using full.IH by (rule list_all2_mono) simp
  have l: "length ns = 17" using list_all2_lengthD [OF L] x(3) by simp
  from list_all2_nthD [OF full.IH, of "unat x"] x l obtain n' where
    g: "insert_node db (ns ! unat x) (pfx @ [x]) k' (ValueNode v) =
        Some (Inr (get (ts ! unat x) k' \<noteq> Some v, n'))"
      "expands db H A (Under False) n' (ins (ts ! unat x) k' v)"
    by auto
  have L': "list_all2 (expands db H A (Under False)) ns ts" using L by (rule list_all2_mono) (rule expands_below)
  have "expands db H A (weak c) (FullNode (ns[unat x := n']) newFlag) (F (ts[unat x := ins (ts ! unat x) k' v]))"
    using list_all2_update_cong [OF L' g(2)] by (auto intro: expands.full)
  moreover have "expands db H A (weak c) (FullNode ns f) (F ts)"
    using L full.hyps by (intro expands_weak expands.full)
  ultimately show ?case
    using g(1) x l ins_same [OF x(4), of v] by (subst insert_node.simps) (auto simp: on_node_def)
next
  case (hash h n c t)
  have ne: "key \<noteq> []" using stored_expands [OF hash.hyps(3,2)] hash.prems by (auto simp: fits_def)
  from hash.IH [OF hash.prems] obtain n' where
    "insert_node db n pfx key (ValueNode v) = Some (Inr (get t key \<noteq> Some v, n'))"
    "expands db H A (weak c) n' (ins t key v)" unfolding weak_strong by blast
  with ne hash.hyps expands_weak [OF hash.hyps(3), unfolded weak_strong] ins_same [OF hash.prems, of v] show ?case
    by (subst insert_node.simps) (auto simp: resolveHash_def on_node_def)
qed

subsection \<open>Deletion\<close>

lemma child_pos_several: "p \<noteq> -1 \<Longrightarrow> child_pos i p ns = (if \<forall>n \<in> set ns. n = NilNode then p else -2)"
  by (induction i p ns rule: child_pos.induct) auto

lemma child_pos_occupied:
  "child_pos i (-1) ns =
     (case filter (\<lambda>j. ns ! j \<noteq> NilNode) [0..<length ns] of [] \<Rightarrow> -1 | [p] \<Rightarrow> int (i + p) | _ \<Rightarrow> -2)"
proof (induction ns arbitrary: i)
  case (Cons c cs)
  have e: "filter (\<lambda>j. (c # cs) ! j \<noteq> NilNode) [0..<length (c # cs)] =
    (if c \<noteq> NilNode then [0] else []) @ map Suc (filter (\<lambda>j. cs ! j \<noteq> NilNode) [0..<length cs])"
    by (simp add: upt_rec [of 0] map_Suc_upt [symmetric] filter_map o_def del: upt_Suc)
  have "filter (\<lambda>j. cs ! j \<noteq> NilNode) [0..<length cs] = [] \<longleftrightarrow> (\<forall>n \<in> set cs. n = NilNode)"
    by (auto simp: filter_empty_conv all_set_conv_all_nth)
  then show ?case
    unfolding e using Cons.IH [of "i + 1"] child_pos_several [of "int i" "i + 1" cs]
    by (auto split: list.splits)
qed simp

lemma occupied_expands:
  assumes "list_all2 (expands db H A c) ns ts"
  shows "filter (\<lambda>j. ns ! j \<noteq> NilNode) [0..<length ns] = occupied ts"
  using assms list_all2_lengthD [OF assms]
  by (auto simp: occupied_def expands_nil_iff list_all2_conv_all_nth intro!: filter_cong)

definition is_hash :: "node \<Rightarrow> bool" where
  "is_hash n \<longleftrightarrow> (\<exists>h. n = HashNode h)"

lemma expands_join:
  assumes "expands db H A (Under False) n t" and "\<not> is_hash n"
  shows "expands db H A (weak c) (case n of ShortNode cKey cVal _ \<Rightarrow> ShortNode (k @ cKey) cVal newFlag
    | _ \<Rightarrow> ShortNode k n newFlag) (join k t)"
  using assms
  by (cases rule: expands.cases)
    (auto simp: join_def is_hash_def intro!: expands_short_new intro: expands.intros expands_below)

lemma resolve_expands:
  assumes "expands db H A c n t"
  shows "\<exists>rn. resolve db n pfx = Inr rn \<and> expands db H A c rn t \<and> \<not> is_hash rn"
  using assms
  by (cases rule: expands.cases)
    (auto simp: resolve_def resolveHash_def is_hash_def intro: expands.intros expands_strong)

text \<open>A branch with one child left, that is not its value, takes over the key of a short child,
  which has to be read from the database for that.\<close>

lemma reduce_single:
  assumes "expands db H A (Under False) n t"
  shows "\<exists>n'. (case resolve db n pfx of
      Inl e \<Rightarrow> Inl e
    | Inr cnode \<Rightarrow>
        (case cnode of
          ShortNode cKey cVal _ \<Rightarrow> Inr (True, ShortNode (x # cKey) cVal newFlag)
        | _ \<Rightarrow> Inr (True, ShortNode [x] n newFlag))) = (Inr (True, n') :: trie_error + bool \<times> node) \<and>
    expands db H A (weak c) n' (join [x] t) \<and> \<not> is_hash n'"
proof -
  obtain rn where rn: "resolve db n pfx = Inr rn" "expands db H A (Under False) rn t" "\<not> is_hash rn"
    using resolve_expands [OF assms] by blast
  from rn(2) show ?thesis
  proof (cases rule: expands.cases)
    case (short f m u k)
    then show ?thesis using rn by (auto simp: join_def is_hash_def intro: expands_short_new expands_below)
  next
    case (hash h n)
    with rn show ?thesis by (simp add: is_hash_def)
  qed (use rn assms in \<open>auto simp: join_def is_hash_def intro: expands.short\<close>)
qed

lemma reduce_full_expands:
  assumes L: "list_all2 (expands db H A (Under False)) ns ts" and l: "length ts = 17" and v: "value_or_nil (ts ! 16)"
  shows "\<exists>n'. reduce_full db ns pfx = Inr (True, n') \<and> expands db H A (weak c) n' (shrink ts) \<and> \<not> is_hash n'"
proof -
  note cp = child_pos_occupied [of 0 ns, unfolded occupied_expands [OF L]]
  have F: "expands db H A (weak c) (FullNode ns newFlag) (F ts)" using L by (auto intro: expands.full)
  show ?thesis
  proof (cases "\<exists>pos. occupied ts = [pos]")
    case True
    then obtain pos where pos: "occupied ts = [pos]" ..
    note o = occupied_single [OF pos]
    have e: "expands db H A (Under False) (ns ! pos) (ts ! pos)"
      using list_all2_nthD2 [OF L o(1)] .
    show ?thesis
    proof (cases "pos = 16")
      case True
      with v e have "join [word_of_nat pos] (ts ! pos) = S [word_of_nat pos] (ts ! pos)"
        by (auto simp: join_def split: ptree.splits)
      with True pos cp e show ?thesis
        by (auto simp: reduce_full_def shrink_def is_hash_def intro: expands.short)
    next
      case False
      with pos cp reduce_single [OF e, where pfx = pfx and x = "word_of_nat pos"] show ?thesis
        by (simp add: reduce_full_def shrink_def Let_def cong: sum.case_cong node.case_cong)
    qed
  next
    case False
    then have "child_pos 0 (-1) ns < 0" "shrink ts = F ts"
      using cp by (auto simp: shrink_def split: list.splits)
    with F show ?thesis by (simp add: reduce_full_def is_hash_def)
  qed
qed

lemma delete_expands_short:
  assumes e: "expands db H A (below f) n t" and "flag_ok H A c f (S nk t)" and fits: "fits (S nk t) key"
    and IH: "\<And>pfx r. fits t r \<Longrightarrow> \<exists>n'. delete_node db n pfx r =
      Some (Inr (get t r \<noteq> None, n')) \<and> expands db H A (Under False) n' (del t r) \<and> (get t r \<noteq> None \<longrightarrow> \<not> is_hash n')"
  shows "\<exists>n'. delete_node db (ShortNode nk n f) pfx key =
    Some (Inr (get (S nk t) key \<noteq> None, n')) \<and> expands db H A (weak c) n' (del (S nk t) key) \<and>
    (get (S nk t) key \<noteq> None \<longrightarrow> \<not> is_hash n')"
  using fits
proof (cases rule: S_split)
  case (inside r)
  show ?thesis
  proof (cases "r = []")
    case True
    with inside S_not_E [OF fits_S(3) [OF fits]] obtain v where "t = V v"
      by (cases t) (auto simp: fits_def)
    with True inside show ?thesis
      by (subst delete_node.simps) (auto simp: is_hash_def intro: expands.nil)
  next
    case False
    from IH [OF inside(3)] obtain n' where n': "delete_node db n (pfx @ nk) r =
      Some (Inr (get t r \<noteq> None, n'))" "expands db H A (Under False) n' (del t r)" "get t r \<noteq> None \<longrightarrow> \<not> is_hash n'"
      by blast
    show ?thesis
    proof (cases "get t r")
      case None
      moreover have "join nk t = S nk t"
        using fits_S(3) [OF fits] by (auto simp: join_def split: ptree.splits)
      ultimately show ?thesis using False n' inside del_same [OF inside(3)]
          expands_weak [OF expands.short [OF e assms(2)]]
        by (subst delete_node.simps) (auto simp: on_node_def)
    next
      case (Some v)
      with n'(3) have "\<not> is_hash n'" by simp
      note j = expands_join [OF n'(2) this, where k = nk]
      then show ?thesis using False n'(1) inside Some
        by (subst delete_node.simps) (auto simp: on_node_def concat_key_def is_hash_def split: node.splits)
    qed
  qed
next
  case (fork p x r y s)
  with expands_weak [OF expands.short [OF e assms(2)]] show ?thesis
    by (subst delete_node.simps) (auto simp: Let_def)
qed

lemma value_or_nil_del: "value_or_nil t \<Longrightarrow> value_or_nil (del t k)"
  by (cases t) auto

lemma delete_expands:
  assumes "expands db H A c n t" and "fits t key"
  shows "\<exists>n'. delete_node db n pfx key = Some (Inr (get t key \<noteq> None, n')) \<and>
    expands db H A (weak c) n' (del t key) \<and> (get t key \<noteq> None \<longrightarrow> \<not> is_hash n')"
  using assms
proof (induction arbitrary: pfx key rule: expands.induct)
  case nil
  then show ?case by (subst delete_node.simps) (auto intro: expands.nil)
next
  case (val c u)
  then show ?case by (subst delete_node.simps) (auto simp: is_hash_def intro: expands.nil)
next
  case (short f n t c k)
  show ?case using short.IH by (intro delete_expands_short short.hyps short.prems) simp
next
  case (full f ns ts c)
  obtain x k' where x: "key = x # k'" "unat x < 17" "length ts = 17" "fits (ts ! unat x) k'"
    and c: "canon (F ts)"
    using full.prems(1) by (rule fits_F)
  have L: "list_all2 (expands db H A (below f)) ns ts"
    using full.IH by (rule list_all2_mono) simp
  have l: "length ns = 17" using list_all2_lengthD [OF L] x(3) by simp
  have "unat x < length ns" using x(2) l by simp
  from conjunct2 [OF list_all2_nthD [OF full.IH this]] x(4) obtain n' where
    g: "delete_node db (ns ! unat x) (pfx @ [x]) k' = Some (Inr (get (ts ! unat x) k' \<noteq> None, n'))"
      "expands db H A (Under False) n' (del (ts ! unat x) k')"
    unfolding weak_below by blast
  show ?case
  proof (cases "get (ts ! unat x) k'")
    case None
    have "expands db H A (weak c) (FullNode ns f) (F ts)"
      using L full.hyps by (intro expands_weak expands.full)
    moreover have "del (F ts) key = F ts" using x None full.prems by (intro del_same) simp_all
    ultimately show ?thesis
      using None g(1) x l by (subst delete_node.simps) (auto simp: on_node_def simp del: del.simps)
  next
    case (Some v)
    have L': "list_all2 (expands db H A (Under False)) ns ts" using L by (rule list_all2_mono) (rule expands_below)
    let ?ts = "ts[unat x := del (ts ! unat x) k']"
    have "value_or_nil (ts ! 16)" using c by (simp add: canon_F)
    with x have v: "value_or_nil (?ts ! 16)" by (simp add: nth_list_update value_or_nil_del)
    obtain m where "reduce_full db (ns[unat x := n']) pfx = Inr (True, m)" "expands db H A (weak c) m (shrink ?ts)"
      "\<not> is_hash m"
      using reduce_full_expands [OF list_all2_update_cong [OF L' g(2), of "unat x"] _ v] x by auto
    then show ?thesis
      using Some g(1) x l by (subst delete_node.simps) (simp add: on_node_def)
  qed
next
  case (hash h n c t)
  from hash.IH [OF hash.prems] obtain n' where
    "delete_node db n pfx key = Some (Inr (get t key \<noteq> None, n'))"
    "expands db H A (weak c) n' (del t key)" "get t key \<noteq> None \<longrightarrow> \<not> is_hash n'"
    unfolding weak_strong by blast
  with hash.hyps expands_weak [OF hash.hyps(3), unfolded weak_strong] del_same [OF hash.prems] show ?case
    by (subst delete_node.simps) (auto simp: resolveHash_def on_node_def)
qed

end
