(* ===== verification/Trie_Map.thy ===== *)
theory Trie_Map
  imports Trie_Correct
begin

text \<open>
  What the trie promises: it is a finite map from byte strings to non-empty byte strings.  The
  contract of such a store is a locale; the trie's operations are an instance of it.
\<close>

subsection \<open>The contract of a key-value store\<close>

datatype kv_op = Lookup bytes | Put bytes bytes | Remove bytes

definition map_put :: "bytes \<Rightarrow> bytes \<Rightarrow> (bytes \<rightharpoonup> bytes) \<Rightarrow> (bytes \<rightharpoonup> bytes)" where
  "map_put k v m = (if v = [] then m(k := None) else m(k \<mapsto> v))"

fun map_after :: "kv_op list \<Rightarrow> (bytes \<rightharpoonup> bytes) \<Rightarrow> (bytes \<rightharpoonup> bytes)" where
  "map_after [] m = m"
| "map_after (Lookup k # ops) m = map_after ops m"
| "map_after (Put k v # ops) m = map_after ops (map_put k v m)"
| "map_after (Remove k # ops) m = map_after ops (m(k := None))"

fun map_answers :: "kv_op list \<Rightarrow> (bytes \<rightharpoonup> bytes) \<Rightarrow> bytes option list" where
  "map_answers [] m = []"
| "map_answers (Lookup k # ops) m = m k # map_answers ops m"
| "map_answers (Put k v # ops) m = map_answers ops (map_put k v m)"
| "map_answers (Remove k # ops) m = map_answers ops (m(k := None))"

text \<open>A client: it runs a sequence of operations, collects the answers of its lookups and gives
  up at the first error.\<close>

fun run_ops ::
  "(bytes \<Rightarrow> 's \<Rightarrow> (('e + bytes option) \<times> 's) option) \<Rightarrow>
   (bytes \<Rightarrow> bytes \<Rightarrow> 's \<Rightarrow> ('e option \<times> 's) option) \<Rightarrow>
   (bytes \<Rightarrow> 's \<Rightarrow> ('e option \<times> 's) option) \<Rightarrow>
   kv_op list \<Rightarrow> 's \<Rightarrow> (('e + bytes option list) \<times> 's) option"
where
  "run_ops lookup update delete [] s = Some (Inr [], s)"
| "run_ops lookup update delete (Lookup k # ops) s =
     (case lookup k s of
       None \<Rightarrow> None
     | Some (Inl e, s) \<Rightarrow> Some (Inl e, s)
     | Some (Inr a, s) \<Rightarrow>
         map_option (\<lambda>(r, s). (map_sum id (\<lambda>as. a # as) r, s)) (run_ops lookup update delete ops s))"
| "run_ops lookup update delete (Put k v # ops) s =
     (case update k v s of
       None \<Rightarrow> None
     | Some (Some e, s) \<Rightarrow> Some (Inl e, s)
     | Some (None, s) \<Rightarrow> run_ops lookup update delete ops s)"
| "run_ops lookup update delete (Remove k # ops) s =
     (case delete k s of
       None \<Rightarrow> None
     | Some (Some e, s) \<Rightarrow> Some (Inl e, s)
     | Some (None, s) \<Rightarrow> run_ops lookup update delete ops s)"

locale kv_store =
  fixes rep :: "'s \<Rightarrow> (bytes \<rightharpoonup> bytes) \<Rightarrow> bool"
    and lookup :: "bytes \<Rightarrow> 's \<Rightarrow> (('e + bytes option) \<times> 's) option"
    and update :: "bytes \<Rightarrow> bytes \<Rightarrow> 's \<Rightarrow> ('e option \<times> 's) option"
    and delete :: "bytes \<Rightarrow> 's \<Rightarrow> ('e option \<times> 's) option"
  assumes lookup_rep: "rep s m \<Longrightarrow> \<exists>s'. lookup k s = Some (Inr (m k), s') \<and> rep s' m"
    and update_rep: "rep s m \<Longrightarrow> \<exists>s'. update k v s = Some (None, s') \<and> rep s' (map_put k v m)"
    and delete_rep: "rep s m \<Longrightarrow> \<exists>s'. delete k s = Some (None, s') \<and> rep s' (m(k := None))"
begin

lemma run_rep:
  assumes "rep s m"
  shows "\<exists>s'. run_ops lookup update delete ops s = Some (Inr (map_answers ops m), s') \<and>
    rep s' (map_after ops m)"
  using assms
proof (induction ops arbitrary: s m)
  case (Cons op ops)
  show ?case
  proof (cases op)
    case (Lookup k)
    with lookup_rep [OF Cons.prems, of k] Cons.IH [of _ m] show ?thesis by fastforce
  next
    case (Put k v)
    with update_rep [OF Cons.prems, of k v] Cons.IH [of _ "map_put k v m"] show ?thesis by fastforce
  next
    case (Remove k)
    with delete_rep [OF Cons.prems, of k] Cons.IH [of _ "m(k := None)"] show ?thesis by fastforce
  qed
qed simp

end

subsection \<open>The trie is one\<close>

text \<open>The tree of a map holds the map's values under the hexadecimal form of its keys and nothing
  else.\<close>

definition represents :: "ptree \<Rightarrow> (bytes \<rightharpoonup> bytes) \<Rightarrow> bool" where
  "represents t m \<longleftrightarrow> canon t \<and> (\<forall>key. get t (keybytesToHex key) = m key) \<and>
     (\<forall>k. tkey k \<longrightarrow> k \<notin> range keybytesToHex \<longrightarrow> get t k = None)"

definition holds :: "node_db \<Rightarrow> tree_hash \<Rightarrow> (ptree \<Rightarrow> bool) \<Rightarrow> Trie \<Rightarrow> (bytes \<rightharpoonup> bytes) \<Rightarrow> bool" where
  "holds db H A tr m \<longleftrightarrow> (\<exists>t. expands db H A Top (root tr) t \<and> represents t m)"

lemma represents_fits: "represents t m \<Longrightarrow> fits t (keybytesToHex key)"
  by (simp add: represents_def canon_fits keybytesToHex_tkey)

lemma represents_get: "represents t m \<Longrightarrow> get t (keybytesToHex key) = m key"
  by (simp add: represents_def)

lemma keybytesToHex_not_Nil [simp]: "keybytesToHex key \<noteq> []"
  using keybytesToHex_tkey [of key] by auto

lemma represents_empty: "represents E Map.empty"
  by (simp add: represents_def)

lemma represents_ins:
  assumes "represents t m" and "v \<noteq> []"
  shows "represents (ins t (keybytesToHex key) v) (m(key \<mapsto> v))"
proof -
  have "get (ins t (keybytesToHex key) v) k = (if k = keybytesToHex key then Some v else get t k)"
    if "tkey k" for k
    using that assms get_ins [OF represents_fits [OF assms(1), of key], of k v]
    by (cases "k = []") (auto simp: represents_def canon_fits)
  moreover have "canon (ins t (keybytesToHex key) v)"
    using canon_ins [OF represents_fits [OF assms(1)] assms(2)] by simp
  ultimately show ?thesis
    using assms(1) by (auto simp: represents_def keybytesToHex_inject keybytesToHex_tkey)
qed

lemma represents_del:
  assumes "represents t m"
  shows "represents (del t (keybytesToHex key)) (m(key := None))"
proof -
  have "get (del t (keybytesToHex key)) k = (if k = keybytesToHex key then None else get t k)"
    if "tkey k" for k
    using that assms get_del [OF represents_fits [OF assms(1), of key], of k]
    by (cases "k = []") (auto simp: represents_def canon_fits)
  moreover have "canon (del t (keybytesToHex key))"
    using canon_del [OF represents_fits [OF assms(1)]] by simp
  ultimately show ?thesis
    using assms(1) by (auto simp: represents_def keybytesToHex_inject keybytesToHex_tkey)
qed

text \<open>A map has one tree only, whatever the order in which its keys came in.\<close>

lemma represents_unique:
  assumes "represents t m" and "represents u m"
  shows "t = u"
proof (rule canon_unique)
  show "canon t" "canon u" using assms by (simp_all add: represents_def)
  show "same_keys t u"
    unfolding same_keys_def
  proof (intro allI impI)
    fix k
    assume "tkey k"
    then show "get t k = get u k"
      using assms by (cases "k \<in> range keybytesToHex") (auto simp: represents_def)
  qed
qed

lemma TryGet_holds:
  assumes "holds db H A tr m"
  shows "\<exists>tr'. TryGet db key tr = Some (Inr (m key), tr') \<and> holds db H A tr' m"
proof -
  from assms obtain t where t: "expands db H A Top (root tr) t" "represents t m" by (auto simp: holds_def)
  from tryGet_expands [OF t(1), of 0 "keybytesToHex key"] represents_fits [OF t(2)] obtain n' d where
    "tryGet db (root tr) (keybytesToHex key) 0 = Some (Inr (get t (keybytesToHex key), n', d))"
    "expands db H A Top n' t" by auto
  with t show ?thesis by (auto simp: TryGet_def holds_def represents_get)
qed

lemma TryDelete_holds:
  assumes "holds db H A tr m"
  shows "\<exists>tr'. TryDelete db key tr = Some (None, tr') \<and> holds db H A tr' (m(key := None))"
proof -
  from assms obtain t where t: "expands db H A Top (root tr) t" "represents t m" by (auto simp: holds_def)
  from delete_expands [OF t(1) represents_fits [OF t(2), of key], of "[]"]
    represents_del [OF t(2), of key]
  show ?thesis by (auto simp: TryDelete_def holds_def)
qed

lemma TryUpdate_holds:
  assumes "holds db H A tr m"
  shows "\<exists>tr'. TryUpdate db key v tr = Some (None, tr') \<and> holds db H A tr' (map_put key v m)"
proof -
  from assms obtain t where t: "expands db H A Top (root tr) t" "represents t m" by (auto simp: holds_def)
  show ?thesis
    using insert_expands [OF t(1) represents_fits [OF t(2), of key], of "[]" v]
      delete_expands [OF t(1) represents_fits [OF t(2), of key], of "[]"]
      represents_ins [OF t(2), of v key] represents_del [OF t(2), of key]
    by (auto simp: TryUpdate_def holds_def map_put_def)
qed

interpretation trie: kv_store "holds db H A" "TryGet db" "TryUpdate db" "TryDelete db" for db H A
  by unfold_locales (rule TryGet_holds TryUpdate_holds TryDelete_holds; assumption)+

lemma holds_New: "holds db H A \<lparr>root = NilNode, unhashed = 0\<rparr> Map.empty"
  using represents_empty by (auto simp: holds_def intro: expands.nil)

text \<open>
  C2: The trie is a map.  A client that runs any sequence of lookups, updates and deletions on a
  trie that stands for the map \<open>m\<close>, with parts of it still in the database, gets from its lookups
  exactly the answers of the map, never an error and never a panic, every operation returns, and
  the trie stands for the resulting map afterwards.
\<close>

theorem trie_refines_map:
  assumes "holds db H A tr m"
  shows "\<exists>tr'. run_ops (TryGet db) (TryUpdate db) (TryDelete db) ops tr = Some (Inr (map_answers ops m), tr') \<and>
    holds db H A tr' (map_after ops m)"
  using assms by (rule trie.run_rep)

definition sample_hash :: bytes where
  "sample_hash = replicate 32 7"

definition sample_db :: node_db where
  "sample_db = [sample_hash \<mapsto> ShortNode [1, 2, 16] (ValueNode [5]) newFlag]"

definition sample_trie :: Trie where
  "sample_trie = \<lparr>root = HashNode sample_hash, unhashed = 0\<rparr>"

lemma keybytesToHex_sample: "keybytesToHex [0x12] = [1, 2, 16]"
  by code_simp

lemma holds_sample: "holds sample_db (\<lambda>_ _. Some sample_hash) (\<lambda>_. True) sample_trie [[0x12] \<mapsto> [5]]"
proof -
  have k: "tkey [1, 2, 16]" using keybytesToHex_tkey [of "[0x12]"] keybytesToHex_sample by simp
  have "represents (S [1, 2, 16] (V [5])) [[0x12] \<mapsto> [5]]"
    using represents_ins [OF represents_empty, of "[5]" "[0x12]"] keybytesToHex_sample
    by (simp add: mk_short_def)
  moreover have "BytesToHash sample_hash = sample_hash" by code_simp
  then have "expands sample_db (\<lambda>_ _. Some sample_hash) (\<lambda>_. True) Top (HashNode sample_hash) (S [1, 2, 16] (V [5]))"
    by (auto simp: sample_db_def intro!: expands.hash expands.short expands.val)
  ultimately show ?thesis by (auto simp: holds_def sample_trie_def)
qed

theorem trie_refines_map_witness:
  "\<exists>tr'. run_ops (TryGet sample_db) (TryUpdate sample_db) (TryDelete sample_db)
       [Put [0x13] [6], Lookup [0x12], Remove [0x12], Lookup [0x12], Lookup [0x13]] sample_trie =
     Some (Inr [Some [5], None, Some [6]], tr')"
  using trie_refines_map [OF holds_sample, of
    "[Put [0x13] [6], Lookup [0x12], Remove [0x12], Lookup [0x12], Lookup [0x13]]"]
  by (auto simp: map_put_def)

text \<open>
  C25: A trie that starts empty needs nothing from the database: whatever the database, a sequence
  of operations on it answers like the empty map.
\<close>

theorem new_trie_refines_map:
  "\<exists>tr tr'. New db emptyRoot = Inr tr \<and>
     run_ops (TryGet db) (TryUpdate db) (TryDelete db) ops tr = Some (Inr (map_answers ops Map.empty), tr')"
  using trie.run_rep [OF holds_New, of db ops "\<lambda>_ _. None" "\<lambda>_. True"] by (auto simp: New_def)

text \<open>
  C26: A database that has lost nodes never leads to a wrong answer.  If the trie stands for \<open>m\<close>
  over the complete database, a lookup over any part of it either answers like \<open>m\<close> or reports a
  missing node, naming a hash that is really missing, and then leaves the trie as it was.
\<close>

theorem TryGet_partial_database:
  assumes "holds db H A tr m" and "db' \<subseteq>\<^sub>m db"
  shows "(\<exists>tr'. TryGet db' key tr = Some (Inr (m key), tr') \<and> holds db H A tr' m) \<or>
    (\<exists>h p. TryGet db' key tr = Some (Inl (MissingNodeError h p), tr) \<and> db' h = None \<and> db h \<noteq> None)"
proof -
  from assms(1) obtain t where t: "expands db H A Top (root tr) t" "represents t m" by (auto simp: holds_def)
  from tryGet_partial [OF t(1) _ _ assms(2), of 0 "keybytesToHex key"] represents_fits [OF t(2)]
  show ?thesis using t
    by (auto simp: lookup_ok_def TryGet_def holds_def represents_get)
qed

theorem TryGet_partial_database_witness:
  "\<exists>h p. TryGet Map.empty [0x12] sample_trie = Some (Inl (MissingNodeError h p), sample_trie)"
proof -
  have "tryGet Map.empty (HashNode sample_hash) key pos \<noteq> Some (Inr r)" for key pos r
    by (subst tryGet.simps) (simp add: resolveHash_def)
  then have "TryGet Map.empty [0x12] sample_trie \<noteq> Some (Inr v, tr')" for v tr'
    by (auto simp: TryGet_def sample_trie_def bind_eq_Some_conv split: sum.splits)
  with TryGet_partial_database [OF holds_sample, of Map.empty "[0x12]"] show ?thesis by auto
qed

end
