(* ===== verification/Trie_Hasher.thy ===== *)
theory Trie_Hasher
  imports Trie_Map Rlp_Encode_Correct
begin

text \<open>
  \<open>trie/hasher.go\<close>, the encoding of nodes in \<open>trie/node.go\<close> and \<open>Hash\<close> of \<open>trie/trie.go\<close>.  The
  hash function (Keccak-256) is a parameter \<open>K\<close>.  A panic is \<open>None\<close>.
\<close>

subsection \<open>Encoding a node\<close>

text \<open>
  A node as the encoder sees it: value and hash nodes are byte slices, a short node is a pointer
  to a struct with the two exported fields \<open>Key\<close> and \<open>Val\<close>, and the \<open>EncodeRLP\<close> method of a full
  node encodes its children as an array, with an empty value in the place of a nil.
\<close>

definition bytes_val :: "bytes \<Rightarrow> goval" where
  "bytes_val b = VIface (TSlice (TUint 8)) (VBytes b)"

definition shortNode_type :: gotype where
  "shortNode_type = TStruct [(TSlice (TUint 8), no_tags), (TInterface, no_tags)]"

fun node_val :: "node \<Rightarrow> goval" where
  "node_val NilNode = VNil"
| "node_val (ValueNode v) = bytes_val v"
| "node_val (HashNode h) = bytes_val h"
| "node_val (ShortNode k n f) = VIface (TPtr shortNode_type) (VPtr (VList [VBytes k, node_val n]))"
| "node_val (FullNode ns f) =
     VIface (TArray 17 TInterface)
       (VList (map (\<lambda>child. if child \<noteq> NilNode then node_val child else bytes_val []) ns))"

definition rlp_node :: "node \<Rightarrow> bytes option" where
  "rlp_node n = (case Encode TInterface (node_val n) of Some (Inr b) \<Rightarrow> Some b | _ \<Rightarrow> None)"

subsection \<open>The hasher\<close>

definition hashData :: "(bytes \<Rightarrow> bytes) \<Rightarrow> bytes \<Rightarrow> bytes" where
  "hashData K data = K data"

definition shortnodeToHash :: "(bytes \<Rightarrow> bytes) \<Rightarrow> node \<Rightarrow> bool \<Rightarrow> node option" where
  "shortnodeToHash K n force = do {
     tmp \<leftarrow> rlp_node n;
     if length tmp < 32 \<and> \<not> force then Some n else Some (HashNode (hashData K tmp))
   }"

definition fullnodeToHash :: "(bytes \<Rightarrow> bytes) \<Rightarrow> node \<Rightarrow> bool \<Rightarrow> node option" where
  "fullnodeToHash K n force = do {
     tmp \<leftarrow> rlp_node n;
     if length tmp < 32 \<and> \<not> force then Some n else Some (HashNode (hashData K tmp))
   }"

definition cached_flag :: "node \<Rightarrow> nodeFlag \<Rightarrow> nodeFlag" where
  "cached_flag hashed f = f\<lparr>nf_hash := (case hashed of HashNode hn \<Rightarrow> Some hn | _ \<Rightarrow> None)\<rparr>"

text \<open>\<open>hash_from\<close> is the loop of \<open>hashFullNodeChildren\<close> from child \<open>i\<close> on; the value at index 16
  is copied.\<close>

fun hash :: "(bytes \<Rightarrow> bytes) \<Rightarrow> node \<Rightarrow> bool \<Rightarrow> (node \<times> node) option"
  and hashShortNodeChildren :: "(bytes \<Rightarrow> bytes) \<Rightarrow> bytes \<Rightarrow> node \<Rightarrow> nodeFlag \<Rightarrow> (node \<times> node) option"
  and hash_from :: "(bytes \<Rightarrow> bytes) \<Rightarrow> nat \<Rightarrow> node list \<Rightarrow> (node list \<times> node list) option"
where
  "hash K NilNode force = None"
| "hash K (ValueNode v) force = Some (ValueNode v, ValueNode v)"
| "hash K (HashNode h) force = Some (HashNode h, HashNode h)"
| "hash K (ShortNode k v f) force =
     (case nf_hash f of
       Some h \<Rightarrow> Some (HashNode h, ShortNode k v f)
     | None \<Rightarrow> do {
         (collapsed, val) \<leftarrow> hashShortNodeChildren K k v f;
         hashed \<leftarrow> shortnodeToHash K collapsed force;
         Some (hashed, ShortNode k val (cached_flag hashed f))
       })"
| "hash K (FullNode ns f) force =
     (case nf_hash f of
       Some h \<Rightarrow> Some (HashNode h, FullNode ns f)
     | None \<Rightarrow> do {
         (collapsed, cached) \<leftarrow> hash_from K 0 ns;
         hashed \<leftarrow> fullnodeToHash K (FullNode collapsed f) force;
         Some (hashed, FullNode cached (cached_flag hashed f))
       })"
| "hashShortNodeChildren K k v f =
     (if stored v then do {
        (hashed, cached) \<leftarrow> hash K v False;
        Some (ShortNode (hexToCompact k) hashed f, cached)
      }
      else Some (ShortNode (hexToCompact k) v f, v))"
| "hash_from K i [] = Some ([], [])"
| "hash_from K i (child # children) = do {
     (x, y) \<leftarrow>
       (if i < 16 then if child \<noteq> NilNode then hash K child False else Some (ValueNode [], child)
        else Some (child, child));
     (xs, ys) \<leftarrow> hash_from K (i + 1) children;
     Some (x # xs, y # ys)
   }"

definition hashRoot :: "(bytes \<Rightarrow> bytes) \<Rightarrow> Trie \<Rightarrow> (node \<times> node \<times> Trie) option" where
  "hashRoot K t =
     (if root t = NilNode then Some (HashNode emptyRoot, NilNode, t)
      else do {
        (hashed, cached) \<leftarrow> hash K (root t) True;
        Some (hashed, cached, t\<lparr>unhashed := 0\<rparr>)
      })"

definition Hash :: "(bytes \<Rightarrow> bytes) \<Rightarrow> Trie \<Rightarrow> (bytes \<times> Trie) option" where
  "Hash K t = do {
     (hash, cached, t) \<leftarrow> hashRoot K t;
     case hash of
       HashNode h \<Rightarrow> Some (BytesToHash h, t\<lparr>root := cached\<rparr>)
     | _ \<Rightarrow> None
   }"

end
