(* ===== verification/Trie_Hash_Correct.thy ===== *)
theory Trie_Hash_Correct
  imports Trie_Hasher
begin

text \<open>
  The hash of a trie is a function of the map it stands for: it does not depend on which nodes
  are loaded, which hashes are cached, or in which order the entries came in.
\<close>

subsection \<open>The encoding of a tree\<close>

text \<open>A subtree whose encoding has 32 bytes or more is referred to by its hash, a shorter one is
  written out in its parent.\<close>

definition tree_ref :: "(bytes \<Rightarrow> bytes) \<Rightarrow> ptree \<Rightarrow> bytes \<Rightarrow> bytes" where
  "tree_ref K t e =
     (case t of S _ _ \<Rightarrow> if length e < 32 then e else enc_string (K e)
      | F _ \<Rightarrow> if length e < 32 then e else enc_string (K e)
      | _ \<Rightarrow> e)"

fun enc_tree :: "(bytes \<Rightarrow> bytes) \<Rightarrow> ptree \<Rightarrow> bytes" where
  "enc_tree K E = enc_string []"
| "enc_tree K (V v) = enc_string v"
| "enc_tree K (S k t) = enc_kind List (enc_string (hexToCompact k) @ tree_ref K t (enc_tree K t))"
| "enc_tree K (F ts) = enc_kind List (concat (map (\<lambda>t. tree_ref K t (enc_tree K t)) ts))"

abbreviation enc_ref :: "(bytes \<Rightarrow> bytes) \<Rightarrow> ptree \<Rightarrow> bytes" where
  "enc_ref K t \<equiv> tree_ref K t (enc_tree K t)"

definition hashes :: "(bytes \<Rightarrow> bytes) \<Rightarrow> tree_hash" where
  "hashes K lv t =
     (case t of
       S _ _ \<Rightarrow> if lv \<or> 32 \<le> length (enc_tree K t) then Some (K (enc_tree K t)) else None
     | F _ \<Rightarrow> if lv \<or> 32 \<le> length (enc_tree K t) then Some (K (enc_tree K t)) else None
     | _ \<Rightarrow> None)"

fun inner :: "ptree \<Rightarrow> bool" where
  "inner (S k t) = True"
| "inner (F ts) = True"
| "inner _ = False"

lemma hashes_inner:
  "inner t \<Longrightarrow> hashes K lv t = (if lv \<or> 32 \<le> length (enc_tree K t) then Some (K (enc_tree K t)) else None)"
  by (cases t) (simp_all add: hashes_def del: enc_tree.simps)

lemma enc_ref_inner:
  "inner t \<Longrightarrow> enc_ref K t = (case hashes K False t of Some h \<Rightarrow> enc_string h | None \<Rightarrow> enc_tree K t)"
  by (cases t) (simp_all add: tree_ref_def hashes_def del: enc_tree.simps)

fun enc_small :: "(bytes \<Rightarrow> bytes) \<Rightarrow> ptree \<Rightarrow> bool" where
  "enc_small K (S k t) \<longleftrightarrow> length (enc_tree K (S k t)) < 2 ^ 64 \<and> enc_small K t"
| "enc_small K (F ts) \<longleftrightarrow> length (enc_tree K (F ts)) < 2 ^ 64 \<and> list_all (enc_small K) ts"
| "enc_small K _ \<longleftrightarrow> True"

subsection \<open>The encoding of a node\<close>

fun enc_node :: "node \<Rightarrow> bytes" where
  "enc_node NilNode = enc_kind List []"
| "enc_node (ValueNode v) = enc_string v"
| "enc_node (HashNode h) = enc_string h"
| "enc_node (ShortNode k n f) = enc_kind List (enc_string k @ enc_node n)"
| "enc_node (FullNode ns f) =
     enc_kind List (concat (map (\<lambda>n. if n \<noteq> NilNode then enc_node n else enc_string []) ns))"

fun wide :: "node \<Rightarrow> bool" where
  "wide (ShortNode k n f) = wide n"
| "wide (FullNode ns f) = (length ns = 17 \<and> list_all wide ns)"
| "wide _ = True"

lemma enc_vals_map: "enc_vals t (map f xs) = concat (map (\<lambda>x. enc_val t no_tags (f x)) xs)"
  by (induction xs) auto

lemma have_type_map: "have_type t (map f xs) \<longleftrightarrow> list_all (\<lambda>x. has_type t (f x)) xs"
  by (induction xs) auto

lemma enc_node_val: "enc_val TInterface ts (node_val n) = enc_node n"
proof (induction n arbitrary: ts rule: node_val.induct)
  case (5 ns f)
  have "map (\<lambda>child. enc_val TInterface no_tags (if child \<noteq> NilNode then node_val child else bytes_val [])) ns =
      map (\<lambda>n. if n \<noteq> NilNode then enc_node n else enc_string []) ns"
    using "5.IH" by (intro map_cong) (auto simp: bytes_val_def)
  then show ?case by (simp add: enc_vals_map elem_type_def del: map_eq_conv) (simp add: no_tags_def)
qed (simp_all add: bytes_val_def shortNode_type_def enc_nil_def elem_type_def no_tags_def)

lemma has_type_node: "wide n \<Longrightarrow> has_type TInterface (node_val n)"
proof (induction n rule: node_val.induct)
  case (5 ns f)
  then show ?case by (auto simp: have_type_map list_all_iff isByte_def bytes_val_def)
qed (simp_all add: bytes_val_def shortNode_type_def isByte_def no_tags_def)

lemma rlp_node_enc:
  assumes "wide n" and "length (enc_node n) < 2 ^ 64"
  shows "rlp_node n = Some (enc_node n)"
  using Encode_enc_val [of TInterface "node_val n"] has_type_node [OF assms(1)] assms(2)
  by (simp add: rlp_node_def enc_node_val)

lemma nodeToHash_enc:
  assumes "wide n" and "length (enc_node n) < 2 ^ 64"
  shows "shortnodeToHash K n force =
      Some (if force \<or> 32 \<le> length (enc_node n) then HashNode (K (enc_node n)) else n)"
    and "fullnodeToHash K n force =
      Some (if force \<or> 32 \<le> length (enc_node n) then HashNode (K (enc_node n)) else n)"
  by (auto simp: shortnodeToHash_def fullnodeToHash_def rlp_node_enc [OF assms] hashData_def)

subsection \<open>Hashing a node\<close>

text \<open>\<open>refers K lv n t\<close>: the collapsed node \<open>n\<close> stands in its parent for the tree \<open>t\<close>.\<close>

definition refers :: "(bytes \<Rightarrow> bytes) \<Rightarrow> bool \<Rightarrow> node \<Rightarrow> ptree \<Rightarrow> bool" where
  "refers K lv n t \<longleftrightarrow>
     (case hashes K lv t of
       Some h \<Rightarrow> n = HashNode h
     | None \<Rightarrow> enc_node n = enc_tree K t \<and> wide n \<and> n \<noteq> NilNode \<and> \<not> is_hash n)"

lemma refers_enc:
  assumes "refers K False n t" and "inner t"
  shows "enc_node n = enc_ref K t" "wide n" "n \<noteq> NilNode"
  using assms by (auto simp: refers_def enc_ref_inner split: option.splits)

lemma nodeToHash_refers:
  assumes "enc_node n = enc_tree K t" and "wide n" and "stored n" and "inner t"
    and "length (enc_tree K t) < 2 ^ 64"
  shows "\<exists>x. shortnodeToHash K n lv = Some x \<and> refers K lv x t"
    and "\<exists>x. fullnodeToHash K n lv = Some x \<and> refers K lv x t"
proof -
  have "refers K lv (if lv \<or> 32 \<le> length (enc_node n) then HashNode (K (enc_node n)) else n) t"
    using assms by (cases n) (auto simp: refers_def hashes_inner is_hash_def)
  with nodeToHash_enc [OF assms(2)] assms(1,5)
  show "\<exists>x. shortnodeToHash K n lv = Some x \<and> refers K lv x t"
    and "\<exists>x. fullnodeToHash K n lv = Some x \<and> refers K lv x t" by simp_all
qed

lemma flag_ok_cached:
  assumes "flag_ok (hashes K) A c f t" and "nf_hash f = None" and "refers K (c = Top) n t"
  shows "flag_ok (hashes K) A (strong c) (cached_flag n f) t"
  using assms
  by (cases c) (auto simp: flag_ok_def cached_flag_def refers_def is_hash_def split: node.splits option.splits)

lemma below_Under [simp]: "below f \<noteq> Top" "strong (below f) = Under True"
  by (simp_all add: below_def)

lemma flag_ok_hashed: "flag_ok H A c f t \<Longrightarrow> nf_hash f = Some h \<Longrightarrow> flag_ok H A (strong c) f t"
  by (simp add: flag_ok_def)

lemma expands_hashed: "expands db H A (Under True) n t \<Longrightarrow> expands db H A (below f) n t"
  using expands_weak [of db H A "Under True" n t] by (cases "nf_hash f") (simp_all add: below_def)

definition hashed_ok ::
  "node_db \<Rightarrow> (ptree \<Rightarrow> bool) \<Rightarrow> (bytes \<Rightarrow> bytes) \<Rightarrow> place_in \<Rightarrow> ptree \<Rightarrow> (node \<times> node) option \<Rightarrow> bool"
where
  "hashed_ok db A K c t r \<longleftrightarrow>
     (\<exists>hashed cached. r = Some (hashed, cached) \<and> refers K (c = Top) hashed t \<and>
       expands db (hashes K) A (strong c) cached t)"

text \<open>The children of a full node from index \<open>i\<close> on.\<close>

lemma hash_from_ok:
  assumes "list_all2 (\<lambda>n t. expands db (hashes K) A (below g) n t \<and>
      (inner t \<longrightarrow> hashed_ok db A K (below g) t (hash K n False))) ns ts"
    and "i + length ts = 17" and "ts \<noteq> [] \<longrightarrow> value_or_nil (last ts)"
    and "list_all (\<lambda>t. t \<noteq> E \<longrightarrow> inner t) (butlast ts)"
  shows "\<exists>xs ys. hash_from K i ns = Some (xs, ys) \<and> list_all2 (expands db (hashes K) A (Under True)) ys ts \<and>
    length xs = length ts \<and> list_all wide xs \<and>
    concat (map (\<lambda>n. if n \<noteq> NilNode then enc_node n else enc_string []) xs) = concat (map (enc_ref K) ts)"
  using assms
proof (induction ts arbitrary: i ns rule: list.induct)
  case (Cons t ts)
  from Cons.prems(1) obtain n ns' where ns: "ns = n # ns'" and n: "expands db (hashes K) A (below g) n t"
    and h: "inner t \<longrightarrow> hashed_ok db A K (below g) t (hash K n False)"
    and l: "list_all2 (\<lambda>n t. expands db (hashes K) A (below g) n t \<and>
      (inner t \<longrightarrow> hashed_ok db A K (below g) t (hash K n False))) ns' ts"
    by (auto simp: list_all2_Cons2)
  have i: "i < 16 \<longleftrightarrow> ts \<noteq> []" using Cons.prems(2) by (cases ts) auto
  have c: "\<exists>x y. (if i < 16 then if n \<noteq> NilNode then hash K n False else Some (ValueNode [], n)
        else Some (n, n)) = Some (x, y) \<and> expands db (hashes K) A (Under True) y t \<and> wide x \<and>
      (if x \<noteq> NilNode then enc_node x else enc_string []) = enc_ref K t"
  proof (cases "i < 16")
    case True
    then have t: "t \<noteq> E \<longrightarrow> inner t" using Cons.prems(4) i by simp
    show ?thesis
    proof (cases "t = E")
      case False
      with t h obtain x y where "hash K n False = Some (x, y)" "refers K False x t"
        "expands db (hashes K) A (Under True) y t" by (auto simp: hashed_ok_def)
      with False True t n expands_nil_iff [OF n] refers_enc [of K x t] show ?thesis by auto
    next
      case True
      with \<open>i < 16\<close> expands_nil_iff [OF n] show ?thesis by (auto simp: tree_ref_def intro: expands.nil)
    qed
  next
    case False
    then have "value_or_nil t" using Cons.prems(3) i by simp
    then consider "t = E" "n = NilNode" | v where "t = V v" "n = ValueNode v"
      using expands_nil_iff [OF n] expands_val_iff [OF n] by (cases t) auto
    then show ?thesis using False by cases (auto simp: tree_ref_def intro: expands.nil expands.val)
  qed
  have "\<exists>xs ys. hash_from K (i + 1) ns' = Some (xs, ys) \<and> list_all2 (expands db (hashes K) A (Under True)) ys ts \<and>
    length xs = length ts \<and> list_all wide xs \<and>
    concat (map (\<lambda>n. if n \<noteq> NilNode then enc_node n else enc_string []) xs) = concat (map (enc_ref K) ts)"
    using Cons.prems by (intro Cons.IH l) (auto split: if_splits)
  with c show ?case unfolding ns by auto
qed auto

lemma hashShortNodeChildren_ok:
  assumes n: "expands db (hashes K) A (below g) n t" and IH: "inner t \<longrightarrow> hashed_ok db A K (below g) t (hash K n False)"
    and t: "inner t \<or> (\<exists>v. t = V v)"
  shows "\<exists>c y. hashShortNodeChildren K k n f = Some (ShortNode (hexToCompact k) c f, y) \<and>
    enc_node c = enc_ref K t \<and> wide c \<and> expands db (hashes K) A (Under True) y t"
proof (cases "inner t")
  case True
  with IH obtain c y where c: "hash K n False = Some (c, y)" "refers K False c t"
    "expands db (hashes K) A (Under True) y t" by (auto simp: hashed_ok_def)
  note e = refers_enc [OF c(2) True]
  show ?thesis
  proof (cases "stored n")
    case True
    with c e show ?thesis by simp
  next
    case False
    with n \<open>inner t\<close> have "is_hash n" by (cases rule: expands.cases) (auto simp: is_hash_def)
    with c have "c = n" "y = n" by (auto simp: is_hash_def)
    with False c e show ?thesis by simp
  qed
next
  case False
  with t obtain v where "t = V v" by blast
  with expands_val_iff [OF n, of v] show ?thesis by (simp add: tree_ref_def expands.val)
qed

lemma hash_expands:
  assumes "expands db (hashes K) A c n t" and "canon t" and "inner t" and "enc_small K t"
  shows "hashed_ok db A K c t (hash K n (c = Top))"
  using assms
proof (induction rule: expands.induct)
  case (short f n t c k)
  show ?case
  proof (cases "nf_hash f")
    case None
    have t: "inner t \<or> (\<exists>v. t = V v)" "inner t \<longrightarrow> canon t"
      using short.prems(1) by (auto split: ptree.splits)
    with short.IH short.prems(3) have "inner t \<longrightarrow> hashed_ok db A K (below f) t (hash K n False)" by simp
    from hashShortNodeChildren_ok [OF short.hyps(1) this t(1), of k f] obtain x y where
      x: "hashShortNodeChildren K k n f = Some (ShortNode (hexToCompact k) x f, y)"
      "enc_node x = enc_ref K t" "wide x" "expands db (hashes K) A (Under True) y t" by blast
    let ?n = "ShortNode (hexToCompact k) x f"
    have "enc_node ?n = enc_tree K (S k t)" "wide ?n" using x by simp_all
    with nodeToHash_refers(1) [of ?n K "S k t" "c = Top"] short.prems(3) obtain z where
      z: "shortnodeToHash K ?n (c = Top) = Some z" "refers K (c = Top) z (S k t)" by auto
    have "expands db (hashes K) A (strong c) (ShortNode k y (cached_flag z f)) (S k t)"
      using expands_hashed [OF x(4)] flag_ok_cached [OF short.hyps(2) None z(2)] by (rule expands.short)
    with None x(1) z show ?thesis
      by (simp add: hashed_ok_def del: hashShortNodeChildren.simps)
  next
    case (Some h)
    with expands.short [OF short.hyps(1) flag_ok_hashed [OF short.hyps(2) Some]] short.hyps(2)
    show ?thesis by (auto simp: hashed_ok_def refers_def flag_ok_def)
  qed
next
  case (full f ns ts c)
  have L: "list_all2 (expands db (hashes K) A (below f)) ns ts"
    using full.IH by (rule list_all2_mono) simp
  show ?case
  proof (cases "nf_hash f")
    case None
    note cF = full.prems(1) [unfolded canon_F]
    have c16: "t \<noteq> E \<longrightarrow> inner t" if "canon t" for t using that by (cases t) auto
    have "list_all2 (\<lambda>n t. expands db (hashes K) A (below f) n t \<and>
        (inner t \<longrightarrow> hashed_ok db A K (below f) t (hash K n False))) ns ts"
      unfolding list_all2_conv_all_nth
    proof (intro conjI allI impI)
      show "length ns = length ts" using L by (rule list_all2_lengthD)
      fix i
      assume i: "i < length ns"
      then show "expands db (hashes K) A (below f) (ns ! i) (ts ! i)" using L by (simp add: list_all2_nthD)
      assume inn: "inner (ts ! i)"
      have "i < length ts" using i list_all2_lengthD [OF L] by simp
      moreover have "i \<noteq> 16" using inn cF by (cases "ts ! 16") auto
      ultimately have "canon (ts ! i)" "enc_small K (ts ! i)"
        using cF full.prems(3) by (auto simp: list_all_length)
      with list_all2_nthD [OF full.IH i] inn
      show "hashed_ok db A K (below f) (ts ! i) (hash K (ns ! i) False)" by simp
    qed
    moreover have "ts \<noteq> [] \<longrightarrow> value_or_nil (last ts)" using cF by (auto simp: last_conv_nth)
    moreover have "list_all (\<lambda>t. t \<noteq> E \<longrightarrow> inner t) (butlast ts)"
      using cF c16 by (auto simp: list_all_length nth_butlast)
    ultimately obtain xs ys where x: "hash_from K 0 ns = Some (xs, ys)"
      "list_all2 (expands db (hashes K) A (Under True)) ys ts" "length xs = length ts" "list_all wide xs"
      "concat (map (\<lambda>n. if n \<noteq> NilNode then enc_node n else enc_string []) xs) = concat (map (enc_ref K) ts)"
      using hash_from_ok [of db K A f ns ts 0] cF by auto
    have "enc_node (FullNode xs f) = enc_tree K (F ts)" "wide (FullNode xs f)" using x cF by simp_all
    with nodeToHash_refers(2) [of "FullNode xs f" K "F ts" "c = Top"] full.prems(3) obtain z where
      z: "fullnodeToHash K (FullNode xs f) (c = Top) = Some z" "refers K (c = Top) z (F ts)" by auto
    have "list_all2 (expands db (hashes K) A (below (cached_flag z f))) ys ts"
      using x(2) by (rule list_all2_mono) (rule expands_hashed)
    then have "expands db (hashes K) A (strong c) (FullNode ys (cached_flag z f)) (F ts)"
      using flag_ok_cached [OF full.hyps None z(2)] by (rule expands.full)
    with None x(1) z show ?thesis by (simp add: hashed_ok_def)
  next
    case (Some h)
    with expands.full [OF L flag_ok_hashed [OF full.hyps Some]] full.hyps
    show ?thesis by (auto simp: hashed_ok_def refers_def flag_ok_def)
  qed
next
  case (hash h n c t)
  then show ?case by (auto simp: hashed_ok_def refers_def intro!: expands.hash)
qed simp_all

subsection \<open>Sizes\<close>

fun bounded :: "nat \<Rightarrow> ptree \<Rightarrow> bool" where
  "bounded N E \<longleftrightarrow> True"
| "bounded N (V v) \<longleftrightarrow> length v \<le> N"
| "bounded N (S k t) \<longleftrightarrow> length k \<le> N \<and> bounded N t"
| "bounded N (F ts) \<longleftrightarrow> list_all (bounded N) ts"

lemma length_enc_list: "length (enc_kind List c) \<le> length c + 9"
  using headsize_le9 [of "len64 c"] by (simp add: length_head_bytes)

lemma length_enc_string_le: "length (enc_string c) \<le> length c + 9"
  using headsize_le9 [of "len64 c"] by (simp add: enc_string_def length_head_bytes)

lemma length_hexToCompact: "length (hexToCompact k) \<le> length k + 1"
  by (auto simp: hexToCompact_def Let_def length_decodeNibbles intro!: order_trans [OF div_le_dividend])

definition digest32 :: "(bytes \<Rightarrow> bytes) \<Rightarrow> bool" where
  "digest32 K \<longleftrightarrow> (\<forall>x. length (K x) = 32)"

lemma digest32D: "digest32 K \<Longrightarrow> length (K x) = 32"
  by (simp add: digest32_def)

lemma length_enc_ref:
  assumes "digest32 K" and "bounded N t"
  shows "length (enc_ref K t) \<le> N + 41"
  using assms(2) length_enc_string_le [of "K (enc_tree K t)"] digest32D [OF assms(1)] length_enc_string_le [of "[]"]
  by (cases t) (auto simp: tree_ref_def simp del: enc_tree.simps(3,4) intro: order_trans [OF length_enc_string_le])

lemma length_concat_le:
  "list_all (\<lambda>x. length (f x) \<le> b) xs \<Longrightarrow> length (concat (map f xs)) \<le> length xs * b"
  by (induction xs) auto

lemma bounded_enc_small:
  assumes K: "digest32 K" and "canon t \<or> value_or_nil t" and "bounded N t" and N: "N \<le> 2 ^ 32"
  shows "enc_small K t"
  using assms(2,3)
proof (induction t)
  case (S k t)
  have "length (enc_tree K (S k t)) \<le> length (enc_string (hexToCompact k)) + length (enc_ref K t) + 9"
    using length_enc_list [of "enc_string (hexToCompact k) @ enc_ref K t"] by simp
  moreover have "length (enc_string (hexToCompact k)) \<le> N + 10"
    using length_enc_string_le [of "hexToCompact k"] length_hexToCompact [of k] S.prems by simp
  moreover have "length (enc_ref K t) \<le> N + 41"
    using length_enc_ref [of K N t] K S.prems by simp
  ultimately have "length (enc_tree K (S k t)) \<le> 2 * N + 60" by linarith
  also have "\<dots> < 2 ^ 64" using N by simp
  finally have "length (enc_tree K (S k t)) < 2 ^ 64" .
  moreover have "canon t \<or> value_or_nil t" using S.prems by (auto split: ptree.splits)
  ultimately show ?case using S by (simp del: enc_tree.simps)
next
  case (F ts)
  then have c: "canon (F ts)" by simp
  then have l: "length ts = 17" by (simp add: canon_F)
  have "length (enc_tree K (F ts)) \<le> length (concat (map (enc_ref K) ts)) + 9"
    using length_enc_list [of "concat (map (enc_ref K) ts)"] by simp
  also have "length (concat (map (enc_ref K) ts)) \<le> length ts * (N + 41)"
    using F.prems length_enc_ref [of K N] K by (intro length_concat_le) (auto simp: list_all_iff)
  finally have "length (enc_tree K (F ts)) \<le> 17 * (N + 41) + 9" using l by simp
  also have "\<dots> < 2 ^ 64" using N by simp
  finally have "length (enc_tree K (F ts)) < 2 ^ 64" .
  moreover have "enc_small K t" if "t \<in> set ts" for t
  proof -
    from that obtain i where i: "i < 17" "t = ts ! i" using l by (auto simp: in_set_conv_nth)
    with canon_child(2) [OF c i(1)] have "canon t \<or> value_or_nil t" by (auto split: if_splits)
    with F.IH [OF that] F.prems that show ?thesis by (simp add: list_all_iff)
  qed
  ultimately show ?case by (simp add: list_all_iff del: enc_tree.simps)
qed auto

text \<open>The keys and values of a tree bound what its nodes carry.\<close>

lemma bounded_keys:
  assumes "canon t" and "\<And>k v. tkey k \<Longrightarrow> get t k = Some v \<Longrightarrow> length k \<le> N \<and> length v \<le> N"
  shows "bounded N t"
  using assms
proof (induction t)
  case (S nk t)
  show ?case
  proof (cases t)
    case (V v)
    with S.prems(1) S.prems(2) [of nk v] show ?thesis by simp
  next
    case (F ts)
    then have c: "canon t" "nibbles nk" using S.prems(1) by auto
    have k: "length (nk @ k) \<le> N \<and> length v \<le> N" if "tkey k" "get t k = Some v" for k v
      using that c by (intro S.prems(2)) (simp_all add: tkey_appendI)
    obtain k v where "tkey k" "get t k = Some v"
      using canon_nonempty [OF c(1)] F by auto
    with k [of k v] have "length nk \<le> N" by simp
    moreover have "bounded N t" using k by (intro S.IH c(1)) fastforce
    ultimately show ?thesis by simp
  qed (use S.prems in auto)
next
  case (F ts)
  note c = F.prems(1) [unfolded canon_F]
  have "bounded N (ts ! i)" if i: "i < 17" for i
  proof (cases "i < 16")
    case True
    have "length k \<le> N \<and> length v \<le> N" if "tkey k" "get (ts ! i) k = Some v" for k v
    proof -
      have u: "unat (word_of_nat i :: byte) = i" using i by (rule unat_small)
      then have "tkey (word_of_nat i # k)"
        using True that by (auto simp: tkey_Cons nibble_def word_less_nat_alt)
      then show ?thesis using F.prems(2) [of "word_of_nat i # k" v] u i that c by simp
    qed
    with True c F.IH [of "ts ! i"] show ?thesis by simp
  next
    case False
    then have "i = 16" "tkey [16]" using i by (auto simp: tkey_def)
    with c F.prems(2) [of "[16]"] show ?thesis by (cases "ts ! 16") auto
  qed
  with c show ?case by (simp add: list_all_length)
qed auto

lemma represents_bounded:
  assumes "represents t m" and "\<And>k v. m k = Some v \<Longrightarrow> 2 * length k < N \<and> length v \<le> N"
  shows "bounded N t"
proof (rule bounded_keys)
  show "canon t" using assms(1) by (simp add: represents_def)
  fix k v
  assume k: "tkey k" "get t k = Some v"
  then obtain key where "k = keybytesToHex key" using assms(1) by (fastforce simp: represents_def)
  with k assms(1) have "m key = Some v" "length k = 2 * length key + 1"
    by (auto simp: represents_def keybytesToHex_nibbles length_to_nibbles)
  with assms(2) [of key v] show "length k \<le> N \<and> length v \<le> N" by simp
qed

subsection \<open>The hash of a trie\<close>

definition root_hash :: "(bytes \<Rightarrow> bytes) \<Rightarrow> ptree \<Rightarrow> bytes" where
  "root_hash K t = (if t = E then emptyRoot else K (enc_tree K t))"

definition small_map :: "(bytes \<rightharpoonup> bytes) \<Rightarrow> bool" where
  "small_map m \<longleftrightarrow> (\<forall>k v. m k = Some v \<longrightarrow> length k < 2 ^ 30 \<and> length v < 2 ^ 30)"

lemma canon_inner: "canon t \<Longrightarrow> t = E \<or> inner t"
  by (cases t) auto

lemma BytesToHash_32: "length h = 32 \<Longrightarrow> BytesToHash h = h"
  by (simp add: BytesToHash_def)

lemma represents_enc_small:
  assumes "digest32 K" and "represents t m" and "small_map m"
  shows "enc_small K t"
proof (rule bounded_enc_small [OF assms(1)])
  show "canon t \<or> value_or_nil t" using assms(2) by (simp add: represents_def)
  show "bounded (2 ^ 31) t"
    using assms(3) by (intro represents_bounded [OF assms(2)]) (auto simp: small_map_def dest!: spec)
qed simp

lemma Hash_holds:
  assumes K: "digest32 K" and tr: "expands db (hashes K) A Top (root tr) t"
    and m: "represents t m" "small_map m"
  shows "\<exists>tr'. Hash K tr = Some (root_hash K t, tr') \<and> expands db (hashes K) A Top (root tr') t"
proof (cases "t = E")
  case True
  with expands_nil_iff [OF tr] have "root tr = NilNode" by simp
  moreover have "BytesToHash emptyRoot = emptyRoot" by (rule BytesToHash_32) (simp add: emptyRoot_def)
  ultimately show ?thesis using True tr by (simp add: Hash_def hashRoot_def root_hash_def)
next
  case False
  have c: "canon t" using m(1) by (simp add: represents_def)
  with False have i: "inner t" using canon_inner by blast
  from hash_expands [OF tr c i represents_enc_small [OF K m]] obtain cached where
    "hash K (root tr) True = Some (HashNode (K (enc_tree K t)), cached)"
    "expands db (hashes K) A Top cached t"
    using i by (auto simp: hashed_ok_def refers_def hashes_inner)
  with False expands_nil_iff [OF tr] show ?thesis
    by (simp add: Hash_def hashRoot_def root_hash_def BytesToHash_32 digest32D [OF K])
qed

text \<open>
  C11: The hash of a trie is a function of the map it stands for.  Two tries over any two
  databases that stand for the same map, whatever parts of them are loaded, whatever hashes are
  cached in their nodes and whatever sequence of operations led to them, have the same \<open>Hash\<close>,
  and hashing changes the map of neither.
\<close>

theorem Hash_function_of_map:
  assumes "digest32 K" and "small_map m"
    and "holds db (hashes K) A tr m" and "holds db' (hashes K) A' tr' m"
  shows "\<exists>h s s'. Hash K tr = Some (h, s) \<and> Hash K tr' = Some (h, s') \<and>
    holds db (hashes K) A s m \<and> holds db' (hashes K) A' s' m"
proof -
  from assms(3,4) obtain t u where t: "expands db (hashes K) A Top (root tr) t" "represents t m"
    and u: "expands db' (hashes K) A' Top (root tr') u" "represents u m" by (auto simp: holds_def)
  have "u = t" using u(2) t(2) by (rule represents_unique)
  with Hash_holds [OF assms(1) t assms(2)] Hash_holds [OF assms(1) u assms(2)] t(2)
  show ?thesis by (auto simp: holds_def)
qed

definition sample_K :: "bytes \<Rightarrow> bytes" where
  "sample_K x = sample_hash"

lemma sample_tree: "represents (S [1, 2, 16] (V [5])) [[0x12] \<mapsto> [5]]"
  using represents_ins [OF represents_empty, of "[5]" "[0x12]"] keybytesToHex_sample
  by (simp add: mk_short_def)

lemma holds_sample_K:
  "holds sample_db (hashes sample_K) (\<lambda>_. True) sample_trie [[0x12] \<mapsto> [5]]"
  "holds Map.empty (hashes sample_K) (\<lambda>_. True)
     \<lparr>root = ShortNode [1, 2, 16] (ValueNode [5]) newFlag, unhashed = 1\<rparr> [[0x12] \<mapsto> [5]]"
proof -
  have "BytesToHash sample_hash = sample_hash" by (rule BytesToHash_32) (simp add: sample_hash_def)
  then have "expands sample_db (hashes sample_K) (\<lambda>_. True) Top (HashNode sample_hash) (S [1, 2, 16] (V [5]))"
    by (auto simp: sample_db_def sample_K_def hashes_inner intro!: expands.hash expands.short expands.val)
  with sample_tree show "holds sample_db (hashes sample_K) (\<lambda>_. True) sample_trie [[0x12] \<mapsto> [5]]"
    by (auto simp: holds_def sample_trie_def)
  show "holds Map.empty (hashes sample_K) (\<lambda>_. True)
     \<lparr>root = ShortNode [1, 2, 16] (ValueNode [5]) newFlag, unhashed = 1\<rparr> [[0x12] \<mapsto> [5]]"
    using sample_tree by (auto simp: holds_def intro!: exI expands.short expands.val)
qed

lemma sample_small: "digest32 sample_K" "small_map [[0x12] \<mapsto> [5]]"
  by (simp_all add: digest32_def sample_K_def sample_hash_def small_map_def)

theorem Hash_function_of_map_witness:
  "\<exists>h s s'. Hash sample_K sample_trie = Some (h, s) \<and>
     Hash sample_K \<lparr>root = ShortNode [1, 2, 16] (ValueNode [5]) newFlag, unhashed = 1\<rparr> = Some (h, s')"
  using Hash_function_of_map [OF sample_small holds_sample_K] by blast

end
