(* ===== verification/Trie_Node.thy ===== *)
theory Trie_Node
  imports Trie_Hash_Correct
begin

text \<open>
  Decoding of stored nodes: \<open>decodeNode\<close> and its helpers of \<open>trie/node.go\<close>.  The positions that
  \<open>wrapError\<close> adds to an error are not kept.  Decoding what the hasher encodes gives the node
  back, with the subtrees of 32 bytes or more as hash nodes.
\<close>

subsection \<open>The code\<close>

datatype node_error =
    ErrEmptyNode
  | ErrDecode rlp_error
  | ErrElements nat
  | ErrOversized nat
  | ErrRefSize nat
  | ErrValue rlp_error

lemma Split_rest: "Split b = Inr (k, c, r) \<Longrightarrow> length r \<le> length b"
  by (auto simp: Split_def split: sum.splits prod.splits)

lemma SplitString_rest: "SplitString b = Inr (c, r) \<Longrightarrow> length r \<le> length b"
  by (auto simp: SplitString_def dest: Split_rest split: sum.splits prod.splits if_splits)

lemma readKind_list_tag: "readKind b = Inr (List, ts, cs) \<Longrightarrow> b \<noteq> [] \<and> ts \<noteq> 0"
proof -
  assume r: "readKind b = Inr (List, ts, cs)"
  then obtain x xs where b: "b = x # xs" and t: "readKind_tag b x xs = Inr (List, ts, cs)"
    by (auto simp: readKind_def split: list.splits sum.splits if_splits)
  have "(ucast (x - 0xF7) :: u64) + 1 \<noteq> 0"
  proof -
    have "unat (ucast (x - 0xF7) + 1 :: u64) = unat (x - 0xF7) + 1"
      using unat_byte_less [of "x - 0xF7"] by (simp add: unat_word_ariths)
    then show ?thesis by auto
  qed
  with t show ?thesis
    by (auto simp: b readKind_tag_def Let_def split: if_splits sum.splits)
qed

lemma SplitList_shorter: "SplitList b = Inr (c, r) \<Longrightarrow> length c < length b"
proof -
  assume "SplitList b = Inr (c, r)"
  then obtain ts cs where r: "readKind b = Inr (List, ts, cs)" and c: "c = slice b (unat ts) (unat (ts + cs))"
    by (auto simp: SplitList_def Split_def split: sum.splits prod.splits if_splits)
  from readKind_list_tag [OF r] have "b \<noteq> []" "0 < unat ts" by (auto simp: unat_gt_0)
  then show ?thesis by (auto simp: c slice_def min_def)
qed

definition node_count :: "bytes \<Rightarrow> nat" where
  "node_count elems = (case CountValues elems of Some (Inr c) \<Rightarrow> c | _ \<Rightarrow> 0)"

text \<open>\<open>decode_children\<close> is the loop of \<open>decodeFull\<close> over the sixteen children, from index \<open>i\<close> on.\<close>

function decodeNode :: "bytes option \<Rightarrow> bytes \<Rightarrow> node_error + node"
  and decodeShort :: "bytes option \<Rightarrow> bytes \<Rightarrow> node_error + node"
  and decode_children :: "nat \<Rightarrow> bytes \<Rightarrow> node_error + node list \<times> bytes"
  and decodeRef :: "bytes \<Rightarrow> node_error + node \<times> bytes"
where
  "decodeNode hn buf =
     (if length buf = 0 then Inl ErrEmptyNode
      else case SplitList buf of
        Inl e \<Rightarrow> Inl (ErrDecode e)
      | Inr (elems, _) \<Rightarrow>
          if node_count elems = 2 then decodeShort hn elems
          else if node_count elems = 17 then
            (case decode_children 0 elems of
              Inl e \<Rightarrow> Inl e
            | Inr (children, elems) \<Rightarrow>
                (case SplitString elems of
                  Inl e \<Rightarrow> Inl (ErrDecode e)
                | Inr (val, _) \<Rightarrow>
                    Inr (FullNode (children @ [if 0 < length val then ValueNode val else NilNode])
                      \<lparr>nf_hash = hn, nf_dirty = False\<rparr>)))
          else Inl (ErrElements (node_count elems)))"
| "decodeShort hn elems =
     (case SplitString elems of
       Inl e \<Rightarrow> Inl (ErrDecode e)
     | Inr (kbuf, rest) \<Rightarrow>
         let flag = \<lparr>nf_hash = hn, nf_dirty = False\<rparr>;
             key = compactToHex kbuf
         in if hasTerm key then
              (case SplitString rest of
                Inl e \<Rightarrow> Inl (ErrValue e)
              | Inr (val, _) \<Rightarrow> Inr (ShortNode key (ValueNode val) flag))
            else
              (case decodeRef rest of
                Inl e \<Rightarrow> Inl e
              | Inr (r, _) \<Rightarrow> Inr (ShortNode key r flag)))"
| "decode_children i elems =
     (if 16 \<le> i then Inr ([], elems)
      else case decodeRef elems of
        Inl e \<Rightarrow> Inl e
      | Inr (cld, rest) \<Rightarrow>
          (case decode_children (i + 1) rest of
            Inl e \<Rightarrow> Inl e
          | Inr (clds, elems) \<Rightarrow> Inr (cld # clds, elems)))"
| "decodeRef buf =
     (case Split buf of
       Inl e \<Rightarrow> Inl (ErrDecode e)
     | Inr (kind, val, rest) \<Rightarrow>
         if kind = List then
           (if 32 < length buf - length rest then Inl (ErrOversized (length buf - length rest))
            else
              (case decodeNode None buf of
                Inl e \<Rightarrow> Inl e
              | Inr n \<Rightarrow> Inr (n, rest)))
         else if kind = String \<and> length val = 0 then Inr (NilNode, rest)
         else if kind = String \<and> length val = 32 then Inr (HashNode val, rest)
         else Inl (ErrRefSize (length val)))"
  by pat_completeness auto

termination
proof -
  have rest: "length rest \<le> length buf"
    if "decodeNode_decodeShort_decode_children_decodeRef_dom (Inr (Inr buf))" "decodeRef buf = Inr (n, rest)"
    for buf n rest
    using that(2) by (auto simp: decodeRef.psimps [OF that(1)] dest: Split_rest split: sum.splits if_splits)
  show ?thesis
    by (relation "measures
      [\<lambda>x. case x of Inl (Inl (_, b)) \<Rightarrow> length b | Inl (Inr (_, b)) \<Rightarrow> length b
          | Inr (Inl (_, b)) \<Rightarrow> length b | Inr (Inr b) \<Rightarrow> length b,
       \<lambda>x. case x of Inl (Inl _) \<Rightarrow> 0 | Inl (Inr _) \<Rightarrow> 2 | Inr (Inl (i, _)) \<Rightarrow> 2 + (16 - i)
          | Inr (Inr _) \<Rightarrow> 1]")
      (auto dest: SplitList_shorter SplitString_rest rest)
qed

declare decodeNode.simps [simp del] decodeShort.simps [simp del] decode_children.simps [simp del]
  decodeRef.simps [simp del]

subsection \<open>What is stored for a tree\<close>

definition ref_of :: "(bytes \<Rightarrow> bytes) \<Rightarrow> ptree \<Rightarrow> node \<Rightarrow> node" where
  "ref_of K t n = (case hashes K False t of Some h \<Rightarrow> HashNode h | None \<Rightarrow> n)"

fun load :: "(bytes \<Rightarrow> bytes) \<Rightarrow> bytes option \<Rightarrow> ptree \<Rightarrow> node" where
  "load K h E = NilNode"
| "load K h (V v) = ValueNode v"
| "load K h (S k t) = ShortNode k (ref_of K t (load K None t)) \<lparr>nf_hash = h, nf_dirty = False\<rparr>"
| "load K h (F ts) =
     FullNode (map (\<lambda>t. ref_of K t (load K None t)) ts) \<lparr>nf_hash = h, nf_dirty = False\<rparr>"

abbreviation load_ref :: "(bytes \<Rightarrow> bytes) \<Rightarrow> ptree \<Rightarrow> node" where
  "load_ref K t \<equiv> ref_of K t (load K None t)"

subsection \<open>Decoding an encoded tree\<close>

definition one_value :: "bytes \<Rightarrow> bool" where
  "one_value e \<longleftrightarrow> (\<exists>k c. valid_kind k c \<and> e = enc_kind k c)"

lemma one_value_string: "one_value (enc_string c)"
  unfolding one_value_def enc_string_def
  by (cases "single_byte c") (metis valid_kind.simps(1), metis valid_kind.simps(2))

lemma one_value_tree: "one_value (enc_tree K t)"
proof (cases t)
  case (S k u)
  then show ?thesis unfolding one_value_def enc_tree.simps by (metis enc_tree.simps(3) valid_kind.simps(3))
next
  case (F ts)
  then show ?thesis unfolding one_value_def by (metis enc_tree.simps(4) valid_kind.simps(3))
qed (metis enc_tree.simps(1,2) one_value_string)+

lemma one_value_ref: "one_value (enc_ref K t)"
  using one_value_tree [of K t]
  by (cases t) (simp_all add: tree_ref_def one_value_string del: enc_tree.simps)

lemma node_count_concat:
  assumes "list_all one_value es" and "length (concat es) < 2 ^ 64"
  shows "node_count (concat es) = length es"
proof -
  have "\<exists>vs. valid_values vs \<and> length vs = length es \<and> concat es = enc_values vs"
    using assms(1)
  proof (induction es)
    case (Cons e es)
    then obtain vs k c where "valid_values vs" "length vs = length es" "concat es = enc_values vs"
      "valid_kind k c" "e = enc_kind k c" by (auto simp: one_value_def)
    then show ?case
      by (intro exI [of _ "(k, c) # vs"]) (simp add: valid_values_def enc_values_def)
  qed (simp add: valid_values_def enc_values_def)
  then obtain vs where vs: "valid_values vs" "length vs = length es" "concat es = enc_values vs" by blast
  then have "CountValues (concat es) = Some (Inr (length es))"
    using CountValues_loop_complete [OF vs(1), of "length (concat es) + 1" 0] length_enc_values [OF vs(1)]
      assms(2) by (simp add: CountValues_def)
  then show ?thesis by (simp add: node_count_def)
qed

text \<open>\<open>decodes_tree\<close>: decoding the encoding of a tree, whatever follows it.\<close>

definition decodes_tree :: "(bytes \<Rightarrow> bytes) \<Rightarrow> ptree \<Rightarrow> bool" where
  "decodes_tree K t \<longleftrightarrow>
     (\<forall>h r. length (enc_tree K t @ r) < 2 ^ 64 \<longrightarrow> decodeNode h (enc_tree K t @ r) = Inr (load K h t))"

lemma decodeRef_E:
  assumes "length (enc_ref K E @ r) < 2 ^ 64"
  shows "decodeRef (enc_ref K E @ r) = Inr (load_ref K E, r)"
proof -
  have e: "enc_ref K E = enc_kind String []" by (simp add: tree_ref_def enc_string_def single_byte_def)
  have "Split (enc_ref K E @ r) = Inr (String, [], r)"
    using assms unfolding e by (subst Split_iff) (simp_all add: single_byte_def)
  then show ?thesis by (simp add: decodeRef.simps ref_of_def hashes_def)
qed

lemma decodeRef_inner:
  assumes K: "digest32 K" and t: "inner t" "decodes_tree K t"
    and l: "length (enc_ref K t @ r) < 2 ^ 64"
  shows "decodeRef (enc_ref K t @ r) = Inr (load_ref K t, r)"
proof (cases "hashes K False t")
  case (Some h)
  then have e: "enc_ref K t = enc_kind String h" and "length h = 32"
    using t(1) digest32D [OF K] by (auto simp: enc_ref_inner enc_string_def single_byte_def hashes_inner split: if_splits)
  moreover from this have "Split (enc_ref K t @ r) = Inr (String, h, r)"
    using l unfolding e by (subst Split_iff) (simp_all add: single_byte_def)
  ultimately show ?thesis using Some by (auto simp: decodeRef.simps ref_of_def)
next
  case None
  then have e: "enc_ref K t = enc_tree K t" "length (enc_tree K t) < 32"
    using t(1) by (auto simp: enc_ref_inner hashes_inner split: if_splits)
  obtain c where c: "enc_tree K t = enc_kind List c" using t(1) by (cases t) (auto simp del: enc_kind.simps)
  then have "Split (enc_tree K t @ r) = Inr (List, c, r)"
    using l unfolding e by (subst Split_iff) simp_all
  moreover have "decodeNode None (enc_tree K t @ r) = Inr (load K None t)"
    using t(2) l e by (simp add: decodes_tree_def)
  ultimately show ?thesis using e None by (simp add: decodeRef.simps ref_of_def)
qed

lemma decode_children_enc:
  assumes K: "digest32 K" and "list_all (\<lambda>t. t = E \<or> inner t \<and> decodes_tree K t) ts"
    and "i + length ts = 16" and "length (concat (map (enc_ref K) ts) @ r) < 2 ^ 64"
  shows "decode_children i (concat (map (enc_ref K) ts) @ r) = Inr (map (load_ref K) ts, r)"
  using assms(2-)
proof (induction ts arbitrary: i)
  case Nil
  then show ?case by (simp add: decode_children.simps)
next
  case (Cons t ts)
  let ?r = "concat (map (enc_ref K) ts) @ r"
  have l: "length (enc_ref K t @ ?r) < 2 ^ 64" using Cons.prems(3) by simp
  have "t = E \<or> inner t \<and> decodes_tree K t" using Cons.prems(1) by simp
  then have "decodeRef (enc_ref K t @ ?r) = Inr (load_ref K t, ?r)"
  proof
    assume "t = E"
    with l show ?thesis by (simp only: decodeRef_E)
  next
    assume "inner t \<and> decodes_tree K t"
    then show ?thesis using decodeRef_inner [OF K _ _ l] by blast
  qed
  moreover have "decode_children (i + 1) ?r = Inr (map (load_ref K) ts, r)"
    using Cons.prems by (intro Cons.IH) simp_all
  moreover have "concat (map (enc_ref K) (t # ts)) @ r = enc_ref K t @ ?r" by simp
  ultimately show ?case using Cons.prems(2) by (subst decode_children.simps) simp
qed

lemma length_content_list: "length c \<le> length (enc_kind List c @ r)"
  by simp

lemma canon_key:
  assumes "canon (S k t)"
  shows "compactToHex (hexToCompact k) = k" "hasTerm k \<longleftrightarrow> (\<exists>v. t = V v)"
proof -
  have h: "(\<exists>v. t = V v) \<and> tkey k \<or> (\<exists>ts. t = F ts) \<and> nibbles k" using assms by (auto split: ptree.splits)
  then show t: "hasTerm k \<longleftrightarrow> (\<exists>v. t = V v)"
    by (cases k rule: rev_cases) (auto simp: tkey_def hasTerm_def nibble_16)
  have "hex_key k" using h t by (auto simp: hex_key_def tkey_def)
  then show "compactToHex (hexToCompact k) = k" by (rule compact_roundtrip)
qed

lemma decodes_short:
  assumes K: "digest32 K" and c: "canon (S k t)" and IH: "inner t \<Longrightarrow> decodes_tree K t"
  shows "decodes_tree K (S k t)"
  unfolding decodes_tree_def
proof (intro allI impI)
  fix h r
  let ?e = "enc_string (hexToCompact k) @ enc_ref K t"
  assume l: "length (enc_tree K (S k t) @ r) < 2 ^ 64"
  then have l': "length ?e < 2 ^ 64" using length_content_list [of ?e r] by simp
  have s: "SplitList (enc_tree K (S k t) @ r) = Inr (?e, r)"
    using l by (subst SplitList_iff) simp_all
  have n: "node_count ?e = 2"
    using node_count_concat [of "[enc_string (hexToCompact k), enc_ref K t]"] l'
    by (simp add: one_value_string one_value_ref)
  have k: "SplitString ?e = Inr (hexToCompact k, enc_ref K t)"
    using l' by (subst SplitString_iff) simp_all
  have ne: "enc_tree K (S k t) @ r \<noteq> []" using SplitList_shorter [OF s] by auto
  have "decodeShort h ?e = Inr (load K h (S k t))"
  proof (cases "inner t")
    case True
    then have "\<not> hasTerm k" using canon_key(2) [OF c] by auto
    moreover have "decodeRef (enc_ref K t) = Inr (load_ref K t, [])"
      using decodeRef_inner [OF K True IH [OF True], of "[]"] l' by simp
    ultimately show ?thesis using canon_key(1) [OF c] k by (simp add: decodeShort.simps)
  next
    case False
    then obtain v where v: "t = V v" using c by (cases t) auto
    then have "hasTerm k" using canon_key(2) [OF c] by simp
    moreover have "SplitString (enc_ref K t) = Inr (v, [])"
      using l' v by (subst SplitString_iff) (simp_all add: tree_ref_def)
    ultimately show ?thesis
      using canon_key(1) [OF c] k v by (simp add: decodeShort.simps ref_of_def hashes_def)
  qed
  with s n ne show "decodeNode h (enc_tree K (S k t) @ r) = Inr (load K h (S k t))"
    by (simp add: decodeNode.simps del: enc_tree.simps load.simps)
qed

lemma decodes_full:
  assumes K: "digest32 K" and c: "canon (F ts)"
    and IH: "\<And>t. t \<in> set ts \<Longrightarrow> canon t \<Longrightarrow> inner t \<Longrightarrow> decodes_tree K t"
  shows "decodes_tree K (F ts)"
  unfolding decodes_tree_def
proof (intro allI impI)
  fix h r
  let ?e = "concat (map (enc_ref K) ts)" and ?us = "take 16 ts" and ?u = "ts ! 16"
  assume l: "length (enc_tree K (F ts) @ r) < 2 ^ 64"
  then have l': "length ?e < 2 ^ 64" using length_content_list [of ?e r] by simp
  have len: "length ts = 17" using c by (simp add: canon_F)
  then have ts: "ts = ?us @ [?u]" using take_Suc_conv_app_nth [of 16 ts] by simp
  have s: "SplitList (enc_tree K (F ts) @ r) = Inr (?e, r)"
    using l by (subst SplitList_iff) simp_all
  have ne: "enc_tree K (F ts) @ r \<noteq> []" using SplitList_shorter [OF s] by auto
  have n: "node_count ?e = 17"
    using node_count_concat [of "map (enc_ref K) ts"] l' len by (simp add: list_all_iff one_value_ref)
  have e: "?e = concat (map (enc_ref K) ?us) @ enc_ref K ?u"
    by (subst ts) (simp only: map_append concat_append list.map concat.simps append_Nil2)
  have "ts ! i = E \<or> inner (ts ! i) \<and> decodes_tree K (ts ! i)" if "i < 16" for i
    using that c len canon_inner [of "ts ! i"] IH [of "ts ! i"] by (auto simp: canon_F)
  then have "list_all (\<lambda>t. t = E \<or> inner t \<and> decodes_tree K t) ?us"
    using len by (simp add: list_all_length)
  then have d: "decode_children 0 ?e = Inr (map (load_ref K) ?us, enc_ref K ?u)"
    unfolding e using l' e len by (intro decode_children_enc K) simp_all
  have "value_or_nil ?u" using c by (simp add: canon_F)
  then have "\<exists>v. enc_ref K ?u = enc_string v \<and> load_ref K ?u = (if 0 < length v then ValueNode v else NilNode)"
    by (cases ?u) (auto simp: tree_ref_def ref_of_def hashes_def intro: exI [of _ "[]"])
  then obtain v where v: "enc_ref K ?u = enc_string v"
    "load_ref K ?u = (if 0 < length v then ValueNode v else NilNode)" by blast
  have "length (enc_ref K ?u) < 2 ^ 64" using l' unfolding e by simp
  with v(1) have sv: "SplitString (enc_ref K ?u) = Inr (v, [])" by (simp add: SplitString_iff)
  have "load K h (F ts) = FullNode (map (load_ref K) ?us @ [load_ref K ?u]) \<lparr>nf_hash = h, nf_dirty = False\<rparr>"
    by (subst ts) simp
  with s n ne d sv v(2) show "decodeNode h (enc_tree K (F ts) @ r) = Inr (load K h (F ts))"
    by (simp add: decodeNode.simps del: enc_tree.simps load.simps)
qed

lemma decodes_canon:
  assumes K: "digest32 K" and "canon t" and "inner t"
  shows "decodes_tree K t"
  using assms(2,3)
proof (induction t)
  case (S k t)
  show ?case
    using S by (intro decodes_short K) (auto split: ptree.splits)
next
  case (F ts)
  then show ?case by (intro decodes_full K) auto
qed simp_all

subsection \<open>The hash determines the map\<close>

text \<open>The byte strings that are hashed for a tree.\<close>

fun encs :: "(bytes \<Rightarrow> bytes) \<Rightarrow> ptree \<Rightarrow> bytes set" where
  "encs K (S k t) = insert (enc_tree K (S k t)) (encs K t)"
| "encs K (F ts) = insert (enc_tree K (F ts)) (\<Union>t \<in> set ts. encs K t)"
| "encs K _ = {}"

lemma enc_in_encs: "inner t \<Longrightarrow> enc_tree K t \<in> encs K t"
  by (cases t) auto

lemma encs_small: "enc_small K t \<Longrightarrow> inner t \<Longrightarrow> length (enc_tree K t) < 2 ^ 64"
  by (cases t) (auto simp del: enc_tree.simps)

lemma load_of_enc:
  assumes "digest32 K" and "canon t" "canon u" "inner t" "inner u" "enc_small K t"
    and "enc_tree K t = enc_tree K u"
  shows "load K h t = load K h u"
proof -
  have l: "length (enc_tree K t @ []) < 2 ^ 64" using encs_small [OF assms(6,4)] by simp
  have "decodeNode h (enc_tree K t @ []) = Inr (load K h t)"
    using decodes_canon [OF assms(1,2,4)] l unfolding decodes_tree_def by blast
  moreover have "decodeNode h (enc_tree K u @ []) = Inr (load K h u)"
    using decodes_canon [OF assms(1,3,5)] l unfolding decodes_tree_def assms(7) by blast
  ultimately show ?thesis by (simp add: assms(7) del: enc_tree.simps load.simps)
qed

lemma load_kind:
  "load K h t = NilNode \<longleftrightarrow> t = E" "load K h t = ValueNode v \<longleftrightarrow> t = V v" "load K h t \<noteq> HashNode w"
  by (cases t; auto)+

text \<open>Trees whose references agree agree, if the references to their children are free of
  collisions.\<close>

lemma load_ref_eq:
  assumes K: "digest32 K" and "canon t \<or> value_or_nil t" "canon u \<or> value_or_nil u" "enc_small K t"
    and i: "inj_on K (encs K t \<union> encs K u)" and "load_ref K t = load_ref K u"
    and IH: "load K None t = load K None u \<Longrightarrow> t = u"
  shows "t = u"
proof (cases "hashes K False t")
  case None
  have "hashes K False u = None"
  proof (rule ccontr)
    assume "hashes K False u \<noteq> None"
    then obtain w where "hashes K False u = Some w" by blast
    with None assms(6) have "load K None t = HashNode w" by (simp add: ref_of_def)
    then show False using load_kind(3) by blast
  qed
  with None assms(6) have "load K None t = load K None u" by (simp add: ref_of_def)
  then show ?thesis by (rule IH)
next
  case (Some h)
  have u: "hashes K False u = Some h"
  proof (cases "hashes K False u")
    case None
    with Some assms(6) have "load K None u = HashNode h" by (simp add: ref_of_def)
    then show ?thesis using load_kind(3) by blast
  next
    case (Some w)
    with \<open>hashes K False t = Some h\<close> assms(6) show ?thesis by (simp add: ref_of_def)
  qed
  have inn: "inner t" "inner u"
    using Some u by (cases t; cases u; simp add: hashes_def del: enc_tree.simps)+
  with u Some have "K (enc_tree K t) = K (enc_tree K u)"
    by (auto simp: hashes_inner simp del: enc_tree.simps split: if_splits)
  then have "enc_tree K t = enc_tree K u"
    by (rule inj_onD [OF i]) (use inn in \<open>auto intro: enc_in_encs\<close>)
  moreover have "canon t" using assms(2) inn(1) by (cases t) auto
  moreover have "canon u" using assms(3) inn(2) by (cases u) auto
  ultimately show ?thesis using inn assms(4) by (intro IH load_of_enc [OF K])
qed

lemma load_inject:
  assumes K: "digest32 K" and "canon t \<or> value_or_nil t" "canon u \<or> value_or_nil u" "enc_small K t"
    and "inj_on K (encs K t \<union> encs K u)" and "load K h t = load K h u"
  shows "t = u"
  using assms(2-)
proof (induction t arbitrary: u h)
  case E
  then show ?case using load_kind(1) [of K h u] by simp
next
  case (V v)
  then show ?case using load_kind(2) [of K h u v] by simp
next
  case (S k t)
  from S.prems(5) obtain u' where u: "u = S k u'" and r: "load_ref K t = load_ref K u'"
    by (cases u) auto
  have c: "canon t \<or> value_or_nil t" "canon u' \<or> value_or_nil u'"
    using S.prems(1,2) unfolding u by (auto split: ptree.splits)
  have i: "inj_on K (encs K t \<union> encs K u')"
    by (rule inj_on_subset [OF S.prems(4)]) (auto simp: u)
  have s: "enc_small K t" using S.prems(3) by simp
  have "t = u'" by (rule load_ref_eq [OF K c s i r]) (rule S.IH [OF c s i])
  then show ?case by (simp add: u)
next
  case (F ts)
  from F.prems(5) obtain us where u: "u = F us" and r: "map (load_ref K) ts = map (load_ref K) us"
    by (cases u) auto
  have cF: "canon (F ts)" "canon (F us)" using F.prems(1,2) u by auto
  then have l: "length ts = 17" "length us = 17" by (auto simp: canon_F)
  have "ts ! j = us ! j" if j: "j < 17" for j
  proof -
    have m: "ts ! j \<in> set ts" "us ! j \<in> set us" using j l by simp_all
    have c: "canon (ts ! j) \<or> value_or_nil (ts ! j)" "canon (us ! j) \<or> value_or_nil (us ! j)"
      using canon_child(2) [OF cF(1) j] canon_child(2) [OF cF(2) j] by (auto split: if_splits)
    have s: "enc_small K (ts ! j)" using F.prems(3) m by (auto simp: list_all_iff)
    have i: "inj_on K (encs K (ts ! j) \<union> encs K (us ! j))"
      by (rule inj_on_subset [OF F.prems(4)]) (use m in \<open>auto simp: u\<close>)
    have "load_ref K (ts ! j) = load_ref K (us ! j)" using arg_cong [OF r, of "\<lambda>l. l ! j"] j l by simp
    then show ?thesis by (rule load_ref_eq [OF K c s i]) (rule F.IH [OF m(1) c s i])
  qed
  with l u show ?case by (simp add: list_eq_iff_nth_eq)
qed

lemma root_hash_inject:
  assumes K: "digest32 K" "K [0x80] = emptyRoot" and c: "canon t" "canon u"
    and s: "enc_small K t" and i: "inj_on K (insert [0x80] (encs K t \<union> encs K u))"
    and h: "root_hash K t = root_hash K u"
  shows "t = u"
proof -
  have i': "inj_on K (encs K t \<union> encs K u)" by (rule inj_on_subset [OF i]) auto
  have n: "enc_tree K t \<noteq> [0x80]" if t: "inner t" for t
  proof
    assume e: "enc_tree K t = [0x80]"
    obtain c where "enc_tree K t = enc_kind List c" using t by (cases t) (auto simp del: enc_kind.simps)
    with e have "Split [0x80] = Inr (List, c, [])" by (subst Split_iff) simp_all
    moreover have "Split [0x80] = Inr (String, [], [])" by code_simp
    ultimately show False by simp
  qed
  have "root_hash K v = K (if v = E then [0x80] else enc_tree K v)" for v
    by (simp add: root_hash_def K)
  with h have "K (if t = E then [0x80] else enc_tree K t) = K (if u = E then [0x80] else enc_tree K u)"
    by simp
  then have "(if t = E then [0x80] else enc_tree K t) = (if u = E then [0x80] else enc_tree K u)"
    by (rule inj_onD [OF i]) (use canon_inner c in \<open>auto intro: enc_in_encs\<close>)
  with c canon_inner n consider "t = E" "u = E" | "inner t" "inner u" "enc_tree K t = enc_tree K u"
    by (metis inner.simps(3))
  then show ?thesis
  proof cases
    case 2
    with load_of_enc [OF K(1) c 2(1,2) s] show ?thesis
      using load_inject [OF K(1) _ _ s i', of None] c by blast
  qed simp
qed

end
