(* ===== verification/Trie_Database.thy ===== *)
theory Trie_Database
  imports Trie_Node
begin

text \<open>
  \<open>trie/database.go\<close>: the in-memory store between the tries and the disk, without the cache of
  clean nodes (\<open>NewDatabase\<close> sets it to nil) and the statistics.  A panic, also a
  use of a nil pointer, is \<open>None\<close>.  The sizes, which the code keeps as floating-point numbers
  far below the bound where these are inexact, are integers.
\<close>

subsection \<open>Nodes without metadata\<close>

datatype raw =
    RawNil
  | RawValue bytes
  | RawHash bytes
  | RawShort bytes raw
  | RawFull "raw list"
  | RawBlob bytes

fun simplifyNode :: "node \<Rightarrow> raw option"
  and simplify_children :: "node list \<Rightarrow> raw list option"
where
  "simplifyNode (ShortNode k v f) = map_option (RawShort k) (simplifyNode v)"
| "simplifyNode (FullNode ns f) = map_option RawFull (simplify_children ns)"
| "simplifyNode (ValueNode v) = Some (RawValue v)"
| "simplifyNode (HashNode h) = Some (RawHash h)"
| "simplifyNode NilNode = None"
| "simplify_children [] = Some []"
| "simplify_children (n # ns) = do {
     r \<leftarrow> (if n \<noteq> NilNode then simplifyNode n else Some RawNil);
     rs \<leftarrow> simplify_children ns;
     Some (r # rs)
   }"

fun expandNode :: "bytes option \<Rightarrow> raw \<Rightarrow> node option"
  and expand_children :: "raw list \<Rightarrow> node list option"
where
  "expandNode h (RawShort k v) =
     map_option (\<lambda>n. ShortNode (compactToHex k) n \<lparr>nf_hash = h, nf_dirty = False\<rparr>) (expandNode None v)"
| "expandNode h (RawFull rs) =
     map_option (\<lambda>ns. FullNode ns \<lparr>nf_hash = h, nf_dirty = False\<rparr>) (expand_children rs)"
| "expandNode h (RawValue v) = Some (ValueNode v)"
| "expandNode h (RawHash v) = Some (HashNode v)"
| "expandNode h RawNil = None"
| "expandNode h (RawBlob b) = None"
| "expand_children [] = Some []"
| "expand_children (r # rs) = do {
     n \<leftarrow> (if r \<noteq> RawNil then expandNode None r else Some NilNode);
     ns \<leftarrow> expand_children rs;
     Some (n # ns)
   }"

text \<open>The hashes of the children that \<open>forGatherChildren\<close> visits, in its order.\<close>

fun forGatherChildren :: "raw \<Rightarrow> bytes list" where
  "forGatherChildren (RawShort k v) = forGatherChildren v"
| "forGatherChildren (RawFull rs) = concat (map forGatherChildren (take 16 rs))"
| "forGatherChildren (RawHash h) = [BytesToHash h]"
| "forGatherChildren _ = []"

fun raw_val :: "raw \<Rightarrow> goval" where
  "raw_val RawNil = VNil"
| "raw_val (RawValue v) = bytes_val v"
| "raw_val (RawHash h) = bytes_val h"
| "raw_val (RawShort k v) = VIface (TPtr shortNode_type) (VPtr (VList [VBytes k, raw_val v]))"
| "raw_val (RawFull rs) =
     VIface (TArray 17 TInterface)
       (VList (map (\<lambda>child. if child \<noteq> RawNil then raw_val child else bytes_val []) rs))"
| "raw_val (RawBlob b) = VIface TRawValue (VBytes b)"

definition mustDecodeNode :: "bytes \<Rightarrow> bytes \<Rightarrow> node option" where
  "mustDecodeNode h buf = (case decodeNode (Some h) buf of Inl e \<Rightarrow> None | Inr n \<Rightarrow> Some n)"

subsection \<open>The cache of dirty nodes\<close>

record cachedNode =
  cn_node :: raw
  cn_size :: "16 word"
  cn_parents :: "32 word"
  cn_children :: "(bytes \<rightharpoonup> 16 word) option"
  flushPrev :: bytes
  flushNext :: bytes

record Database =
  diskdb :: "bytes \<rightharpoonup> bytes"
  dirties :: "bytes \<rightharpoonup> cachedNode"
  oldest :: bytes
  newest :: bytes
  preimages :: "bytes \<rightharpoonup> bytes"
  dirtiesSize :: int
  childrenSize :: int
  preimagesSize :: int

definition zeroHash :: bytes where
  "zeroHash = replicate 32 0"

definition cn_rlp :: "cachedNode \<Rightarrow> bytes option" where
  "cn_rlp n =
     (case cn_node n of
       RawBlob b \<Rightarrow> Some b
     | r \<Rightarrow> (case EncodeToBytes TInterface (raw_val r) of Some (Inr b) \<Rightarrow> Some b | _ \<Rightarrow> None))"

definition cn_obj :: "bytes \<Rightarrow> cachedNode \<Rightarrow> node option" where
  "cn_obj h n =
     (case cn_node n of
       RawBlob b \<Rightarrow> mustDecodeNode h b
     | r \<Rightarrow> expandNode (Some h) r)"

definition NewDatabase :: "(bytes \<rightharpoonup> bytes) \<Rightarrow> Database" where
  "NewDatabase disk =
     \<lparr>diskdb = disk,
      dirties = [zeroHash \<mapsto> \<lparr>cn_node = RawNil, cn_size = 0, cn_parents = 0,
        cn_children = Some Map.empty, flushPrev = zeroHash, flushNext = zeroHash\<rparr>],
      oldest = zeroHash, newest = zeroHash, preimages = Map.empty,
      dirtiesSize = 0, childrenSize = 0, preimagesSize = 0\<rparr>"

text \<open>A change to an entry through its pointer; a nil pointer panics.\<close>

definition at_entry :: "bytes \<Rightarrow> (cachedNode \<Rightarrow> cachedNode) \<Rightarrow> Database \<Rightarrow> Database option" where
  "at_entry h f db =
     (case dirties db h of
       None \<Rightarrow> None
     | Some n \<Rightarrow> Some (db\<lparr>dirties := (dirties db)(h \<mapsto> f n)\<rparr>))"

definition add_parent :: "bytes \<Rightarrow> Database \<Rightarrow> Database" where
  "add_parent child db =
     (case dirties db child of
       None \<Rightarrow> db
     | Some c \<Rightarrow> db\<lparr>dirties := (dirties db)(child \<mapsto> c\<lparr>cn_parents := cn_parents c + 1\<rparr>)\<rparr>)"

definition db_insert :: "bytes \<Rightarrow> nat \<Rightarrow> node \<Rightarrow> Database \<Rightarrow> Database option" where
  "db_insert h sz n db =
     (if dirties db h \<noteq> None then Some db
      else do {
        r \<leftarrow> simplifyNode n;
        let entry = \<lparr>cn_node = r, cn_size = word_of_nat sz, cn_parents = 0, cn_children = None,
              flushPrev = newest db, flushNext = zeroHash\<rparr>;
        let db = fold add_parent (forGatherChildren r) db;
        let db = db\<lparr>dirties := (dirties db)(h \<mapsto> entry)\<rparr>;
        db \<leftarrow> (if oldest db = zeroHash then Some (db\<lparr>oldest := h, newest := h\<rparr>)
              else map_option (\<lambda>db. db\<lparr>newest := h\<rparr>)
                (at_entry (newest db) (\<lambda>e. e\<lparr>flushNext := h\<rparr>) db));
        Some (db\<lparr>dirtiesSize := dirtiesSize db + 32 + uint (cn_size entry)\<rparr>)
      })"

text \<open>\<open>node\<close>: the node under a hash, \<open>Some None\<close> if there is none.\<close>

definition db_node :: "Database \<Rightarrow> bytes \<Rightarrow> node option option" where
  "db_node db h =
     (case dirties db h of
       Some dirty \<Rightarrow> map_option Some (cn_obj h dirty)
     | None \<Rightarrow>
         (case diskdb db h of
           None \<Rightarrow> Some None
         | Some enc \<Rightarrow> map_option Some (mustDecodeNode h enc)))"

definition insertPreimage :: "bytes \<Rightarrow> bytes \<Rightarrow> Database \<Rightarrow> Database" where
  "insertPreimage h pre db =
     (if preimages db h \<noteq> None then db
      else db\<lparr>preimages := (preimages db)(h \<mapsto> pre),
              preimagesSize := preimagesSize db + 32 + int (length pre)\<rparr>)"

text \<open>\<open>core/rawdb\<close>: the keys of preimages on disk start with \<open>secure-key-\<close>.\<close>

definition preimageKey :: "bytes \<Rightarrow> bytes" where
  "preimageKey h = [0x73, 0x65, 0x63, 0x75, 0x72, 0x65, 0x2d, 0x6b, 0x65, 0x79, 0x2d] @ h"

definition preimage :: "Database \<Rightarrow> bytes \<Rightarrow> bytes option" where
  "preimage db h =
     (case preimages db h of
       Some pre \<Rightarrow> Some pre
     | None \<Rightarrow> diskdb db (preimageKey h))"

subsection \<open>Collapsing a trie into the database\<close>

text \<open>\<open>trie/committer.go\<close>.  With a leaf callback the nodes go through a channel to \<open>commitLoop\<close>,
  which inserts them in the order sent; without one they are inserted at once.\<close>

record leaf =
  lf_size :: nat
  lf_hash :: bytes
  lf_node :: node

type_synonym cstate = "leaf list option \<times> Database"

fun estimateSize :: "node \<Rightarrow> nat option" where
  "estimateSize (ShortNode k v f) = map_option (\<lambda>s. 3 + length k + s) (estimateSize v)"
| "estimateSize (FullNode ns f) =
     fold (\<lambda>child s. do {
       s \<leftarrow> s;
       if child \<noteq> NilNode then map_option (\<lambda>c. s + c) (estimateSize child) else Some (s + 1)
     }) (take 16 ns) (Some 3)"
| "estimateSize (ValueNode v) = Some (1 + length v)"
| "estimateSize (HashNode h) = Some (1 + length h)"
| "estimateSize NilNode = None"

fun node_cache :: "node \<Rightarrow> bytes option \<times> bool" where
  "node_cache (ShortNode k v f) = (nf_hash f, nf_dirty f)"
| "node_cache (FullNode ns f) = (nf_hash f, nf_dirty f)"
| "node_cache _ = (None, True)"

definition store :: "node \<Rightarrow> cstate \<Rightarrow> (node \<times> cstate) option" where
  "store n s =
     (case fst (node_cache n) of
       None \<Rightarrow> Some (n, s)
     | Some h \<Rightarrow> do {
         sz \<leftarrow> estimateSize n;
         case fst s of
           Some ch \<Rightarrow>
             Some (HashNode h,
               (Some (ch @ [\<lparr>lf_size = sz, lf_hash = BytesToHash h, lf_node = n\<rparr>]), snd s))
         | None \<Rightarrow> map_option (\<lambda>db. (HashNode h, (None, db))) (db_insert (BytesToHash h) sz n (snd s))
       })"

fun is_full :: "node \<Rightarrow> bool" where
  "is_full (FullNode ns f) = True"
| "is_full _ = False"

fun commit :: "node \<Rightarrow> cstate \<Rightarrow> (node \<times> cstate) option"
  and commit_from :: "nat \<Rightarrow> node list \<Rightarrow> cstate \<Rightarrow> (node list \<times> cstate) option"
where
  "commit (ShortNode k v f) s =
     (if nf_hash f \<noteq> None \<and> \<not> nf_dirty f then Some (HashNode (the (nf_hash f)), s)
      else do {
        (childV, s) \<leftarrow> (if is_full v then commit v s else Some (v, s));
        store (ShortNode (hexToCompact k) childV f) s
      })"
| "commit (FullNode ns f) s =
     (if nf_hash f \<noteq> None \<and> \<not> nf_dirty f then Some (HashNode (the (nf_hash f)), s)
      else do {
        (hashedKids, s) \<leftarrow> commit_from 0 ns s;
        store (FullNode hashedKids f) s
      })"
| "commit (HashNode h) s = Some (HashNode h, s)"
| "commit _ s = None"
| "commit_from i [] s = Some ([], s)"
| "commit_from i (child # children) s = do {
     (x, s) \<leftarrow> (if i < 16 then
        (case child of NilNode \<Rightarrow> Some (NilNode, s) | HashNode hn \<Rightarrow> Some (HashNode hn, s) | _ \<Rightarrow> commit child s)
      else Some (child, s));
     (xs, s) \<leftarrow> commit_from (i + 1) children s;
     Some (x # xs, s)
   }"

text \<open>The second half of \<open>Trie.Commit\<close> reads the queue of leaves; the values it reports to the
  callback are collected.\<close>

fun leaf_values :: "leaf \<Rightarrow> (bytes \<times> bytes) list option" where
  "leaf_values l =
     (case lf_node l of
       ShortNode k (ValueNode v) f \<Rightarrow> Some [(v, lf_hash l)]
     | FullNode ns f \<Rightarrow>
         (case ns ! 16 of NilNode \<Rightarrow> Some [] | ValueNode v \<Rightarrow> Some [(v, lf_hash l)] | _ \<Rightarrow> None)
     | _ \<Rightarrow> Some [])"

fun commitLoop :: "leaf list \<Rightarrow> Database \<Rightarrow> ((bytes \<times> bytes) list \<times> Database) option" where
  "commitLoop [] db = Some ([], db)"
| "commitLoop (item # items) db = do {
     db \<leftarrow> db_insert (lf_hash item) (lf_size item) (lf_node item) db;
     v \<leftarrow> leaf_values item;
     (vs, db) \<leftarrow> commitLoop items db;
     Some (v @ vs, db)
   }"

definition Commit :: "(bytes \<Rightarrow> bytes) \<Rightarrow> bool \<Rightarrow> Trie \<Rightarrow> Database \<Rightarrow>
    (bytes \<times> Trie \<times> (bytes \<times> bytes) list \<times> Database) option" where
  "Commit K onleaf t db =
     (if root t = NilNode then Some (emptyRoot, t, [], db)
      else do {
        (rootHash, t) \<leftarrow> Hash K t;
        if \<not> snd (node_cache (root t)) then Some (rootHash, t, [], db)
        else do {
          (newRoot, (ch, db)) \<leftarrow> commit (root t) (if onleaf then Some [] else None, db);
          (vs, db) \<leftarrow> (case ch of None \<Rightarrow> Some ([], db) | Some items \<Rightarrow> commitLoop items db);
          case newRoot of
            HashNode h \<Rightarrow> Some (rootHash, t\<lparr>root := HashNode h\<rparr>, vs, db)
          | _ \<Rightarrow> None
        }
      })"

end
