(* ===== verification/Trie_Commit.thy ===== *)
theory Trie_Commit
  imports Trie_Database
begin

text \<open>
  Committing a trie to the database and reading it back.  \<open>avail\<close> says that the database holds
  a tree with everything below it; after \<open>Commit\<close> it holds the whole trie, and \<open>New\<close> with the
  root hash gives a trie for the same map.
\<close>

subsection \<open>What the database holds for a tree\<close>

definition raw_of :: "(bytes \<Rightarrow> bytes) \<Rightarrow> ptree \<Rightarrow> raw \<Rightarrow> raw" where
  "raw_of K t r = (case hashes K False t of Some h \<Rightarrow> RawHash h | None \<Rightarrow> r)"

fun raw_tree :: "(bytes \<Rightarrow> bytes) \<Rightarrow> ptree \<Rightarrow> raw" where
  "raw_tree K E = RawNil"
| "raw_tree K (V v) = RawValue v"
| "raw_tree K (S k t) = RawShort (hexToCompact k) (raw_of K t (raw_tree K t))"
| "raw_tree K (F ts) = RawFull (map (\<lambda>t. raw_of K t (raw_tree K t)) ts)"

abbreviation raw_ref :: "(bytes \<Rightarrow> bytes) \<Rightarrow> ptree \<Rightarrow> raw" where
  "raw_ref K t \<equiv> raw_of K t (raw_tree K t)"

lemma raw_tree_kind [simp]: "raw_tree K t = RawNil \<longleftrightarrow> t = E" "raw_tree K t \<noteq> RawBlob b"
  by (cases t; simp)+

lemma raw_ref_Nil: "raw_ref K t = RawNil \<longleftrightarrow> t = E"
  by (auto simp: raw_of_def hashes_def split: option.splits)

lemma expand_ref:
  assumes "t \<noteq> E" and "expandNode None (raw_tree K t) = Some (load K None t)"
  shows "expandNode None (raw_ref K t) = Some (load_ref K t)"
  using assms by (auto simp: raw_of_def ref_of_def split: option.splits)

lemma expand_children_ref:
  assumes "\<forall>t \<in> set ts. t \<noteq> E \<longrightarrow> expandNode None (raw_tree K t) = Some (load K None t)"
  shows "expand_children (map (raw_ref K) ts) = Some (map (load_ref K) ts)"
  using assms
proof (induction ts)
  case (Cons t ts)
  then show ?case
    using expand_ref [of t K] raw_ref_Nil [of K t] by (cases "t = E") (auto simp: ref_of_def hashes_def)
qed simp

lemma expand_raw_tree:
  "canon t \<or> value_or_nil t \<Longrightarrow> t \<noteq> E \<Longrightarrow> expandNode h (raw_tree K t) = Some (load K h t)"
proof (induction t arbitrary: h)
  case (S k t)
  then have "t \<noteq> E" "canon t \<or> value_or_nil t" by (auto split: ptree.splits)
  with S.IH expand_ref [of t K] have "expandNode None (raw_ref K t) = Some (load_ref K t)" by simp
  with S.prems canon_key(1) [of k t] show ?case by auto
next
  case (F ts)
  have "canon t \<or> value_or_nil t" if t: "t \<in> set ts" for t
  proof -
    have c: "canon (F ts)" using F.prems by simp
    from t obtain i where "i < length ts" "t = ts ! i" by (auto simp: in_set_conv_nth)
    with canon_child(2) [OF c, of i] c show ?thesis by (auto simp: canon_F split: if_splits)
  qed
  with F.IH expand_children_ref [of ts K] show ?case by simp
qed auto

lemma cn_obj_tree:
  assumes "canon t" and "inner t" and "cn_node e = raw_tree K t"
  shows "cn_obj h e = Some (load K (Some h) t)"
  using expand_raw_tree [of t "Some h" K] assms
  by (cases t) (auto simp: cn_obj_def simp del: load.simps)

definition in_db :: "Database \<Rightarrow> (bytes \<Rightarrow> bytes) \<Rightarrow> ptree \<Rightarrow> bool" where
  "in_db db K t \<longleftrightarrow>
     (let h = K (enc_tree K t) in db_node db h = Some (Some (load K (Some h) t)))"

fun subs :: "ptree \<Rightarrow> ptree set" where
  "subs (S k t) = insert (S k t) (subs t)"
| "subs (F ts) = insert (F ts) (\<Union>t \<in> set ts. subs t)"
| "subs _ = {}"

definition big_in_db :: "Database \<Rightarrow> (bytes \<Rightarrow> bytes) \<Rightarrow> ptree \<Rightarrow> bool" where
  "big_in_db db K t \<longleftrightarrow> (\<forall>u \<in> subs t. hashes K False u \<noteq> None \<longrightarrow> in_db db K u)"

definition avail :: "Database \<Rightarrow> (bytes \<Rightarrow> bytes) \<Rightarrow> ptree \<Rightarrow> bool" where
  "avail db K t \<longleftrightarrow> in_db db K t \<and> big_in_db db K t"

lemma big_in_db_simps:
  "big_in_db db K (S k t) \<longleftrightarrow> (hashes K False (S k t) \<noteq> None \<longrightarrow> in_db db K (S k t)) \<and> big_in_db db K t"
  "big_in_db db K (F ts) \<longleftrightarrow>
     (hashes K False (F ts) \<noteq> None \<longrightarrow> in_db db K (F ts)) \<and> (\<forall>t \<in> set ts. big_in_db db K t)"
  "big_in_db db K (V v)" "big_in_db db K E"
  by (auto simp: big_in_db_def)

text \<open>The database as the tries see it.\<close>

definition view :: "Database \<Rightarrow> node_db" where
  "view db h = (case db_node db h of Some r \<Rightarrow> r | None \<Rightarrow> None)"

lemma hashes_big: "hashes K False t \<noteq> None \<Longrightarrow> hashes K False t = Some (K (enc_tree K t)) \<and> inner t"
  by (cases t) (auto simp: hashes_def simp del: enc_tree.simps split: if_splits)

lemma hashes_leaf: "hashes K r E = None" "hashes K r (V v) = None"
  by (simp_all add: hashes_def)

lemma stored_load: "inner t \<Longrightarrow> stored (load K h t)"
  by (cases t) auto

lemma canon_sub: "canon (S k t) \<Longrightarrow> inner t \<Longrightarrow> canon t"
  by (cases t) auto

lemma ref_expands:
  assumes K: "digest32 K" and c: "canon t \<or> value_or_nil t" and "big_in_db db K t"
    and IH: "\<And>c. canon t \<Longrightarrow> inner t \<Longrightarrow> hashes K (c = Top) t \<noteq> None \<longrightarrow> in_db db K t \<Longrightarrow>
      expands (view db) (hashes K) (avail db K) c (load K (hashes K (c = Top) t) t) t"
  shows "expands (view db) (hashes K) (avail db K) (below f) (load_ref K t) t"
proof (cases "inner t")
  case True
  then have ct: "canon t" using c by (cases t) auto
  have d: "hashes K False t \<noteq> None \<longrightarrow> in_db db K t"
    using assms(3) True by (cases t) (auto simp: big_in_db_simps)
  note e = IH [OF ct True, of "Under True"] IH [OF ct True, of "below f"]
  show ?thesis
  proof (cases "hashes K False t")
    case None
    with e(2) d show ?thesis by (simp add: ref_of_def)
  next
    case (Some h)
    then have h: "h = K (enc_tree K t)" using hashes_big [of K t] by simp
    with Some d have "view db (BytesToHash h) = Some (load K (Some h) t)"
      by (simp add: in_db_def view_def Let_def BytesToHash_32 digest32D [OF K])
    with Some e(1) d assms(3) stored_load [OF True] show ?thesis
      by (auto simp: ref_of_def avail_def intro!: expands.hash)
  qed
next
  case False
  then show ?thesis using c by (cases t) (auto simp: ref_of_def hashes_def intro: expands.intros)
qed

lemma load_expands:
  assumes K: "digest32 K" and "canon t" and "inner t" and "big_in_db db K t"
    and "hashes K (c = Top) t \<noteq> None \<longrightarrow> in_db db K t"
  shows "expands (view db) (hashes K) (avail db K) c (load K (hashes K (c = Top) t) t) t"
  using assms(2-)
proof (induction t arbitrary: c)
  case (S k t)
  let ?f = "\<lparr>nf_hash = hashes K (c = Top) (S k t), nf_dirty = False\<rparr>"
  have "canon t \<or> value_or_nil t" "big_in_db db K t" using S.prems by (auto simp: big_in_db_simps split: ptree.splits)
  then have "expands (view db) (hashes K) (avail db K) (below ?f) (load_ref K t) t"
    using S.IH by (intro ref_expands K) auto
  moreover have "flag_ok (hashes K) (avail db K) c ?f (S k t)"
    using S.prems by (auto simp: flag_ok_def avail_def hashes_inner simp del: enc_tree.simps split: option.splits)
  ultimately show ?case by (auto intro: expands.short)
next
  case (F ts)
  let ?f = "\<lparr>nf_hash = hashes K (c = Top) (F ts), nf_dirty = False\<rparr>"
  have "expands (view db) (hashes K) (avail db K) (below ?f) (load_ref K t) t" if t: "t \<in> set ts" for t
  proof (intro ref_expands K)
    from t obtain i where "i < length ts" "t = ts ! i" by (auto simp: in_set_conv_nth)
    with canon_child(2) [OF F.prems(1), of i] F.prems(1) show "canon t \<or> value_or_nil t"
      by (auto simp: canon_F split: if_splits)
    show "big_in_db db K t" using t F.prems(3) by (simp add: big_in_db_simps)
    with F.IH [OF t] show "\<And>c. canon t \<Longrightarrow> inner t \<Longrightarrow> hashes K (c = Top) t \<noteq> None \<longrightarrow> in_db db K t \<Longrightarrow>
      expands (view db) (hashes K) (avail db K) c (load K (hashes K (c = Top) t) t) t" by simp
  qed
  then have "list_all2 (expands (view db) (hashes K) (avail db K) (below ?f)) (map (load_ref K) ts) ts"
    by (simp add: list_all2_conv_all_nth)
  moreover have "flag_ok (hashes K) (avail db K) c ?f (F ts)"
    using F.prems by (auto simp: flag_ok_def avail_def hashes_inner simp del: enc_tree.simps split: option.splits)
  ultimately show ?case by (auto intro: expands.full)
qed auto

subsection \<open>What the committer sends\<close>

definition item_for :: "(bytes \<Rightarrow> bytes) \<Rightarrow> ptree \<Rightarrow> leaf \<Rightarrow> bool" where
  "item_for K t l \<longleftrightarrow> lf_hash l = K (enc_tree K t) \<and> simplifyNode (lf_node l) = Some (raw_tree K t) \<and>
     leaf_values l \<noteq> None"

definition sent :: "Database \<Rightarrow> (bytes \<Rightarrow> bytes) \<Rightarrow> leaf list \<Rightarrow> ptree \<Rightarrow> bool" where
  "sent db K ls t \<longleftrightarrow> in_db db K t \<or> (\<exists>l \<in> set ls. item_for K t l)"

definition big_sent :: "Database \<Rightarrow> (bytes \<Rightarrow> bytes) \<Rightarrow> leaf list \<Rightarrow> ptree \<Rightarrow> bool" where
  "big_sent db K ls t \<longleftrightarrow> (\<forall>u \<in> subs t. hashes K False u \<noteq> None \<longrightarrow> sent db K ls u)"

definition good_items :: "(bytes \<Rightarrow> bytes) \<Rightarrow> ptree \<Rightarrow> leaf list \<Rightarrow> bool" where
  "good_items K t ls \<longleftrightarrow> (\<forall>l \<in> set ls. \<exists>u \<in> subs t. item_for K u l)"

text \<open>The collapsed node that \<open>commit\<close> returns for a tree.\<close>

definition collapsed :: "(bytes \<Rightarrow> bytes) \<Rightarrow> bool \<Rightarrow> node \<Rightarrow> ptree \<Rightarrow> bool" where
  "collapsed K r x t \<longleftrightarrow>
     (case hashes K r t of
       Some h \<Rightarrow> x = HashNode h
     | None \<Rightarrow> simplifyNode x = Some (raw_tree K t) \<and> estimateSize x \<noteq> None \<and> x \<noteq> NilNode)"

definition commit_ok ::
  "Database \<Rightarrow> (bytes \<Rightarrow> bytes) \<Rightarrow> bool \<Rightarrow> node \<Rightarrow> ptree \<Rightarrow> bool"
where
  "commit_ok db K r n t \<longleftrightarrow>
     (\<exists>x items. (\<forall>ls db'. commit n (Some ls, db') = Some (x, (Some (ls @ items), db'))) \<and> good_items K t items \<and>
       collapsed K r x t \<and> big_sent db K items t \<and> (hashes K r t \<noteq> None \<longrightarrow> sent db K items t))"

lemma sent_mono: "sent db K ls t \<Longrightarrow> set ls \<subseteq> set ls' \<Longrightarrow> sent db K ls' t"
  by (auto simp: sent_def)

lemma big_sent_mono: "big_sent db K ls t \<Longrightarrow> set ls \<subseteq> set ls' \<Longrightarrow> big_sent db K ls' t"
  using sent_mono unfolding big_sent_def by blast

lemma big_sent_simps:
  "big_sent db K ls (S k t) \<longleftrightarrow> (hashes K False (S k t) \<noteq> None \<longrightarrow> sent db K ls (S k t)) \<and> big_sent db K ls t"
  "big_sent db K ls (F ts) \<longleftrightarrow>
     (hashes K False (F ts) \<noteq> None \<longrightarrow> sent db K ls (F ts)) \<and> (\<forall>t \<in> set ts. big_sent db K ls t)"
  "big_sent db K ls (V v)" "big_sent db K ls E"
  by (auto simp: big_sent_def)

lemma avail_sent: "avail db K t \<Longrightarrow> sent db K ls t \<and> big_sent db K ls t"
  by (auto simp: avail_def sent_def big_sent_def big_in_db_def)

lemma hashes_False: "hashes K False t = Some h \<Longrightarrow> hashes K r t = Some h"
  using hashes_big [of K t] by (auto simp: hashes_inner)

text \<open>\<open>store\<close> sends the collapsed node of a tree with a hash.\<close>

lemma store_sends:
  assumes K: "digest32 K" and x: "simplifyNode x = Some (raw_tree K t)" "estimateSize x \<noteq> None" "x \<noteq> NilNode"
    and h: "fst (node_cache x) = hashes K r t" and l: "\<And>h n. leaf_values \<lparr>lf_size = n, lf_hash = h, lf_node = x\<rparr> \<noteq> None"
    and t: "inner t"
  shows "\<exists>y items. (\<forall>ls db'. store x (Some ls, db') = Some (y, (Some (ls @ items), db'))) \<and>
    collapsed K r y t \<and> (\<forall>l \<in> set items. item_for K t l) \<and> (hashes K r t \<noteq> None \<longrightarrow> sent db K items t)"
proof (cases "hashes K r t")
  case None
  with x h show ?thesis
    by (intro exI [of _ x] exI [of _ "[]"]) (simp add: store_def collapsed_def)
next
  case (Some w)
  then have w: "w = K (enc_tree K t)" using t by (auto simp: hashes_inner simp del: enc_tree.simps split: if_splits)
  obtain sz where sz: "estimateSize x = Some sz" using x(2) by blast
  let ?l = "\<lparr>lf_size = sz, lf_hash = BytesToHash w, lf_node = x\<rparr>"
  have "item_for K t ?l"
    using x(1) l by (simp add: item_for_def w BytesToHash_32 digest32D [OF K] del: leaf_values.simps)
  with Some h sz show ?thesis
    by (intro exI [of _ "HashNode w"] exI [of _ "[?l]"]) (simp add: store_def collapsed_def sent_def)
qed

lemma collapsed_ref:
  assumes "collapsed K False x t" and "inner t"
  shows "simplifyNode x = Some (raw_ref K t)" "estimateSize x \<noteq> None" "x \<noteq> NilNode"
  using assms by (auto simp: collapsed_def raw_of_def split: option.splits)

text \<open>A tree that is written out in its parent has no hash anywhere below it.\<close>

lemma length_hash_ref:
  assumes "digest32 K" and "hashes K False t \<noteq> None"
  shows "32 < length (enc_ref K t)"
proof -
  have "hashes K False t = Some (K (enc_tree K t))" "inner t" using hashes_big [OF assms(2)] by auto
  then have "enc_ref K t = enc_string (K (enc_tree K t))" by (simp add: enc_ref_inner)
  moreover have "length (K (enc_tree K t)) = 32" using assms(1) by (rule digest32D)
  ultimately show ?thesis
    using headsize_pos [of "len64 (K (enc_tree K t))"]
    by (simp add: enc_string_def single_byte_def length_head_bytes del: enc_tree.simps)
qed

lemma length_concat_mem: "x \<in> set xs \<Longrightarrow> length (f x) \<le> length (concat (map f xs))"
  by (induction xs) auto

lemma embedded_subs:
  assumes K: "digest32 K" and "hashes K False t = None" and "u \<in> subs t"
  shows "hashes K False u = None"
  using assms(2,3)
proof (induction t)
  case (S k t)
  have "length (enc_tree K (S k t)) < 32" using S.prems(1) by (auto simp: hashes_inner split: if_splits)
  then have "length (enc_ref K t) < 32" by simp
  then have "hashes K False t = None" using length_hash_ref [OF K, of t] by (cases "hashes K False t") auto
  with S show ?case by auto
next
  case (F ts)
  have "length (enc_tree K (F ts)) < 32" using F.prems(1) by (auto simp: hashes_inner split: if_splits)
  then have l: "length (concat (map (enc_ref K) ts)) < 32" by simp
  show ?case
  proof (cases "u = F ts")
    case False
    then obtain t where t: "t \<in> set ts" "u \<in> subs t" using F.prems(2) by auto
    then have "length (enc_ref K t) < 32" using length_concat_mem [of t ts "enc_ref K"] l by simp
    then have "hashes K False t = None" using length_hash_ref [OF K, of t] by (cases "hashes K False t") auto
    with F.IH [OF t(1)] t(2) show ?thesis by simp
  qed (use F.prems in simp)
qed auto

text \<open>The places where every node that has a hash has it cached.\<close>

definition settled :: "(bytes \<Rightarrow> bytes) \<Rightarrow> place_in \<Rightarrow> ptree \<Rightarrow> bool" where
  "settled K c t \<longleftrightarrow> c \<noteq> Under False \<or> (\<forall>u \<in> subs t. hashes K False u = None)"

lemma settled_below:
  assumes "digest32 K" and "nf_hash f = hashes K (c = Top) t" and "inner t" and "subs u \<subseteq> subs t"
  shows "settled K (below f) u"
proof (cases "nf_hash f")
  case None
  then have "hashes K False t = None" using assms(2,3) by (auto simp: hashes_inner split: if_splits)
  then show ?thesis using embedded_subs [OF assms(1)] assms(4) by (auto simp: settled_def)
qed (simp add: settled_def below_def)

lemma flag_settled:
  assumes "flag_ok (hashes K) A c f t" and "settled K c t" and "c = Top \<longrightarrow> nf_hash f \<noteq> None" and "inner t"
  shows "nf_hash f = hashes K (c = Top) t"
proof (cases "nf_hash f")
  case None
  with assms(3) have "c \<noteq> Top" by simp
  moreover have "t \<in> subs t" using assms(4) by (cases t) auto
  ultimately show ?thesis
    using None assms(1,2) by (cases c) (auto simp: flag_ok_def settled_def)
qed (use assms(1) in \<open>simp add: flag_ok_def\<close>)

definition child_ok :: "Database \<Rightarrow> (bytes \<Rightarrow> bytes) \<Rightarrow> node \<Rightarrow> ptree \<Rightarrow> bool" where
  "child_ok db K n t \<longleftrightarrow>
     (if inner t then stored n \<and> commit_ok db K False n t \<or>
        (\<exists>h. n = HashNode h \<and> hashes K False t = Some h \<and> avail db K t)
      else t = E \<and> n = NilNode)"

lemma commit_child:
  assumes "child_ok db K n t"
  shows "\<exists>x items. (\<forall>ls db'. (case n of NilNode \<Rightarrow> Some (NilNode, (Some ls, db')) | HashNode hn \<Rightarrow> Some (HashNode hn, (Some ls, db'))
        | _ \<Rightarrow> commit n (Some ls, db')) = Some (x, (Some (ls @ items), db'))) \<and> good_items K t items \<and>
      big_sent db K items t \<and>
      (if t = E then x = NilNode else x \<noteq> NilNode \<and> simplifyNode x = Some (raw_ref K t) \<and> estimateSize x \<noteq> None)"
proof (cases "inner t")
  case True
  then consider (c) "stored n" "commit_ok db K False n t"
    | (h) h where "n = HashNode h" "hashes K False t = Some h" "avail db K t"
    using assms by (auto simp: child_ok_def)
  then show ?thesis
  proof cases
    case c
    then obtain x items where x: "\<forall>ls db'. commit n (Some ls, db') = Some (x, (Some (ls @ items), db'))"
      "good_items K t items" "collapsed K False x t" "big_sent db K items t" by (auto simp: commit_ok_def)
    with c(1) collapsed_ref [OF x(3) True] True show ?thesis
      by (intro exI [of _ x] exI [of _ items]) (cases n; auto simp del: commit.simps)
  next
    case h
    with avail_sent [of db K t "[]"] True show ?thesis
      by (intro exI [of _ n] exI [of _ "[]"]) (auto simp: good_items_def raw_of_def)
  qed
next
  case False
  then have "t = E" "n = NilNode" using assms by (auto simp: child_ok_def)
  then show ?thesis by (intro exI [of _ NilNode] exI [of _ "[]"]) (simp add: good_items_def big_sent_simps)
qed

lemma commit_from_ok:
  assumes "list_all2 (child_ok db K) ns ts" and "i + length ns = 16"
  shows "\<exists>xs items. (\<forall>ls db'. commit_from i (ns @ [n]) (Some ls, db') = Some (xs @ [n], (Some (ls @ items), db'))) \<and>
    (\<forall>l \<in> set items. \<exists>t \<in> set ts. \<exists>u \<in> subs t. item_for K u l) \<and> (\<forall>t \<in> set ts. big_sent db K items t) \<and>
    list_all2 (\<lambda>x t. if t = E then x = NilNode
      else x \<noteq> NilNode \<and> simplifyNode x = Some (raw_ref K t) \<and> estimateSize x \<noteq> None) xs ts"
  using assms
proof (induction ts arbitrary: ns i rule: list.induct)
  case Nil
  then show ?case by (intro exI [of _ "[]"]) simp
next
  case (Cons t ts)
  from Cons.prems(1) obtain m ns' where ns: "ns = m # ns'" and m: "child_ok db K m t"
    and l: "list_all2 (child_ok db K) ns' ts" by (auto simp: list_all2_Cons2)
  from commit_child [OF m] obtain x items where x: "\<And>ls db'. (case m of NilNode \<Rightarrow> Some (NilNode, (Some ls, db'))
        | HashNode hn \<Rightarrow> Some (HashNode hn, (Some ls, db')) | _ \<Rightarrow> commit m (Some ls, db')) = Some (x, (Some (ls @ items), db'))"
    "good_items K t items" "big_sent db K items t"
    "if t = E then x = NilNode else x \<noteq> NilNode \<and> simplifyNode x = Some (raw_ref K t) \<and> estimateSize x \<noteq> None" by blast
  from Cons.IH [OF l, of "i + 1"] Cons.prems(2) ns obtain xs items' where
    xs: "\<And>ls db'. commit_from (i + 1) (ns' @ [n]) (Some ls, db') = Some (xs @ [n], (Some (ls @ items'), db'))"
    "\<forall>l \<in> set items'. \<exists>t \<in> set ts. \<exists>u \<in> subs t. item_for K u l" "\<forall>t \<in> set ts. big_sent db K items' t"
    "list_all2 (\<lambda>x t. if t = E then x = NilNode
      else x \<noteq> NilNode \<and> simplifyNode x = Some (raw_ref K t) \<and> estimateSize x \<noteq> None) xs ts" by auto
  have "commit_from i (ns @ [n]) (Some ls, db') = Some ((x # xs) @ [n], (Some (ls @ items @ items'), db'))" for ls db'
    using x(1) [of ls db'] xs(1) [of "ls @ items" db'] Cons.prems(2) by (simp add: ns)
  moreover have "\<forall>l \<in> set (items @ items'). \<exists>t \<in> set (t # ts). \<exists>u \<in> subs t. item_for K u l"
    using x(2) xs(2) by (auto simp: good_items_def)
  moreover have "\<forall>t \<in> set (t # ts). big_sent db K (items @ items') t"
    using x(3) xs(3) big_sent_mono by fastforce
  ultimately show ?case
    using x(4) xs(4) by (intro exI [of _ "x # xs"] exI [of _ "items @ items'"]) auto
qed

lemma simplify_kids:
  assumes "list_all2 (\<lambda>x t. if t = E then x = NilNode
      else x \<noteq> NilNode \<and> simplifyNode x = Some (raw_ref K t) \<and> estimateSize x \<noteq> None) xs ts"
  shows "simplify_children xs = Some (map (raw_ref K) ts)"
    and "estimateSize (FullNode xs f) \<noteq> None"
proof -
  show "simplify_children xs = Some (map (raw_ref K) ts)"
    using assms
    by (induction rule: list_all2_induct) (auto simp: raw_of_def hashes_def split: if_splits)
  have "\<forall>x \<in> set xs. x \<noteq> NilNode \<longrightarrow> estimateSize x \<noteq> None"
    using assms by (induction rule: list_all2_induct) (auto split: if_splits)
  moreover have "fold (\<lambda>child s. do {
       s \<leftarrow> s;
       if child \<noteq> NilNode then map_option (\<lambda>c. s + c) (estimateSize child) else Some (s + 1)
     }) ys (Some n) \<noteq> None" if "\<forall>x \<in> set ys. x \<noteq> NilNode \<longrightarrow> estimateSize x \<noteq> None" for ys n
    using that by (induction ys arbitrary: n) auto
  ultimately show "estimateSize (FullNode xs f) \<noteq> None"
    using set_take_subset [of 16 xs] by (simp del: not_None_eq) blast
qed

lemma commit_step:
  assumes K: "digest32 K" and child: "\<And>ls db'. g (Some ls, db') = Some (x, (Some (ls @ items), db'))"
    and items: "\<forall>l \<in> set items. \<exists>u \<in> subs t. item_for K u l"
    and big: "\<forall>u \<in> subs t. u \<noteq> t \<longrightarrow> hashes K False u \<noteq> None \<longrightarrow> sent db K items u"
    and n: "\<And>s. commit n s = do { (y, s) \<leftarrow> g s; store (mk y) s }"
    and mk: "simplifyNode (mk x) = Some (raw_tree K t)" "estimateSize (mk x) \<noteq> None" "mk x \<noteq> NilNode"
      "fst (node_cache (mk x)) = hashes K r t"
      "\<And>h n. leaf_values \<lparr>lf_size = n, lf_hash = h, lf_node = mk x\<rparr> \<noteq> None"
    and t: "inner t"
  shows "commit_ok db K r n t"
proof -
  from store_sends [OF K mk t, of db] obtain y items' where
    y: "\<And>ls db'. store (mk x) (Some ls, db') = Some (y, (Some (ls @ items'), db'))"
    "collapsed K r y t" "\<forall>l \<in> set items'. item_for K t l" "hashes K r t \<noteq> None \<longrightarrow> sent db K items' t" by blast
  have tt: "t \<in> subs t" using t by (cases t) auto
  have s: "hashes K r t \<noteq> None \<longrightarrow> sent db K (items @ items') t" using y(4) sent_mono [of db K items' t "items @ items'"] by simp
  have "big_sent db K (items @ items') t"
    unfolding big_sent_def
  proof (intro ballI impI)
    fix u
    assume u: "u \<in> subs t" "hashes K False u \<noteq> None"
    then have "u = t \<longrightarrow> hashes K r t \<noteq> None" using hashes_False [of K t _ r] by auto
    with u s big sent_mono [of db K items u "items @ items'"] show "sent db K (items @ items') u" by auto
  qed
  moreover have "good_items K t (items @ items')" using items y(3) tt by (auto simp: good_items_def)
  moreover have "commit n (Some ls, db') = Some (y, (Some (ls @ items @ items'), db'))" for ls db'
    using n [of "(Some ls, db')"] child [of ls db'] y(1) [of "ls @ items" db'] by simp
  ultimately show ?thesis using y(2) s unfolding commit_ok_def by blast
qed

lemma commit_clean:
  assumes "avail db K t" and "hashes K r t = Some h" and "\<And>s. commit n s = Some (HashNode h, s)"
  shows "commit_ok db K r n t"
  using avail_sent [OF assms(1), of "[]"] assms(2,3)
  by (auto simp: commit_ok_def good_items_def collapsed_def intro: exI [of _ "[]"])

lemma commit_short:
  assumes K: "digest32 K" and e: "expands db' (hashes K) (avail db K) (below f) n t"
    and h: "nf_hash f = hashes K r (S k t)" and ok: "nf_dirty f \<or> nf_hash f = None \<or> avail db K (S k t)"
    and IH: "inner t \<Longrightarrow> stored n \<Longrightarrow> commit_ok db K False n t" and c: "canon (S k t)"
  shows "commit_ok db K r (ShortNode k n f) (S k t)"
proof (cases "nf_hash f \<noteq> None \<and> \<not> nf_dirty f")
  case True
  with ok h show ?thesis by (intro commit_clean [where h = "the (nf_hash f)"]) auto
next
  case False
  let ?g = "\<lambda>s. if is_full n then commit n s else Some (n, s)"
  have "\<exists>x items. (\<forall>ls db'. ?g (Some ls, db') = Some (x, (Some (ls @ items), db'))) \<and> good_items K t items \<and>
      big_sent db K items t \<and> simplifyNode x = Some (raw_ref K t) \<and> estimateSize x \<noteq> None"
  proof (cases "inner t")
    case True
    then obtain ts where ts: "t = F ts" using c by (cases t) auto
    from e [unfolded ts] show ?thesis
    proof (cases rule: expands.cases)
      case (full f' ns)
      then obtain x items where x: "\<forall>ls db'. commit n (Some ls, db') = Some (x, (Some (ls @ items), db'))"
        "good_items K t items" "collapsed K False x t" "big_sent db K items t"
        using IH [OF True] by (auto simp: commit_ok_def simp del: commit.simps)
      with full collapsed_ref [OF x(3) True] ts show ?thesis by (auto simp del: commit.simps raw_tree.simps)
    next
      case (hash w m)
      with avail_sent [of db K t "[]"] ts show ?thesis
        by (intro exI [of _ n] exI [of _ "[]"]) (auto simp: good_items_def raw_of_def)
    qed
  next
    case False
    then obtain v where "t = V v" using c by (cases t) auto
    with expands_val_iff [OF e, of v] show ?thesis
      by (intro exI [of _ n] exI [of _ "[]"]) (simp add: good_items_def big_sent_simps raw_of_def hashes_def)
  qed
  then obtain x items where x: "\<And>ls db'. ?g (Some ls, db') = Some (x, (Some (ls @ items), db'))" "good_items K t items"
    "big_sent db K items t" "simplifyNode x = Some (raw_ref K t)" "estimateSize x \<noteq> None" by blast
  show ?thesis
  proof (rule commit_step [OF K x(1)])
    show "\<forall>l \<in> set items. \<exists>u \<in> subs (S k t). item_for K u l" using x(2) by (auto simp: good_items_def)
    show "\<forall>u \<in> subs (S k t). u \<noteq> S k t \<longrightarrow> hashes K False u \<noteq> None \<longrightarrow> sent db K items u"
      using x(3) by (auto simp: big_sent_def)
    show "commit (ShortNode k n f) s = do { (y, s) \<leftarrow> ?g s; store (ShortNode (hexToCompact k) y f) s }" for s
      using False by (subst commit.simps) auto
  qed (use x h in \<open>auto split: node.splits\<close>)
qed

lemma commit_full:
  assumes K: "digest32 K" and L: "list_all2 (expands db' (hashes K) (avail db K) (below f)) ns ts"
    and h: "nf_hash f = hashes K r (F ts)" and ok: "nf_dirty f \<or> nf_hash f = None \<or> avail db K (F ts)"
    and IH: "\<And>i. i < 16 \<Longrightarrow> inner (ts ! i) \<Longrightarrow> stored (ns ! i) \<Longrightarrow> commit_ok db K False (ns ! i) (ts ! i)"
    and c: "canon (F ts)"
  shows "commit_ok db K r (FullNode ns f) (F ts)"
proof (cases "nf_hash f \<noteq> None \<and> \<not> nf_dirty f")
  case True
  with ok h show ?thesis by (intro commit_clean [where h = "the (nf_hash f)"]) auto
next
  case False
  have lt: "length ts = 17" using c by (simp add: canon_F)
  have ln: "length ns = 17" using list_all2_lengthD [OF L] lt by simp
  have ts: "ts = take 16 ts @ [ts ! 16]" using lt take_Suc_conv_app_nth [of 16 ts] by simp
  have ns: "ns = take 16 ns @ [ns ! 16]" using ln take_Suc_conv_app_nth [of 16 ns] by simp
  have "child_ok db K (ns ! i) (ts ! i)" if i: "i < 16" for i
  proof -
    have e: "expands db' (hashes K) (avail db K) (below f) (ns ! i) (ts ! i)"
      using list_all2_nthD [OF L] i ln by simp
    have "ts ! i = E \<or> inner (ts ! i)" using c i canon_inner by (simp add: canon_F)
    with e IH [OF i] show ?thesis
      by (cases rule: expands.cases) (auto simp: child_ok_def hashes_leaf)
  qed
  then have "list_all2 (child_ok db K) (take 16 ns) (take 16 ts)"
    using ln lt by (simp add: list_all2_conv_all_nth)
  from commit_from_ok [OF this, of 0 "ns ! 16"] ln obtain xs items where
    x: "\<And>ls db'. commit_from 0 ns (Some ls, db') = Some (xs @ [ns ! 16], (Some (ls @ items), db'))"
    "\<forall>l \<in> set items. \<exists>t \<in> set (take 16 ts). \<exists>u \<in> subs t. item_for K u l"
    "\<forall>t \<in> set (take 16 ts). big_sent db K items t"
    and l: "list_all2 (\<lambda>x t. if t = E then x = NilNode
      else x \<noteq> NilNode \<and> simplifyNode x = Some (raw_ref K t) \<and> estimateSize x \<noteq> None) xs (take 16 ts)"
    using ns by auto
  have e: "expands db' (hashes K) (avail db K) (below f) (ns ! 16) (ts ! 16)"
    using list_all2_nthD [OF L, of 16] ln by simp
  have "value_or_nil (ts ! 16)" using c by (simp add: canon_F)
  then have v: "(ts ! 16 = E \<and> ns ! 16 = NilNode) \<or> (\<exists>v. ts ! 16 = V v \<and> ns ! 16 = ValueNode v)"
    using expands_nil_iff [OF e] expands_val_iff [OF e] by (cases "ts ! 16") auto
  have "list_all2 (\<lambda>x t. if t = E then x = NilNode
      else x \<noteq> NilNode \<and> simplifyNode x = Some (raw_ref K t) \<and> estimateSize x \<noteq> None) (xs @ [ns ! 16]) ts"
    using v by (subst ts, intro list_all2_appendI l) (auto simp: raw_of_def hashes_def)
  note s = simplify_kids [OF this]
  have big16: "subs (ts ! 16) = {}" using v by auto
  have lx: "length xs = 16" using list_all2_lengthD [OF l] lt by simp
  show ?thesis
  proof (rule commit_step [OF K x(1)])
    show "\<forall>l \<in> set items. \<exists>u \<in> subs (F ts). item_for K u l"
      using x(2) set_take_subset [of 16 ts] by fastforce
    show "\<forall>u \<in> subs (F ts). u \<noteq> F ts \<longrightarrow> hashes K False u \<noteq> None \<longrightarrow> sent db K items u"
    proof (intro ballI impI)
      fix u
      assume u: "u \<in> subs (F ts)" "u \<noteq> F ts" "hashes K False u \<noteq> None"
      then obtain t where t: "t \<in> set ts" "u \<in> subs t" by auto
      then have "t \<in> set (take 16 ts) \<or> t = ts ! 16" using ts by (metis Un_iff empty_iff insert_iff list.set(1,2) set_append)
      with t(2) big16 x(3) u(3) show "sent db K items u" by (auto simp: big_sent_def)
    qed
    show "commit (FullNode ns f) s = do { (y, s) \<leftarrow> commit_from 0 ns s; store (FullNode y f) s }" for s
      using False by (subst commit.simps) auto
  qed (use s h v lx in \<open>auto simp: nth_append\<close>)
qed

lemma commit_sends:
  assumes K: "digest32 K" and "expands db' (hashes K) (avail db K) c n t" and "settled K c t" and "canon t"
    and "inner t" and "c = Top \<longrightarrow> fst (node_cache n) \<noteq> None \<or> is_hash n"
  shows "commit_ok db K (c = Top) n t"
  using assms(2-)
proof (induction rule: expands.induct)
  case (short f n t c k)
  have h: "nf_hash f = hashes K (c = Top) (S k t)"
    using short.prems by (intro flag_settled [OF short.hyps(2)]) (auto simp: is_hash_def)
  show ?case
  proof (rule commit_short [OF K short.hyps(1) h])
    show "nf_dirty f \<or> nf_hash f = None \<or> avail db K (S k t)"
      using short.hyps(2) by (auto simp: flag_ok_def split: option.splits)
    show "commit_ok db K False n t" if "inner t" "stored n"
      using short.IH settled_below [OF K h, of t] that short.prems(2) canon_sub by auto
  qed (rule short.prems(2))
next
  case (full f ns ts c)
  have L: "list_all2 (expands db' (hashes K) (avail db K) (below f)) ns ts"
    using full.IH by (rule list_all2_mono) simp
  have h: "nf_hash f = hashes K (c = Top) (F ts)"
    using full.prems by (intro flag_settled [OF full.hyps]) (auto simp: is_hash_def)
  have l: "length ts = 17" "length ns = 17"
    using full.prems(2) list_all2_lengthD [OF L] by (auto simp: canon_F)
  show ?case
  proof (rule commit_full [OF K L h])
    show "nf_dirty f \<or> nf_hash f = None \<or> avail db K (F ts)"
      using full.hyps by (auto simp: flag_ok_def split: option.splits)
    show "commit_ok db K False (ns ! i) (ts ! i)" if "i < 16" "inner (ts ! i)" "stored (ns ! i)" for i
    proof -
      have "settled K (below f) (ts ! i)"
        using that l by (intro settled_below [OF K h]) auto
      moreover have "canon (ts ! i)" using full.prems(2) that by (simp add: canon_F)
      ultimately show ?thesis using list_all2_nthD [OF full.IH, of i] that l by simp
    qed
  qed (rule full.prems(2))
next
  case (hash h n c t)
  then show ?case by (intro commit_clean) auto
qed auto

end
