(* ===== verification/Trie_Persist.thy ===== *)
theory Trie_Persist
  imports Trie_Commit
begin

text \<open>
  The nodes that the committer sends are inserted into the database, at once or through the
  channel, and the trie can be opened again from its root hash.
\<close>

subsection \<open>The two ways into the database\<close>

fun insert_all :: "leaf list \<Rightarrow> Database \<Rightarrow> Database option" where
  "insert_all [] db = Some db"
| "insert_all (l # ls) db = do {
     db \<leftarrow> db_insert (lf_hash l) (lf_size l) (lf_node l) db;
     insert_all ls db
   }"

lemma insert_all_append: "insert_all (ls @ ls') db = Option.bind (insert_all ls db) (insert_all ls')"
  by (induction ls arbitrary: db) (auto split: Option.bind_split)

text \<open>\<open>writer g r\<close>: the computation \<open>g\<close> returns and sends \<open>r\<close>, over the channel or straight into
  the database.\<close>

definition writer :: "(cstate \<Rightarrow> ('a \<times> cstate) option) \<Rightarrow> ('a \<times> leaf list) option \<Rightarrow> bool" where
  "writer g r \<longleftrightarrow>
     (\<forall>ls db. g (Some ls, db) = map_option (\<lambda>(x, is). (x, (Some (ls @ is), db))) r) \<and>
     (\<forall>db. g (None, db) = do {
        (x, is) \<leftarrow> r;
        db \<leftarrow> insert_all is db;
        Some (x, (None, db))
      })"

lemma writer_return: "writer (\<lambda>s. Some (x, s)) (Some (x, []))"
  by (simp add: writer_def)

lemma writer_None: "writer (\<lambda>s. None) None"
  by (simp add: writer_def)

lemma writer_bind:
  assumes "writer g r" and "\<And>x. writer (k x) (q x)"
  shows "writer (\<lambda>s. do { (x, s) \<leftarrow> g s; k x s })
    (do { (x, is) \<leftarrow> r; (y, js) \<leftarrow> q x; Some (y, is @ js) })"
proof (cases r)
  case (Some p)
  obtain x ls where p: "p = (x, ls)" by (cases p)
  show ?thesis
    using assms(1) assms(2) [of x] unfolding Some p
    by (cases "q x") (auto simp: writer_def insert_all_append bind_eq_None_conv split: option.splits)
qed (use assms(1) in \<open>simp add: writer_def\<close>)

lemma writer_store: "\<exists>r. writer (store n) r"
proof (cases "fst (node_cache n)")
  case None
  then have "store n = (\<lambda>s. Some (n, s))" by (simp add: fun_eq_iff store_def)
  then show ?thesis using writer_return by metis
next
  case (Some h)
  show ?thesis
  proof (cases "estimateSize n")
    case None
    with Some have "store n = (\<lambda>s. None)" by (simp add: fun_eq_iff store_def)
    then show ?thesis using writer_None by metis
  next
    case (Some sz)
    let ?l = "\<lparr>lf_size = sz, lf_hash = BytesToHash h, lf_node = n\<rparr>"
    have "writer (store n) (Some (HashNode h, [?l]))"
      using Some \<open>fst (node_cache n) = Some h\<close>
      by (auto simp: writer_def store_def map_option_case split: option.splits)
    then show ?thesis ..
  qed
qed

lemma writer_ex_bind:
  assumes "\<exists>r. writer g r" and "\<And>x. \<exists>r. writer (k x) r"
  shows "\<exists>r. writer (\<lambda>s. do { (x, s) \<leftarrow> g s; k x s }) r"
proof -
  obtain r where r: "writer g r" using assms(1) ..
  obtain q where "\<And>x. writer (k x) (q x)" using assms(2) by metis
  from writer_bind [of g r k q, OF r this] show ?thesis by blast
qed

lemma writer_commit_from:
  assumes "\<And>c. c \<in> set ns \<Longrightarrow> \<exists>r. writer (commit c) r"
  shows "\<exists>r. writer (commit_from i ns) r"
  using assms
proof (induction ns arbitrary: i)
  case Nil
  have "commit_from i [] = (\<lambda>s. Some ([], s))" by (simp add: fun_eq_iff)
  then show ?case using writer_return by metis
next
  case (Cons c cs)
  let ?g = "\<lambda>s. if i < 16 then (case c of NilNode \<Rightarrow> Some (NilNode, s) | HashNode hn \<Rightarrow> Some (HashNode hn, s)
    | _ \<Rightarrow> commit c s) else Some (c, s)"
  have e: "commit_from i (c # cs) =
    (\<lambda>s. do { (x, s) \<leftarrow> ?g s; (\<lambda>s. do { (xs, s) \<leftarrow> commit_from (i + 1) cs s; (\<lambda>s. Some (x # xs, s)) s }) s })"
    by (rule ext) (subst commit_from.simps, rule refl)
  have "\<exists>r. writer ?g r"
    using Cons.prems [of c] by (cases c; cases "i < 16") (auto intro: writer_return simp del: commit.simps)
  moreover have "\<exists>r. writer (commit_from (i + 1) cs) r" using Cons by simp
  ultimately show ?case
    unfolding e by (intro writer_ex_bind) (auto intro: writer_return)
qed

lemma writer_commit: "\<exists>r. writer (commit n) r"
proof (induction n)
  case (ShortNode k v f)
  show ?case
  proof (cases "nf_hash f \<noteq> None \<and> \<not> nf_dirty f")
    case True
    then have "commit (ShortNode k v f) = (\<lambda>s. Some (HashNode (the (nf_hash f)), s))"
      by (auto simp: fun_eq_iff)
    then show ?thesis using writer_return by metis
  next
    case False
    then have e: "commit (ShortNode k v f) =
      (\<lambda>s. do { (childV, s) \<leftarrow> (if is_full v then commit v s else Some (v, s)); store (ShortNode (hexToCompact k) childV f) s })"
      by (auto simp: fun_eq_iff)
    have "\<exists>r. writer (\<lambda>s. if is_full v then commit v s else Some (v, s)) r"
      using ShortNode by (cases "is_full v") (auto intro: writer_return)
    then show ?thesis unfolding e by (intro writer_ex_bind writer_store)
  qed
next
  case (FullNode ns f)
  show ?case
  proof (cases "nf_hash f \<noteq> None \<and> \<not> nf_dirty f")
    case True
    then have "commit (FullNode ns f) = (\<lambda>s. Some (HashNode (the (nf_hash f)), s))"
      by (auto simp: fun_eq_iff)
    then show ?thesis using writer_return by metis
  next
    case False
    then have e: "commit (FullNode ns f) = (\<lambda>s. do { (kids, s) \<leftarrow> commit_from 0 ns s; store (FullNode kids f) s })"
      by (auto simp: fun_eq_iff)
    show ?thesis unfolding e using FullNode by (intro writer_ex_bind writer_store writer_commit_from)
  qed
next
  case (HashNode h)
  have "commit (HashNode h) = (\<lambda>s. Some (HashNode h, s))" by (simp add: fun_eq_iff)
  then show ?case using writer_return by metis
next
  case NilNode
  have "commit NilNode = (\<lambda>s. None)" by (simp add: fun_eq_iff)
  then show ?case using writer_None by metis
next
  case (ValueNode v)
  have "commit (ValueNode v) = (\<lambda>s. None)" by (simp add: fun_eq_iff)
  then show ?case using writer_None by metis
qed

lemma commit_direct:
  assumes "\<And>ls db'. commit n (Some ls, db') = Some (x, (Some (ls @ items), db'))"
  shows "commit n (None, db) = map_option (\<lambda>db. (x, (None, db))) (insert_all items db)"
proof -
  obtain r where r: "writer (commit n) r" using writer_commit ..
  have "map_option (\<lambda>(x, is). (x, (Some ([] @ is), db))) r = Some (x, (Some ([] @ items), db))"
    using r assms [of "[]" db] unfolding writer_def by metis
  then have "r = Some (x, items)" by auto
  with r show ?thesis by (auto simp: writer_def map_option_case split: option.splits)
qed

lemma commitLoop_insert_all:
  assumes "\<forall>l \<in> set items. leaf_values l \<noteq> None" and "insert_all items db = Some db'"
  shows "\<exists>vs. commitLoop items db = Some (vs, db')"
  using assms
proof (induction items arbitrary: db)
  case (Cons l items)
  then show ?case by (auto simp: bind_eq_Some_conv simp del: leaf_values.simps)
qed simp

subsection \<open>Inserting the nodes\<close>

text \<open>
  \<open>sound K T\<close>: on the encodings of the trees in \<open>T\<close> the hash function has no collisions and avoids
  the two hashes with a special meaning.
\<close>

definition sound :: "(bytes \<Rightarrow> bytes) \<Rightarrow> ptree set \<Rightarrow> bool" where
  "sound K T \<longleftrightarrow> digest32 K \<and> inj_on (\<lambda>t. K (enc_tree K t)) T \<and>
     (\<forall>t \<in> T. canon t \<and> inner t \<and> K (enc_tree K t) \<noteq> zeroHash \<and> K (enc_tree K t) \<noteq> emptyRoot)"

text \<open>Every entry of the database is the node of a tree in \<open>T\<close>.\<close>

definition db_ok :: "(bytes \<Rightarrow> bytes) \<Rightarrow> ptree set \<Rightarrow> Database \<Rightarrow> bool" where
  "db_ok K T db \<longleftrightarrow>
     (\<forall>h e. dirties db h = Some e \<longrightarrow> h \<noteq> zeroHash \<longrightarrow>
       (\<exists>t \<in> T. h = K (enc_tree K t) \<and> cn_node e = raw_tree K t)) \<and>
     (oldest db \<noteq> zeroHash \<longrightarrow> dirties db (newest db) \<noteq> None)"

text \<open>What an insertion changes in the other entries is not their node.\<close>

definition same_nodes :: "Database \<Rightarrow> Database \<Rightarrow> bool" where
  "same_nodes db db' \<longleftrightarrow> diskdb db' = diskdb db \<and>
     (\<forall>h. map_option cn_node (dirties db' h) = map_option cn_node (dirties db h))"

lemma same_nodes_refl: "same_nodes db db"
  by (simp add: same_nodes_def)

lemma same_nodes_trans: "same_nodes a b \<Longrightarrow> same_nodes b c \<Longrightarrow> same_nodes a c"
  by (simp add: same_nodes_def)

lemma same_nodes_add_parent: "same_nodes db (add_parent h db)"
  by (auto simp: same_nodes_def add_parent_def split: option.split)

lemma add_parents:
  "same_nodes db (fold add_parent hs db) \<and> oldest (fold add_parent hs db) = oldest db \<and>
   newest (fold add_parent hs db) = newest db \<and> dirtiesSize (fold add_parent hs db) = dirtiesSize db \<and>
   childrenSize (fold add_parent hs db) = childrenSize db"
proof (induction hs arbitrary: db)
  case (Cons h hs)
  have "oldest (add_parent h db) = oldest db" "newest (add_parent h db) = newest db"
    "dirtiesSize (add_parent h db) = dirtiesSize db" "childrenSize (add_parent h db) = childrenSize db"
    by (auto simp: add_parent_def split: option.split)
  with Cons.IH [of "add_parent h db"] same_nodes_trans [OF same_nodes_add_parent, of h db]
  show ?case by simp
qed (simp add: same_nodes_refl)

lemma same_nodes_dom: "same_nodes db db' \<Longrightarrow> dirties db' h = None \<longleftrightarrow> dirties db h = None"
  unfolding same_nodes_def by (metis map_option_is_None)

lemma db_insert_new:
  assumes "dirties db h = None" and "simplifyNode n = Some r"
    and "oldest db \<noteq> zeroHash \<longrightarrow> dirties db (newest db) \<noteq> None"
  shows "\<exists>db'. db_insert h sz n db = Some db' \<and> diskdb db' = diskdb db \<and>
    map_option cn_node (dirties db' h) = Some r \<and> newest db' = h \<and>
    (\<forall>h'. h' \<noteq> h \<longrightarrow> map_option cn_node (dirties db' h') = map_option cn_node (dirties db h'))"
proof -
  let ?db = "fold add_parent (forGatherChildren r) db"
  note p = add_parents [where db = db and hs = "forGatherChildren r"]
  show ?thesis
  proof (cases "oldest db = zeroHash")
    case True
    with assms p show ?thesis by (simp add: db_insert_def same_nodes_def Let_def)
  next
    case False
    then have ne: "newest db \<noteq> h" using assms(1,3) by auto
    from False assms p same_nodes_dom [OF conjunct1 [OF p], of "newest db"] obtain e where
      "dirties ?db (newest db) = Some e" by auto
    moreover have "map_option cn_node (dirties db (newest db)) = map_option cn_node (dirties ?db (newest db))"
      using p by (simp add: same_nodes_def)
    moreover from calculation obtain z where "dirties db (newest db) = Some z" "cn_node z = cn_node e" by auto
    ultimately show ?thesis using ne False assms p by (simp add: db_insert_def same_nodes_def at_entry_def Let_def)
  qed
qed

lemma db_node_cong:
  assumes "map_option cn_node (dirties db' h) = map_option cn_node (dirties db h)" and "diskdb db' = diskdb db"
  shows "db_node db' h = db_node db h"
  using assms
  by (cases "dirties db' h"; cases "dirties db h") (simp_all add: db_node_def cn_obj_def)

lemma sound_inj: "sound K T \<Longrightarrow> t \<in> T \<Longrightarrow> u \<in> T \<Longrightarrow> K (enc_tree K u) = K (enc_tree K t) \<Longrightarrow> u = t"
  unfolding sound_def by (blast dest: inj_onD)

lemma in_db_entry:
  assumes "canon t" "inner t" and "map_option cn_node (dirties db (K (enc_tree K t))) = Some (raw_tree K t)"
  shows "in_db db K t"
  using assms cn_obj_tree [OF assms(1,2)]
  by (auto simp: in_db_def db_node_def Let_def simp del: enc_tree.simps load.simps)

lemma db_insert_item:
  assumes s: "sound K T" and ok: "db_ok K T db" and t: "t \<in> T" and l: "item_for K t l"
  shows "\<exists>db'. db_insert (lf_hash l) (lf_size l) (lf_node l) db = Some db' \<and> db_ok K T db' \<and> in_db db' K t \<and>
    (\<forall>u \<in> T. in_db db K u \<longrightarrow> in_db db' K u)"
proof -
  let ?h = "K (enc_tree K t)"
  have h: "lf_hash l = ?h" "simplifyNode (lf_node l) = Some (raw_tree K t)" using l by (auto simp: item_for_def)
  have t': "canon t" "inner t" "?h \<noteq> zeroHash" using s t by (auto simp: sound_def)
  have inj: "u = t" if "u \<in> T" "K (enc_tree K u) = ?h" for u
    using s t that by (rule sound_inj)
  show ?thesis
  proof (cases "dirties db ?h")
    case (Some e)
    then obtain u where "u \<in> T" "?h = K (enc_tree K u)" "cn_node e = raw_tree K u"
      using ok t'(3) by (auto simp: db_ok_def)
    with inj have "cn_node e = raw_tree K t" by metis
    with Some in_db_entry [OF t'(1,2)] have "in_db db K t" by simp
    with Some ok h show ?thesis by (simp add: db_insert_def)
  next
    case None
    have "oldest db \<noteq> zeroHash \<longrightarrow> dirties db (newest db) \<noteq> None" using ok by (simp add: db_ok_def)
    from db_insert_new [OF None h(2) this, of "lf_size l"] obtain db' where
      db': "db_insert ?h (lf_size l) (lf_node l) db = Some db'" "diskdb db' = diskdb db"
      "map_option cn_node (dirties db' ?h) = Some (raw_tree K t)" "newest db' = ?h"
      "\<And>h'. h' \<noteq> ?h \<Longrightarrow> map_option cn_node (dirties db' h') = map_option cn_node (dirties db h')"
      by blast
    have tin: "in_db db' K t" using in_db_entry [OF t'(1,2) db'(3)] .
    have "db_ok K T db'"
      unfolding db_ok_def
    proof (intro conjI allI impI)
      fix h' e
      assume e: "dirties db' h' = Some e" "h' \<noteq> zeroHash"
      show "\<exists>t \<in> T. h' = K (enc_tree K t) \<and> cn_node e = raw_tree K t"
      proof (cases "h' = ?h")
        case True
        with e db'(3) t show ?thesis by auto
      next
        case False
        from db'(5) [OF this] e(1) obtain e' where "dirties db h' = Some e'" "cn_node e' = cn_node e"
          by (auto simp: map_option_case split: option.splits)
        with e(2) ok show ?thesis unfolding db_ok_def by metis
      qed
    qed (use db'(3,4) in auto)
    moreover have "in_db db' K u" if u: "u \<in> T" "in_db db K u" for u
    proof (cases "u = t")
      case False
      then have "K (enc_tree K u) \<noteq> ?h" using inj u(1) by blast
      from db_node_cong [OF db'(5) [OF this] db'(2)] u(2) show ?thesis by (simp add: in_db_def Let_def)
    qed (use tin in simp)
    ultimately show ?thesis using db'(1) h(1) tin by auto
  qed
qed

lemma insert_all_items:
  assumes s: "sound K T" and "db_ok K T db" and "\<forall>l \<in> set items. \<exists>t \<in> T. item_for K t l"
  shows "\<exists>db'. insert_all items db = Some db' \<and> db_ok K T db' \<and> (\<forall>u \<in> T. in_db db K u \<longrightarrow> in_db db' K u) \<and>
    (\<forall>u \<in> T. (\<exists>l \<in> set items. item_for K u l) \<longrightarrow> in_db db' K u)"
  using assms(2,3)
proof (induction items arbitrary: db)
  case (Cons l items)
  from Cons.prems(2) obtain t where t: "t \<in> T" "item_for K t l" by auto
  from db_insert_item [OF s Cons.prems(1) t] obtain db1 where
    d: "db_insert (lf_hash l) (lf_size l) (lf_node l) db = Some db1" "db_ok K T db1" "in_db db1 K t"
    "\<forall>u \<in> T. in_db db K u \<longrightarrow> in_db db1 K u" by blast
  from Cons.IH [OF d(2)] Cons.prems(2) obtain db' where
    d': "insert_all items db1 = Some db'" "db_ok K T db'" "\<forall>u \<in> T. in_db db1 K u \<longrightarrow> in_db db' K u"
    "\<forall>u \<in> T. (\<exists>l \<in> set items. item_for K u l) \<longrightarrow> in_db db' K u" by auto
  have "in_db db' K u" if u: "u \<in> T" "item_for K u l" for u
  proof -
    have "u = t" using u t by (intro sound_inj [OF s]) (simp_all add: item_for_def)
    with d(3) d'(3) t(1) show ?thesis by blast
  qed
  moreover have "insert_all (l # items) db = Some db'" using d(1) d'(1) by simp
  ultimately show ?case using d(4) d'(2-4) by (intro exI [of _ db'] conjI) auto
qed simp

subsection \<open>Commit and open again\<close>

lemma hash_cached:
  assumes "hash K n r = Some (HashNode h, cached)"
  shows "fst (node_cache cached) \<noteq> None \<or> is_hash cached"
  using assms
  by (cases n)
    (auto simp: is_hash_def cached_flag_def bind_eq_Some_conv simp del: hashShortNodeChildren.simps split: option.splits)

lemma Hash_cached:
  assumes "Hash K tr = Some (h, tr')" and "root tr \<noteq> NilNode"
  shows "fst (node_cache (root tr')) \<noteq> None \<or> is_hash (root tr')"
proof -
  obtain x y where x: "hash K (root tr) True = Some (x, y)"
    using assms by (auto simp: Hash_def hashRoot_def bind_eq_Some_conv)
  then obtain w where "x = HashNode w" "root tr' = y"
    using assms by (cases x) (auto simp: Hash_def hashRoot_def)
  with x hash_cached show ?thesis by blast
qed

lemma clean_avail:
  assumes "expands d (hashes K) (avail db K) Top n t" and "\<not> snd (node_cache n)"
    and "fst (node_cache n) \<noteq> None"
  shows "avail db K t"
  using assms by (cases rule: expands.cases) (auto simp: flag_ok_def)

lemma open_expands:
  assumes K: "digest32 K" and "canon t" and i: "inner t" and a: "avail db K t"
  shows "view db (K (enc_tree K t)) = Some (load K (Some (K (enc_tree K t))) t)"
    and "expands (view db) (hashes K) (avail db K) Top (load K (Some (K (enc_tree K t))) t) t"
    and "expands (view db) (hashes K) (avail db K) Top (HashNode (K (enc_tree K t))) t"
proof -
  have h: "hashes K True t = Some (K (enc_tree K t))" using i by (simp add: hashes_inner)
  show v: "view db (K (enc_tree K t)) = Some (load K (Some (K (enc_tree K t))) t)"
    using a by (simp add: avail_def in_db_def view_def Let_def)
  show e: "expands (view db) (hashes K) (avail db K) Top (load K (Some (K (enc_tree K t))) t) t"
    using load_expands [OF K assms(2) i, of db Top] a h by (simp add: avail_def)
  show "expands (view db) (hashes K) (avail db K) Top (HashNode (K (enc_tree K t))) t"
    using v e h a stored_load [OF i] by (intro expands.hash) (simp_all add: BytesToHash_32 digest32D [OF K])
qed

text \<open>\<open>holds_in\<close>: a trie over the database stands for a map, and its subtrees are in \<open>T\<close>.\<close>

definition trie_of :: "(bytes \<Rightarrow> bytes) \<Rightarrow> ptree set \<Rightarrow> Database \<Rightarrow> Trie \<Rightarrow> ptree \<Rightarrow> bool" where
  "trie_of K T db tr t \<longleftrightarrow> expands (view db) (hashes K) (avail db K) Top (root tr) t \<and> subs t \<subseteq> T"

definition holds_in :: "(bytes \<Rightarrow> bytes) \<Rightarrow> ptree set \<Rightarrow> Database \<Rightarrow> Trie \<Rightarrow> (bytes \<rightharpoonup> bytes) \<Rightarrow> bool" where
  "holds_in K T db tr m \<longleftrightarrow> (\<exists>t. trie_of K T db tr t \<and> represents t m)"

lemma self_sub: "inner t \<Longrightarrow> t \<in> subs t"
  by (cases t) auto

lemma sent_avail:
  assumes "\<forall>u \<in> T. in_db db K u \<longrightarrow> in_db db' K u"
    and "\<forall>u \<in> T. (\<exists>l \<in> set items. item_for K u l) \<longrightarrow> in_db db' K u"
    and "sent db K items t" "big_sent db K items t" "subs t \<subseteq> T" "inner t"
  shows "avail db' K t"
proof -
  have "in_db db' K u" if "u \<in> T" "sent db K items u" for u
    using assms(1,2) that by (auto simp: sent_def)
  then show ?thesis
    using assms(3-) self_sub [of t] by (auto simp: avail_def big_in_db_def big_sent_def)
qed

lemma commit_into:
  assumes s: "sound K T" and ok: "db_ok K T db" and t: "inner t" "canon t" "subs t \<subseteq> T"
    and e: "expands d (hashes K) (avail db K) Top n t" and c: "fst (node_cache n) \<noteq> None \<or> is_hash n"
  shows "\<exists>vs db'. do {
      (newRoot, (ch, db)) \<leftarrow> commit n (if onleaf then Some [] else None, db);
      (vs, db) \<leftarrow> (case ch of None \<Rightarrow> Some ([], db) | Some items \<Rightarrow> commitLoop items db);
      Some (newRoot, vs, db)
    } = Some (HashNode (K (enc_tree K t)), vs, db') \<and> db_ok K T db' \<and> avail db' K t \<and>
    (\<forall>u \<in> T. in_db db K u \<longrightarrow> in_db db' K u)"
proof -
  have K: "digest32 K" using s by (simp add: sound_def)
  have h: "hashes K True t = Some (K (enc_tree K t))" using t(1) by (simp add: hashes_inner)
  from commit_sends [OF K e _ t(2,1)] c obtain x items where
    x: "\<And>ls db'. commit n (Some ls, db') = Some (x, (Some (ls @ items), db'))" "good_items K t items"
    "collapsed K True x t" "big_sent db K items t" "sent db K items t"
    using h by (auto simp: commit_ok_def settled_def)
  have "x = HashNode (K (enc_tree K t))" using x(3) h by (simp add: collapsed_def)
  moreover have "\<forall>l \<in> set items. \<exists>u \<in> T. item_for K u l" using x(2) t(3) by (auto simp: good_items_def)
  with insert_all_items [OF s ok] obtain db' where
    d: "insert_all items db = Some db'" "db_ok K T db'" "\<forall>u \<in> T. in_db db K u \<longrightarrow> in_db db' K u"
    "\<forall>u \<in> T. (\<exists>l \<in> set items. item_for K u l) \<longrightarrow> in_db db' K u" by blast
  moreover obtain vs where "commitLoop items db = Some (vs, db')"
    using commitLoop_insert_all [OF _ d(1)] x(2) by (auto simp: good_items_def item_for_def simp del: leaf_values.simps)
  moreover have "avail db' K t" using sent_avail [OF d(3,4) x(5,4) t(3,1)] .
  ultimately show ?thesis
    using x(1) [of "[]" db] commit_direct [OF x(1), of db] by (cases onleaf) auto
qed

text \<open>A database that has gained entries still holds every trie it held.\<close>

lemma expands_grow:
  assumes K: "digest32 K" and g: "\<forall>u \<in> T. in_db db K u \<longrightarrow> in_db db' K u"
    and "expands (view db) (hashes K) (avail db K) c n t" and "subs t \<subseteq> T"
  shows "expands (view db') (hashes K) (avail db' K) c n t"
  using assms(3,4)
proof (induction rule: expands.induct)
  case (short f n t c k)
  have "avail db K (S k t) \<longrightarrow> avail db' K (S k t)"
    using g short.prems by (auto simp: avail_def big_in_db_def)
  then have "flag_ok (hashes K) (avail db' K) c f (S k t)"
    using short.hyps(2) by (auto simp: flag_ok_def split: option.splits)
  with short show ?case by (auto intro: expands.short)
next
  case (full f ns ts c)
  have "list_all2 (expands (view db') (hashes K) (avail db' K) (below f)) ns ts"
    using full.IH full.prems by (force simp: list_all2_conv_all_nth UN_subset_iff)
  moreover have "avail db K (F ts) \<longrightarrow> avail db' K (F ts)"
    using g full.prems by (auto simp: avail_def big_in_db_def)
  then have "flag_ok (hashes K) (avail db' K) c f (F ts)"
    using full.hyps by (auto simp: flag_ok_def split: option.splits)
  ultimately show ?case by (rule expands.full)
next
  case (hash h n c t)
  from stored_expands [OF hash.hyps(3,2)] have i: "inner t" by auto
  with hash.hyps(4) have h: "h = K (enc_tree K t)" by (auto simp: hashes_inner split: if_splits)
  have a: "avail db' K t" using g hash.prems hash.hyps(5) self_sub [OF i] by (auto simp: avail_def big_in_db_def)
  have "n = load K (Some h) t"
    using hash.hyps(1,5) by (simp add: h avail_def in_db_def view_def Let_def BytesToHash_32 digest32D [OF K])
  then have "view db' (BytesToHash h) = Some n"
    using a by (simp add: h avail_def in_db_def view_def Let_def BytesToHash_32 digest32D [OF K])
  with hash a show ?case by (auto intro: expands.hash)
qed (auto intro: expands.intros)

lemma holds_in_grow:
  assumes "digest32 K" and "\<forall>u \<in> T. in_db db K u \<longrightarrow> in_db db' K u" and "holds_in K T db tr m"
  shows "holds_in K T db' tr m"
  using assms(3) expands_grow [OF assms(1,2)] by (auto simp: holds_in_def trie_of_def)

lemma Commit_trie:
  assumes s: "sound K T" and ok: "db_ok K T db" and tr: "trie_of K T db tr t" and m: "represents t m" "small_map m"
  shows "\<exists>tr' vs db'. Commit K onleaf tr db = Some (root_hash K t, tr', vs, db') \<and> db_ok K T db' \<and>
    trie_of K T db' tr' t \<and> (t \<noteq> E \<longrightarrow> avail db' K t) \<and> (\<forall>u \<in> T. in_db db K u \<longrightarrow> in_db db' K u)"
proof (cases "t = E")
  case True
  with tr expands_nil_iff [of "view db" "hashes K" "avail db K" Top "root tr" t] have "root tr = NilNode"
    by (simp add: trie_of_def)
  with True ok tr show ?thesis by (simp add: Commit_def root_hash_def)
next
  case False
  have K: "digest32 K" using s by (simp add: sound_def)
  have c: "canon t" using m(1) by (simp add: represents_def)
  with False have i: "inner t" using canon_inner by blast
  have e: "expands (view db) (hashes K) (avail db K) Top (root tr) t" "subs t \<subseteq> T" using tr by (auto simp: trie_of_def)
  have n: "root tr \<noteq> NilNode" using expands_nil_iff [OF e(1)] False by simp
  from Hash_holds [OF K e(1) m] obtain tr1 where
    tr1: "Hash K tr = Some (root_hash K t, tr1)" "expands (view db) (hashes K) (avail db K) Top (root tr1) t" by blast
  note cached = Hash_cached [OF tr1(1) n]
  show ?thesis
  proof (cases "snd (node_cache (root tr1))")
    case False
    then have "fst (node_cache (root tr1)) \<noteq> None" using cached by (auto simp: is_hash_def)
    with clean_avail [OF tr1(2) False] have "avail db K t" by simp
    with False tr1 n ok e(2) show ?thesis by (simp add: Commit_def trie_of_def)
  next
    case True
    from commit_into [OF s ok i c e(2) tr1(2) cached, of onleaf] obtain vs db' where
      d: "do {
        (newRoot, (ch, db)) \<leftarrow> commit (root tr1) (if onleaf then Some [] else None, db);
        (vs, db) \<leftarrow> (case ch of None \<Rightarrow> Some ([], db) | Some items \<Rightarrow> commitLoop items db);
        Some (newRoot, vs, db)
      } = Some (HashNode (K (enc_tree K t)), vs, db')" "db_ok K T db'" "avail db' K t"
      "\<forall>u \<in> T. in_db db K u \<longrightarrow> in_db db' K u" by blast
    from d(1) obtain ch b where "commit (root tr1) (if onleaf then Some [] else None, db) =
          Some (HashNode (K (enc_tree K t)), (ch, b))"
        "(case ch of None \<Rightarrow> Some ([], b) | Some items \<Rightarrow> commitLoop items b) = Some (vs, db')"
      by (auto simp: bind_eq_Some_conv)
    then have "Commit K onleaf tr db =
        Some (root_hash K t, tr1\<lparr>root := HashNode (K (enc_tree K t))\<rparr>, vs, db')"
      using tr1(1) n True by (simp add: Commit_def)
    with d(2-4) open_expands(3) [OF K c i d(3)] e(2) show ?thesis by (simp add: trie_of_def)
  qed
qed

lemma New_trie:
  assumes s: "sound K T" and c: "canon t" "subs t \<subseteq> T" and a: "t \<noteq> E \<longrightarrow> avail db K t"
  shows "\<exists>tr. New (view db) (root_hash K t) = Inr tr \<and> trie_of K T db tr t"
proof (cases "t = E")
  case True
  then show ?thesis using c(2) by (simp add: New_def root_hash_def trie_of_def expands.nil)
next
  case False
  then have i: "inner t" using c canon_inner by blast
  have K: "digest32 K" using s by (simp add: sound_def)
  have "t \<in> T" using self_sub [OF i] c(2) by blast
  then have "K (enc_tree K t) \<noteq> replicate 32 0" "K (enc_tree K t) \<noteq> emptyRoot"
    using s by (auto simp: sound_def zeroHash_def)
  with False a open_expands [OF K c(1) i, of db] c(2) show ?thesis
    by (simp add: New_def root_hash_def resolveHash_def trie_of_def BytesToHash_32 digest32D [OF K])
qed

text \<open>
  C4: Committing a trie makes it durable in the node database.  Over a database that holds nodes
  of the trees in \<open>T\<close>, whose encodings do not collide, \<open>Commit\<close> returns (with or without a leaf
  callback, that is over the channel or directly), the committed trie still stands for its map,
  \<open>New\<close> on the returned root hash opens a trie for the same map from the database alone, and every
  other trie over the database keeps its map.
\<close>

theorem Commit_New:
  assumes "sound K T" and "db_ok K T db" and "holds_in K T db tr m" and "small_map m"
  shows "\<exists>h tr' vs db' tr''. Commit K onleaf tr db = Some (h, tr', vs, db') \<and> db_ok K T db' \<and>
    holds_in K T db' tr' m \<and> New (view db') h = Inr tr'' \<and> holds_in K T db' tr'' m \<and>
    (\<forall>other m'. holds_in K T db other m' \<longrightarrow> holds_in K T db' other m')"
proof -
  from assms(3) obtain t where t: "trie_of K T db tr t" "represents t m" by (auto simp: holds_in_def)
  have K: "digest32 K" using assms(1) by (simp add: sound_def)
  from Commit_trie [OF assms(1,2) t assms(4)] obtain tr' vs db' where
    c: "Commit K onleaf tr db = Some (root_hash K t, tr', vs, db')" "db_ok K T db'" "trie_of K T db' tr' t"
    "t \<noteq> E \<longrightarrow> avail db' K t" "\<forall>u \<in> T. in_db db K u \<longrightarrow> in_db db' K u" by blast
  moreover obtain tr'' where "New (view db') (root_hash K t) = Inr tr''" "trie_of K T db' tr'' t"
    using New_trie [OF assms(1) _ _ c(4)] t by (auto simp: trie_of_def represents_def)
  moreover have "\<forall>other m'. holds_in K T db other m' \<longrightarrow> holds_in K T db' other m'"
    using holds_in_grow [OF K c(5)] by blast
  ultimately show ?thesis using t(2) by (auto simp: holds_in_def)
qed

lemma sample_sound:
  "sound sample_K {S [1, 2, 16] (V [5])}"
  "db_ok sample_K {S [1, 2, 16] (V [5])} (NewDatabase Map.empty)"
  "holds_in sample_K {S [1, 2, 16] (V [5])} (NewDatabase Map.empty)
     \<lparr>root = ShortNode [1, 2, 16] (ValueNode [5]) newFlag, unhashed = 1\<rparr> [[0x12] \<mapsto> [5]]"
proof -
  have "canon (S [1, 2, 16] (V [5]))" using sample_tree by (simp add: represents_def)
  moreover have "sample_hash \<noteq> zeroHash" "sample_hash \<noteq> emptyRoot"
    by (code_simp)+
  ultimately show "sound sample_K {S [1, 2, 16] (V [5])}"
    using sample_small by (simp add: sound_def sample_K_def)
  show "db_ok sample_K {S [1, 2, 16] (V [5])} (NewDatabase Map.empty)"
    by (simp add: db_ok_def NewDatabase_def)
  show "holds_in sample_K {S [1, 2, 16] (V [5])} (NewDatabase Map.empty)
     \<lparr>root = ShortNode [1, 2, 16] (ValueNode [5]) newFlag, unhashed = 1\<rparr> [[0x12] \<mapsto> [5]]"
    using sample_tree
    by (auto simp: holds_in_def trie_of_def intro!: exI expands.short expands.val)
qed

theorem Commit_New_witness:
  "\<exists>h tr' vs db' tr''. Commit sample_K True
       \<lparr>root = ShortNode [1, 2, 16] (ValueNode [5]) newFlag, unhashed = 1\<rparr> (NewDatabase Map.empty) =
         Some (h, tr', vs, db') \<and>
     New (view db') h = Inr tr'' \<and> holds_in sample_K {S [1, 2, 16] (V [5])} db' tr'' [[0x12] \<mapsto> [5]]"
  using Commit_New [OF sample_sound sample_small(2), of True] by blast

subsection \<open>The root hash binds the map\<close>

text \<open>
  C6: The root hash of a trie binds its contents: if two tries, over any databases, have the same
  \<open>Hash\<close>, they stand for the same map, unless two encodings of their nodes collide.
\<close>

theorem Hash_binding:
  assumes "digest32 K" and "K [0x80] = emptyRoot"
    and "represents t m" and "represents u m'" and "small_map m" and "small_map m'"
    and "inj_on K (insert [0x80] (encs K t \<union> encs K u))"
    and "holds db (hashes K) A tr m" and "holds db' (hashes K) A' tr' m'"
    and "Hash K tr = Some (h, s)" and "Hash K tr' = Some (h, s')"
  shows "m = m'"
proof -
  have "expands db (hashes K) A Top (root tr) t" "expands db' (hashes K) A' Top (root tr') u"
    using assms(3,4,8,9) represents_unique by (auto simp: holds_def)
  then have "root_hash K t = h" "root_hash K u = h"
    using Hash_holds [OF assms(1) _ assms(3,5), of db A tr] Hash_holds [OF assms(1) _ assms(4,6), of db' A' tr']
      assms(10,11) by auto
  moreover have "canon t" "canon u" using assms(3,4) by (auto simp: represents_def)
  ultimately have "t = u"
    using represents_enc_small [OF assms(1,3,5)] by (intro root_hash_inject [OF assms(1,2) _ _ _ assms(7)]) auto
  with assms(3,4) show ?thesis by (auto simp: represents_def fun_eq_iff)
qed

definition sample_K2 :: "bytes \<Rightarrow> bytes" where
  "sample_K2 x = (if x = [0x80] then emptyRoot else sample_hash)"

theorem Hash_binding_witness:
  "\<exists>h s s'. Hash sample_K2 sample_trie = Some (h, s) \<and>
     Hash sample_K2 \<lparr>root = ShortNode [1, 2, 16] (ValueNode [5]) newFlag, unhashed = 1\<rparr> = Some (h, s') \<and>
     [[0x12] \<mapsto> [5]] = [[0x12 :: byte] \<mapsto> [5 :: byte]]"
proof -
  let ?t = "S [1, 2, 16] (V [5])" and ?m = "[[0x12 :: byte] \<mapsto> [5 :: byte]]"
  let ?tr = "\<lparr>root = ShortNode [1, 2, 16] (ValueNode [5]) newFlag, unhashed = 1\<rparr>"
  have K: "digest32 sample_K2" "sample_K2 [0x80] = emptyRoot"
    by (simp_all add: digest32_def sample_K2_def sample_hash_def emptyRoot_def)
  have n: "enc_tree sample_K2 ?t \<noteq> [0x80]" by code_simp
  have "emptyRoot \<noteq> sample_hash" by code_simp
  with n have i: "inj_on sample_K2 (insert [0x80] (encs sample_K2 ?t \<union> encs sample_K2 ?t))"
    by (simp add: sample_K2_def del: enc_tree.simps)
  have "BytesToHash sample_hash = sample_hash" by (rule BytesToHash_32) (simp add: sample_hash_def)
  then have "expands sample_db (hashes sample_K2) (\<lambda>_. True) Top (HashNode sample_hash) ?t"
    using n by (auto simp: sample_db_def sample_K2_def hashes_inner simp del: enc_tree.simps
      intro!: expands.hash expands.short expands.val)
  with sample_tree have a: "holds sample_db (hashes sample_K2) (\<lambda>_. True) sample_trie ?m"
    by (auto simp: holds_def sample_trie_def)
  have b: "holds Map.empty (hashes sample_K2) (\<lambda>_. True) ?tr ?m"
    using sample_tree by (auto simp: holds_def intro!: exI expands.short expands.val)
  have x: "expands sample_db (hashes sample_K2) (\<lambda>_. True) Top (root sample_trie) ?t"
      "expands Map.empty (hashes sample_K2) (\<lambda>_. True) Top (root ?tr) ?t"
    using a b represents_unique [OF _ sample_tree] by (auto simp: holds_def)
  from Hash_holds [OF K(1) x(1) sample_tree sample_small(2)] Hash_holds [OF K(1) x(2) sample_tree sample_small(2)]
  obtain h s s' where "Hash sample_K2 sample_trie = Some (h, s)" "Hash sample_K2 ?tr = Some (h, s')" by blast
  with Hash_binding [OF K sample_tree sample_tree sample_small(2) sample_small(2) i a b this] show ?thesis by blast
qed

end
