(* ===== verification/Secure_Trie.thy ===== *)
theory Secure_Trie
  imports Trie_Database Trie_Commit
begin

text \<open>
  \<open>trie/secure_trie.go\<close>: a trie whose keys are hashed, with a cache of the keys behind the
  hashes.  The buffer \<open>hashKeyBuf\<close> is not kept: it is overwritten by each use.  The owner of the
  cache is there to give a copy of the trie a cache of its own, which \<open>Secure_Copy\<close> does at once.
\<close>

record SecureTrie =
  sec_trie :: Trie
  secKeyCache :: "bytes \<rightharpoonup> bytes"

definition hashKey :: "(bytes \<Rightarrow> bytes) \<Rightarrow> bytes \<Rightarrow> bytes" where
  "hashKey K key = K key"

definition NewSecure :: "node_db \<Rightarrow> bytes \<Rightarrow> trie_error + SecureTrie" where
  "NewSecure db rt =
     (case New db rt of
       Inl e \<Rightarrow> Inl e
     | Inr t \<Rightarrow> Inr \<lparr>sec_trie = t, secKeyCache = Map.empty\<rparr>)"

definition Secure_TryGet :: "(bytes \<Rightarrow> bytes) \<Rightarrow> node_db \<Rightarrow> bytes \<Rightarrow> SecureTrie \<Rightarrow>
    ((trie_error + bytes option) \<times> SecureTrie) option" where
  "Secure_TryGet K db key t = do {
     (r, tr) \<leftarrow> TryGet db (hashKey K key) (sec_trie t);
     Some (r, t\<lparr>sec_trie := tr\<rparr>)
   }"

definition Secure_TryUpdate :: "(bytes \<Rightarrow> bytes) \<Rightarrow> node_db \<Rightarrow> bytes \<Rightarrow> bytes \<Rightarrow> SecureTrie \<Rightarrow>
    (trie_error option \<times> SecureTrie) option" where
  "Secure_TryUpdate K db key value t = do {
     let hk = hashKey K key;
     (err, tr) \<leftarrow> TryUpdate db hk value (sec_trie t);
     let t = t\<lparr>sec_trie := tr\<rparr>;
     case err of
       Some e \<Rightarrow> Some (Some e, t)
     | None \<Rightarrow> Some (None, t\<lparr>secKeyCache := (secKeyCache t)(hk \<mapsto> key)\<rparr>)
   }"

definition Secure_TryDelete :: "(bytes \<Rightarrow> bytes) \<Rightarrow> node_db \<Rightarrow> bytes \<Rightarrow> SecureTrie \<Rightarrow>
    (trie_error option \<times> SecureTrie) option" where
  "Secure_TryDelete K db key t = do {
     let hk = hashKey K key;
     let t = t\<lparr>secKeyCache := (secKeyCache t)(hk := None)\<rparr>;
     (err, tr) \<leftarrow> TryDelete db hk (sec_trie t);
     Some (err, t\<lparr>sec_trie := tr\<rparr>)
   }"

text \<open>\<open>Get\<close>, \<open>Update\<close> and \<open>Delete\<close> log an error and go on.\<close>

definition Secure_Get :: "(bytes \<Rightarrow> bytes) \<Rightarrow> node_db \<Rightarrow> bytes \<Rightarrow> SecureTrie \<Rightarrow> (bytes option \<times> SecureTrie) option" where
  "Secure_Get K db key t =
     map_option (\<lambda>(r, t). (case r of Inl e \<Rightarrow> None | Inr v \<Rightarrow> v, t)) (Secure_TryGet K db key t)"

definition Secure_Update :: "(bytes \<Rightarrow> bytes) \<Rightarrow> node_db \<Rightarrow> bytes \<Rightarrow> bytes \<Rightarrow> SecureTrie \<Rightarrow> SecureTrie option" where
  "Secure_Update K db key value t = map_option snd (Secure_TryUpdate K db key value t)"

definition Secure_Delete :: "(bytes \<Rightarrow> bytes) \<Rightarrow> node_db \<Rightarrow> bytes \<Rightarrow> SecureTrie \<Rightarrow> SecureTrie option" where
  "Secure_Delete K db key t = map_option snd (Secure_TryDelete K db key t)"

definition GetKey :: "Database \<Rightarrow> bytes \<Rightarrow> SecureTrie \<Rightarrow> bytes option" where
  "GetKey db shaKey t =
     (case secKeyCache t shaKey of
       Some key \<Rightarrow> Some key
     | None \<Rightarrow> preimage db (BytesToHash shaKey))"

text \<open>\<open>hks\<close> lists the keys of the cache in the order in which the loop meets them.\<close>

definition Secure_Commit :: "(bytes \<Rightarrow> bytes) \<Rightarrow> bool \<Rightarrow> bytes list \<Rightarrow> SecureTrie \<Rightarrow> Database \<Rightarrow>
    (bytes \<times> SecureTrie \<times> (bytes \<times> bytes) list \<times> Database) option" where
  "Secure_Commit K onleaf hks t db = do {
     let db = fold (\<lambda>hk db. case secKeyCache t hk of
           None \<Rightarrow> db | Some key \<Rightarrow> insertPreimage (BytesToHash hk) key db) hks db;
     let t = t\<lparr>secKeyCache := Map.empty\<rparr>;
     (h, tr, vs, db) \<leftarrow> Commit K onleaf (sec_trie t) db;
     Some (h, t\<lparr>sec_trie := tr\<rparr>, vs, db)
   }"

definition Secure_Hash :: "(bytes \<Rightarrow> bytes) \<Rightarrow> SecureTrie \<Rightarrow> (bytes \<times> SecureTrie) option" where
  "Secure_Hash K t = do {
     (h, tr) \<leftarrow> Hash K (sec_trie t);
     Some (h, t\<lparr>sec_trie := tr\<rparr>)
   }"

definition Secure_Copy :: "SecureTrie \<Rightarrow> SecureTrie" where
  "Secure_Copy t = t\<lparr>secKeyCache := Map.empty\<rparr>"

subsection \<open>The contract of a store with hashed keys\<close>

locale hashed_store =
  fixes rep :: "'s \<Rightarrow> (bytes \<rightharpoonup> bytes) \<Rightarrow> bool"
    and hk :: "bytes \<Rightarrow> bytes"
    and lookup :: "bytes \<Rightarrow> 's \<Rightarrow> (('e + bytes option) \<times> 's) option"
    and update :: "bytes \<Rightarrow> bytes \<Rightarrow> 's \<Rightarrow> ('e option \<times> 's) option"
    and delete :: "bytes \<Rightarrow> 's \<Rightarrow> ('e option \<times> 's) option"
  assumes lookup_rep: "rep s m \<Longrightarrow> \<exists>s'. lookup k s = Some (Inr (m (hk k)), s') \<and> rep s' m"
    and update_rep: "rep s m \<Longrightarrow> \<exists>s'. update k v s = Some (None, s') \<and> rep s' (map_put (hk k) v m)"
    and delete_rep: "rep s m \<Longrightarrow> \<exists>s'. delete k s = Some (None, s') \<and> rep s' (m(hk k := None))"
begin

lemma lookup_after_update:
  assumes "rep s m" and "v \<noteq> []"
  shows "\<exists>s1 s2. update k v s = Some (None, s1) \<and> lookup k s1 = Some (Inr (Some v), s2)"
  using update_rep [OF assms(1), of k v] lookup_rep [of _ "map_put (hk k) v m" k] assms(2)
  by (fastforce simp: map_put_def)

end

definition secure_holds :: "node_db \<Rightarrow> tree_hash \<Rightarrow> (ptree \<Rightarrow> bool) \<Rightarrow> SecureTrie \<Rightarrow> (bytes \<rightharpoonup> bytes) \<Rightarrow> bool" where
  "secure_holds db H A t m \<longleftrightarrow> holds db H A (sec_trie t) m"

interpretation secure: hashed_store "secure_holds db H A" K "Secure_TryGet K db" "Secure_TryUpdate K db"
    "Secure_TryDelete K db" for db H A K
proof unfold_locales
  fix s m k v
  assume h: "secure_holds db H A s m"
  show "\<exists>s'. Secure_TryGet K db k s = Some (Inr (m (K k)), s') \<and> secure_holds db H A s' m"
    using trie.lookup_rep [of db H A "sec_trie s" m "K k"] h
    by (auto simp: Secure_TryGet_def secure_holds_def hashKey_def)
  show "\<exists>s'. Secure_TryUpdate K db k v s = Some (None, s') \<and> secure_holds db H A s' (map_put (K k) v m)"
    using trie.update_rep [of db H A "sec_trie s" m "K k" v] h
    by (auto simp: Secure_TryUpdate_def secure_holds_def hashKey_def)
  show "\<exists>s'. Secure_TryDelete K db k s = Some (None, s') \<and> secure_holds db H A s' (m(K k := None))"
    using trie.delete_rep [of db H A "sec_trie s" m "K k"] h
    by (auto simp: Secure_TryDelete_def secure_holds_def hashKey_def)
qed

end
