(* ===== verification/State_DB.thy ===== *)
theory State_DB
  imports Secure_Trie Rlp_Roundtrip
begin

text \<open>
  \<open>core/state\<close>: the accounts that a transaction reads and writes.  \<open>StateDB\<close> caches them as
  objects over the state trie, and a journal records how to undo each change.

  The objects are pointers in the code.  Each is held by the table under its address or by one
  entry of the journal, never by both, so an object here is a value and a method on it writes it
  back to the table.  A panic, also the use of a nil pointer, is \<open>None\<close>.  \<open>snap\<close> is the layer of
  the state snapshot, an interface of the code, as the functions it is called for.  Metrics and
  locks are left out.
\<close>

subsection \<open>Accounts and state objects\<close>

text \<open>A nil balance, which only the literal \<open>Account{}\<close> has, is the 0 that \<open>newObject\<close> makes of it.\<close>

record Account =
  Nonce :: u64
  Balance :: int
  Root :: bytes
  CodeHash :: "bytes option"

type_synonym storage = "bytes \<rightharpoonup> bytes"

datatype state_error =
    ErrTrie trie_error
  | ErrStorageTrie trie_error
  | ErrCode bytes
  | ErrSlot rlp_error

record stateObject =
  address :: bytes
  addrHash :: bytes
  data :: Account
  o_dbErr :: "state_error option"
  o_trie :: "SecureTrie option"
  o_code :: "bytes option"
  originStorage :: storage
  pendingStorage :: storage
  dirtyStorage :: storage
  fakeStorage :: "storage option"
  dirtyCode :: bool
  suicided :: bool
  deleted :: bool

text \<open>A nil slice has the bytes of an empty one.\<close>

definition bytes_of :: "bytes option \<Rightarrow> bytes" where
  "bytes_of b = (case b of None \<Rightarrow> [] | Some b \<Rightarrow> b)"

definition emptyCodeHash :: "(bytes \<Rightarrow> bytes) \<Rightarrow> bytes" where
  "emptyCodeHash K = K []"

definition emptyAccount :: Account where
  "emptyAccount = \<lparr>Nonce = 0, Balance = 0, Root = zeroHash, CodeHash = None\<rparr>"

definition obj_empty :: "(bytes \<Rightarrow> bytes) \<Rightarrow> stateObject \<Rightarrow> bool" where
  "obj_empty K ob = (Nonce (data ob) = 0 \<and> Balance (data ob) = 0 \<and>
     bytes_of (CodeHash (data ob)) = emptyCodeHash K)"

definition newObject :: "(bytes \<Rightarrow> bytes) \<Rightarrow> bytes \<Rightarrow> Account \<Rightarrow> stateObject" where
  "newObject K addr acc =
     (let acc = (if CodeHash acc = None then acc\<lparr>CodeHash := Some (emptyCodeHash K)\<rparr> else acc);
          acc = (if Root acc = zeroHash then acc\<lparr>Root := emptyRoot\<rparr> else acc)
      in \<lparr>address = addr, addrHash = K addr, data = acc, o_dbErr = None, o_trie = None, o_code = None,
          originStorage = Map.empty, pendingStorage = Map.empty, dirtyStorage = Map.empty,
          fakeStorage = None, dirtyCode = False, suicided = False, deleted = False\<rparr>)"

definition obj_setError :: "state_error option \<Rightarrow> stateObject \<Rightarrow> stateObject" where
  "obj_setError err ob = (if o_dbErr ob = None then ob\<lparr>o_dbErr := err\<rparr> else ob)"

definition markSuicided :: "stateObject \<Rightarrow> stateObject" where
  "markSuicided ob = ob\<lparr>suicided := True\<rparr>"

definition setBalance :: "int \<Rightarrow> stateObject \<Rightarrow> stateObject" where
  "setBalance amount ob = ob\<lparr>data := (data ob)\<lparr>Balance := amount\<rparr>\<rparr>"

definition setNonce :: "u64 \<Rightarrow> stateObject \<Rightarrow> stateObject" where
  "setNonce nonce ob = ob\<lparr>data := (data ob)\<lparr>Nonce := nonce\<rparr>\<rparr>"

definition setCode :: "bytes \<Rightarrow> bytes option \<Rightarrow> stateObject \<Rightarrow> stateObject" where
  "setCode codeHash code ob =
     ob\<lparr>o_code := code, data := (data ob)\<lparr>CodeHash := Some codeHash\<rparr>, dirtyCode := True\<rparr>"

definition setState :: "bytes \<Rightarrow> bytes \<Rightarrow> stateObject \<Rightarrow> stateObject" where
  "setState key v ob = ob\<lparr>dirtyStorage := (dirtyStorage ob)(key \<mapsto> v)\<rparr>"

text \<open>The pending storage gets the dirty slots, whatever the order of the loop.\<close>

definition finalise :: "stateObject \<Rightarrow> stateObject" where
  "finalise ob = ob\<lparr>pendingStorage := pendingStorage ob ++ dirtyStorage ob, dirtyStorage := Map.empty\<rparr>"

text \<open>\<open>getTrie\<close>: the second attempt, with no root, is for the error case.\<close>

definition getTrie :: "Database \<Rightarrow> stateObject \<Rightarrow> SecureTrie option \<times> stateObject" where
  "getTrie db ob =
     (case o_trie ob of
       Some t \<Rightarrow> (Some t, ob)
     | None \<Rightarrow>
         (case NewSecure (view db) (Root (data ob)) of
           Inr t \<Rightarrow> (Some t, ob\<lparr>o_trie := Some t\<rparr>)
         | Inl e \<Rightarrow>
             let t = (case NewSecure (view db) zeroHash of Inr t \<Rightarrow> Some t | Inl _ \<Rightarrow> None)
             in (t, obj_setError (Some (ErrStorageTrie e)) (ob\<lparr>o_trie := t\<rparr>))))"

text \<open>\<open>core/rawdb\<close> and \<open>cachingDB\<close>: code lies on disk under its hash, or under \<open>c\<close> and its hash.\<close>

definition codeKey :: "bytes \<Rightarrow> bytes" where
  "codeKey h = 0x63 # h"

definition ReadCode :: "(bytes \<rightharpoonup> bytes) \<Rightarrow> bytes \<Rightarrow> bytes" where
  "ReadCode disk h =
     (if length (bytes_of (disk h)) \<noteq> 0 then bytes_of (disk h) else bytes_of (disk (codeKey h)))"

definition ContractCode :: "Database \<Rightarrow> bytes \<Rightarrow> bytes option" where
  "ContractCode db codeHash =
     (let code = ReadCode (diskdb db) codeHash
      in if 0 < length code then Some code else None)"

definition obj_Code :: "(bytes \<Rightarrow> bytes) \<Rightarrow> Database \<Rightarrow> stateObject \<Rightarrow> bytes option \<times> stateObject" where
  "obj_Code K db ob =
     (case o_code ob of
       Some c \<Rightarrow> (Some c, ob)
     | None \<Rightarrow>
         if bytes_of (CodeHash (data ob)) = emptyCodeHash K then (None, ob)
         else
           let h = BytesToHash (bytes_of (CodeHash (data ob))) in
           case ContractCode db h of
             Some c \<Rightarrow> (Some c, ob\<lparr>o_code := Some c\<rparr>)
           | None \<Rightarrow> (None, obj_setError (Some (ErrCode h)) ob\<lparr>o_code := None\<rparr>))"

definition obj_CodeSize :: "(bytes \<Rightarrow> bytes) \<Rightarrow> Database \<Rightarrow> stateObject \<Rightarrow> nat \<times> stateObject" where
  "obj_CodeSize K db ob =
     (case o_code ob of
       Some c \<Rightarrow> (length c, ob)
     | None \<Rightarrow>
         if bytes_of (CodeHash (data ob)) = emptyCodeHash K then (0, ob)
         else
           let h = BytesToHash (bytes_of (CodeHash (data ob))) in
           case ContractCode db h of
             Some c \<Rightarrow> (length c, ob)
           | None \<Rightarrow> (0, obj_setError (Some (ErrCode h)) ob))"

subsection \<open>The journal and the state\<close>

datatype journalEntry =
    createObjectChange bytes
  | resetObjectChange stateObject bool
  | suicideChange bytes bool int
  | balanceChange bytes int
  | nonceChange bytes u64
  | storageChange bytes bytes bytes
  | codeChange bytes "bytes option" "bytes option"
  | refundChange u64
  | addLogChange bytes
  | addPreimageChange bytes
  | touchChange bytes

fun dirtied :: "journalEntry \<Rightarrow> bytes option" where
  "dirtied (createObjectChange a) = Some a"
| "dirtied (resetObjectChange prev prevdestruct) = None"
| "dirtied (suicideChange a prev prevbalance) = Some a"
| "dirtied (balanceChange a prev) = Some a"
| "dirtied (nonceChange a prev) = Some a"
| "dirtied (storageChange a key prevalue) = Some a"
| "dirtied (codeChange a prevcode prevhash) = Some a"
| "dirtied (refundChange prev) = None"
| "dirtied (addLogChange txhash) = None"
| "dirtied (addPreimageChange h) = None"
| "dirtied (touchChange a) = Some a"

record journal =
  entries :: "journalEntry list"
  jdirties :: "bytes \<rightharpoonup> int"

definition newJournal :: journal where
  "newJournal = \<lparr>entries = [], jdirties = Map.empty\<rparr>"

definition count_of :: "(bytes \<rightharpoonup> int) \<Rightarrow> bytes \<Rightarrow> int" where
  "count_of d a = (case d a of None \<Rightarrow> 0 | Some n \<Rightarrow> n)"

definition journal_dirty :: "bytes \<Rightarrow> journal \<Rightarrow> journal" where
  "journal_dirty a j = j\<lparr>jdirties := (jdirties j)(a \<mapsto> count_of (jdirties j) a + 1)\<rparr>"

definition journal_append :: "journalEntry \<Rightarrow> journal \<Rightarrow> journal" where
  "journal_append e j =
     (let j = j\<lparr>entries := entries j @ [e]\<rparr>
      in case dirtied e of None \<Rightarrow> j
         | Some a \<Rightarrow> j\<lparr>jdirties := (jdirties j)(a \<mapsto> count_of (jdirties j) a + 1)\<rparr>)"

record Log =
  lg_Address :: bytes
  Topics :: "bytes list"
  lg_Data :: bytes
  BlockNumber :: u64
  TxHash :: bytes
  TxIndex :: u64
  BlockHash :: bytes
  Index :: u64
  Removed :: bool

record slimAccount =
  sl_Nonce :: u64
  sl_Balance :: int
  sl_Root :: bytes
  sl_CodeHash :: bytes

text \<open>What \<open>StateDB\<close> asks of a layer of the snapshot; an error has no content that it looks at.\<close>

record Snapshot =
  sn_Root :: bytes
  sn_Account :: "bytes \<Rightarrow> unit + slimAccount option"
  sn_Storage :: "bytes \<Rightarrow> bytes \<Rightarrow> unit + bytes"

record StateDB =
  s_db :: Database
  s_trie :: SecureTrie
  snap :: "Snapshot option"
  snapDestructs :: "bytes set"
  snapAccounts :: "bytes \<rightharpoonup> bytes"
  snapStorage :: "bytes \<rightharpoonup> (bytes \<rightharpoonup> bytes)"
  stateObjects :: "bytes \<rightharpoonup> stateObject"
  stateObjectsPending :: "bytes set"
  stateObjectsDirty :: "bytes set"
  s_dbErr :: "state_error option"
  refund :: u64
  thash :: bytes
  bhash :: bytes
  s_txIndex :: int
  logs :: "bytes \<rightharpoonup> Log list"
  logSize :: u64
  s_preimages :: "bytes \<rightharpoonup> bytes"
  s_journal :: journal
  validRevisions :: "(int \<times> nat) list"
  nextRevisionId :: int

definition append_entry :: "journalEntry \<Rightarrow> StateDB \<Rightarrow> StateDB" where
  "append_entry e s = s\<lparr>s_journal := journal_append e (s_journal s)\<rparr>"

definition setError :: "state_error \<Rightarrow> StateDB \<Rightarrow> StateDB" where
  "setError err s = (if s_dbErr s = None then s\<lparr>s_dbErr := Some err\<rparr> else s)"

definition setStateObject :: "stateObject \<Rightarrow> StateDB \<Rightarrow> StateDB" where
  "setStateObject ob s = s\<lparr>stateObjects := (stateObjects s)(address ob \<mapsto> ob)\<rparr>"

subsection \<open>Loading objects\<close>

text \<open>
  Decoding an account.  The type has no nested lists, so the fuel of 2 is enough for any input: one
  round for the struct and one for its fields.
\<close>

definition Account_type :: gotype where
  "Account_type = TStruct [(TUint 64, no_tags), (TBigPtr, no_tags), (TArray 32 (TUint 8), no_tags),
     (TSlice (TUint 8), no_tags)]"

fun account_of :: "goval \<Rightarrow> Account option" where
  "account_of (VList [VUint n, VBig b, VBytes r, VBytes c]) =
     Some \<lparr>Nonce = n, Balance = b, Root = r, CodeHash = Some c\<rparr>"
| "account_of _ = None"

definition decodeAccount :: "bytes \<Rightarrow> (rlp_error + Account) option" where
  "decodeAccount enc = do {
     r \<leftarrow> DecodeBytes 2 enc Account_type;
     case r of
       Inl e \<Rightarrow> Some (Inl e)
     | Inr v \<Rightarrow> map_option Inr (account_of v)
   }"

definition of_slim :: "(bytes \<Rightarrow> bytes) \<Rightarrow> slimAccount \<Rightarrow> Account" where
  "of_slim K acc =
     (let root = BytesToHash (sl_Root acc) in
      \<lparr>Nonce = sl_Nonce acc, Balance = sl_Balance acc,
       Root = (if root = zeroHash then emptyRoot else root),
       CodeHash = Some (if length (sl_CodeHash acc) = 0 then emptyCodeHash K else sl_CodeHash acc)\<rparr>)"

text \<open>The account in the snapshot; \<open>Inl\<close> if there is no snapshot or it fails.\<close>

definition snap_account :: "(bytes \<Rightarrow> bytes) \<Rightarrow> bytes \<Rightarrow> StateDB \<Rightarrow> unit + Account option" where
  "snap_account K addr s =
     (case snap s of
       None \<Rightarrow> Inl ()
     | Some sn \<Rightarrow>
         (case sn_Account sn (K addr) of
           Inl _ \<Rightarrow> Inl ()
         | Inr acc \<Rightarrow> Inr (map_option (of_slim K) acc)))"

definition getDeletedStateObject :: "(bytes \<Rightarrow> bytes) \<Rightarrow> bytes \<Rightarrow> StateDB \<Rightarrow>
    (stateObject option \<times> StateDB) option" where
  "getDeletedStateObject K addr s =
     (case stateObjects s addr of
       Some ob \<Rightarrow> Some (Some ob, s)
     | None \<Rightarrow> do {
         (acc, s) \<leftarrow>
           (case snap_account K addr s of
             Inr acc \<Rightarrow> Some (acc, s)
           | Inl _ \<Rightarrow> do {
               (r, t) \<leftarrow> Secure_TryGet K (view (s_db s)) addr (s_trie s);
               let s = s\<lparr>s_trie := t\<rparr>;
               case r of
                 Inl e \<Rightarrow> Some (None, setError (ErrTrie e) s)
               | Inr enc \<Rightarrow>
                   if length (bytes_of enc) = 0 then Some (None, s)
                   else do {
                     d \<leftarrow> decodeAccount (bytes_of enc);
                     case d of Inl e \<Rightarrow> Some (None, s) | Inr acc \<Rightarrow> Some (Some acc, s)
                   }
             });
         case acc of
           None \<Rightarrow> Some (None, s)
         | Some acc \<Rightarrow>
             let ob = newObject K addr acc in Some (Some ob, setStateObject ob s)
       })"

definition getStateObject :: "(bytes \<Rightarrow> bytes) \<Rightarrow> bytes \<Rightarrow> StateDB \<Rightarrow>
    (stateObject option \<times> StateDB) option" where
  "getStateObject K addr s = do {
     (ob, s) \<leftarrow> getDeletedStateObject K addr s;
     case ob of
       None \<Rightarrow> Some (None, s)
     | Some ob \<Rightarrow> Some (if deleted ob then None else Some ob, s)
   }"

definition createObject :: "(bytes \<Rightarrow> bytes) \<Rightarrow> bytes \<Rightarrow> StateDB \<Rightarrow>
    ((stateObject \<times> stateObject option) \<times> StateDB) option" where
  "createObject K addr s = do {
     (prev, s) \<leftarrow> getDeletedStateObject K addr s;
     let newobj = setNonce 0 (newObject K addr emptyAccount);
     let s =
       (case prev of
         None \<Rightarrow> append_entry (createObjectChange addr) s
       | Some p \<Rightarrow>
           let prevdestruct = (snap s \<noteq> None \<and> addrHash p \<in> snapDestructs s);
               s = (if snap s \<noteq> None then s\<lparr>snapDestructs := insert (addrHash p) (snapDestructs s)\<rparr> else s)
           in append_entry (resetObjectChange p prevdestruct) s);
     let s = setStateObject newobj s;
     Some ((newobj, case prev of None \<Rightarrow> None | Some p \<Rightarrow> if deleted p then None else Some p), s)
   }"

definition GetOrNewStateObject :: "(bytes \<Rightarrow> bytes) \<Rightarrow> bytes \<Rightarrow> StateDB \<Rightarrow> (stateObject \<times> StateDB) option" where
  "GetOrNewStateObject K addr s = do {
     (ob, s) \<leftarrow> getStateObject K addr s;
     case ob of
       Some ob \<Rightarrow> Some (ob, s)
     | None \<Rightarrow> do {
         ((ob, _), s) \<leftarrow> createObject K addr s;
         Some (ob, s)
       }
   }"

definition CreateAccount :: "(bytes \<Rightarrow> bytes) \<Rightarrow> bytes \<Rightarrow> StateDB \<Rightarrow> StateDB option" where
  "CreateAccount K addr s = do {
     ((newObj, prev), s) \<leftarrow> createObject K addr s;
     Some (case prev of
       None \<Rightarrow> s
     | Some p \<Rightarrow> setStateObject (setBalance (Balance (data p)) newObj) s)
   }"

subsection \<open>Storage\<close>

text \<open>The value of a slot from its encoding in the trie or the snapshot.\<close>

definition read_slot :: "bytes \<Rightarrow> bytes \<Rightarrow> stateObject \<Rightarrow> bytes \<times> stateObject" where
  "read_slot key enc ob =
     (let (v, ob) =
        (if 0 < length enc then
           (case Split enc of
             Inl e \<Rightarrow> (BytesToHash [], obj_setError (Some (ErrSlot e)) ob)
           | Inr (_, content, _) \<Rightarrow> (BytesToHash content, ob))
         else (zeroHash, ob))
      in (v, ob\<lparr>originStorage := (originStorage ob)(key \<mapsto> v)\<rparr>))"

definition obj_GetCommittedState :: "(bytes \<Rightarrow> bytes) \<Rightarrow> StateDB \<Rightarrow> bytes \<Rightarrow> stateObject \<Rightarrow>
    (bytes \<times> stateObject) option" where
  "obj_GetCommittedState K s key ob =
     (case (fakeStorage ob, pendingStorage ob key, originStorage ob key) of
       (Some fake, _, _) \<Rightarrow> Some (case fake key of None \<Rightarrow> zeroHash | Some v \<Rightarrow> v, ob)
     | (None, Some v, _) \<Rightarrow> Some (v, ob)
     | (None, None, Some v) \<Rightarrow> Some (v, ob)
     | (None, None, None) \<Rightarrow>
         if snap s \<noteq> None \<and> addrHash ob \<in> snapDestructs s then Some (zeroHash, ob)
         else
           (case (case snap s of None \<Rightarrow> Inl () | Some sn \<Rightarrow> sn_Storage sn (addrHash ob) (K key)) of
             Inr enc \<Rightarrow> Some (read_slot key enc ob)
           | Inl _ \<Rightarrow> do {
               let (t, ob) = getTrie (s_db s) ob;
               t \<leftarrow> t;
               (r, t) \<leftarrow> Secure_TryGet K (view (s_db s)) key t;
               let ob = ob\<lparr>o_trie := Some t\<rparr>;
               case r of
                 Inl e \<Rightarrow> Some (zeroHash, obj_setError (Some (ErrTrie e)) ob)
               | Inr enc \<Rightarrow> Some (read_slot key (bytes_of enc) ob)
             }))"

definition obj_GetState :: "(bytes \<Rightarrow> bytes) \<Rightarrow> StateDB \<Rightarrow> bytes \<Rightarrow> stateObject \<Rightarrow>
    (bytes \<times> stateObject) option" where
  "obj_GetState K s key ob =
     (case fakeStorage ob of
       Some fake \<Rightarrow> Some (case fake key of None \<Rightarrow> zeroHash | Some v \<Rightarrow> v, ob)
     | None \<Rightarrow>
         (case dirtyStorage ob key of
           Some v \<Rightarrow> Some (v, ob)
         | None \<Rightarrow> obj_GetCommittedState K s key ob))"

definition obj_SetState :: "(bytes \<Rightarrow> bytes) \<Rightarrow> bytes \<Rightarrow> bytes \<Rightarrow> stateObject \<Rightarrow> StateDB \<Rightarrow>
    (stateObject \<times> StateDB) option" where
  "obj_SetState K key v ob s =
     (case fakeStorage ob of
       Some fake \<Rightarrow> Some (ob\<lparr>fakeStorage := Some (fake(key \<mapsto> v))\<rparr>, s)
     | None \<Rightarrow> do {
         (prev, ob) \<leftarrow> obj_GetState K s key ob;
         Some (if prev = v then (ob, s)
               else (setState key v ob, append_entry (storageChange (address ob) key prev) s))
       })"

subsection \<open>Journalled changes of an object\<close>

definition ripemd :: bytes where
  "ripemd = replicate 19 0 @ [3]"

definition touch :: "stateObject \<Rightarrow> StateDB \<Rightarrow> StateDB" where
  "touch ob s =
     (let s = append_entry (touchChange (address ob)) s
      in if address ob = ripemd then s\<lparr>s_journal := journal_dirty (address ob) (s_journal s)\<rparr> else s)"

definition obj_SetBalance :: "int \<Rightarrow> stateObject \<Rightarrow> StateDB \<Rightarrow> stateObject \<times> StateDB" where
  "obj_SetBalance amount ob s =
     (setBalance amount ob, append_entry (balanceChange (address ob) (Balance (data ob))) s)"

definition obj_AddBalance :: "(bytes \<Rightarrow> bytes) \<Rightarrow> int \<Rightarrow> stateObject \<Rightarrow> StateDB \<Rightarrow> stateObject \<times> StateDB" where
  "obj_AddBalance K amount ob s =
     (if amount = 0 then (ob, if obj_empty K ob then touch ob s else s)
      else obj_SetBalance (Balance (data ob) + amount) ob s)"

definition obj_SubBalance :: "int \<Rightarrow> stateObject \<Rightarrow> StateDB \<Rightarrow> stateObject \<times> StateDB" where
  "obj_SubBalance amount ob s =
     (if amount = 0 then (ob, s) else obj_SetBalance (Balance (data ob) - amount) ob s)"

definition obj_SetNonce :: "u64 \<Rightarrow> stateObject \<Rightarrow> StateDB \<Rightarrow> stateObject \<times> StateDB" where
  "obj_SetNonce nonce ob s =
     (setNonce nonce ob, append_entry (nonceChange (address ob) (Nonce (data ob))) s)"

definition obj_SetCode :: "(bytes \<Rightarrow> bytes) \<Rightarrow> bytes \<Rightarrow> bytes option \<Rightarrow> stateObject \<Rightarrow> StateDB \<Rightarrow> stateObject \<times> StateDB" where
  "obj_SetCode K codeHash code ob s =
     (let (prevcode, ob) = obj_Code K (s_db s) ob
      in (setCode codeHash code ob,
          append_entry (codeChange (address ob) prevcode (CodeHash (data ob))) s))"

definition obj_SetStorage :: "storage \<Rightarrow> stateObject \<Rightarrow> stateObject" where
  "obj_SetStorage st ob =
     ob\<lparr>fakeStorage := Some ((case fakeStorage ob of None \<Rightarrow> Map.empty | Some fake \<Rightarrow> fake) ++ st)\<rparr>"

end
