(* ===== verification/State_Ops.thy ===== *)
theory State_Ops
  imports State_DB
begin

text \<open>
  \<open>core/state/statedb.go\<close> and \<open>journal.go\<close>: the operations that the virtual machine calls on the
  state, snapshots and their undoing, and the end of a transaction.
\<close>

subsection \<open>Opening a state\<close>

text \<open>\<open>sn\<close> is the layer that \<open>snaps.Snapshot(root)\<close> returns, \<open>None\<close> if there is none.\<close>

definition NewState :: "bytes \<Rightarrow> Database \<Rightarrow> Snapshot option \<Rightarrow> trie_error + StateDB" where
  "NewState rt db sn =
     (case NewSecure (view db) rt of
       Inl e \<Rightarrow> Inl e
     | Inr t \<Rightarrow> Inr
         \<lparr>s_db = db, s_trie = t, snap = sn, snapDestructs = {}, snapAccounts = Map.empty,
          snapStorage = Map.empty, stateObjects = Map.empty, stateObjectsPending = {},
          stateObjectsDirty = {}, s_dbErr = None, refund = 0, thash = zeroHash, bhash = zeroHash,
          s_txIndex = 0, logs = Map.empty, logSize = 0, s_preimages = Map.empty,
          s_journal = newJournal, validRevisions = [], nextRevisionId = 0\<rparr>)"

definition clearJournalAndRefund :: "StateDB \<Rightarrow> StateDB" where
  "clearJournalAndRefund s =
     (let s = (if 0 < length (entries (s_journal s)) then s\<lparr>s_journal := newJournal, refund := 0\<rparr> else s)
      in s\<lparr>validRevisions := []\<rparr>)"

definition ResetState :: "bytes \<Rightarrow> Snapshot option \<Rightarrow> StateDB \<Rightarrow> trie_error option \<times> StateDB" where
  "ResetState rt sn s =
     (case NewSecure (view (s_db s)) rt of
       Inl e \<Rightarrow> (Some e, s)
     | Inr t \<Rightarrow>
         (None, (clearJournalAndRefund
           (s\<lparr>s_trie := t, stateObjects := Map.empty, stateObjectsPending := {}, stateObjectsDirty := {},
              thash := zeroHash, bhash := zeroHash, s_txIndex := 0, logs := Map.empty, logSize := 0,
              s_preimages := Map.empty\<rparr>))
           \<lparr>snap := sn, snapDestructs := {}, snapAccounts := Map.empty, snapStorage := Map.empty\<rparr>))"

definition Prepare :: "bytes \<Rightarrow> bytes \<Rightarrow> int \<Rightarrow> StateDB \<Rightarrow> StateDB" where
  "Prepare th bh ti s = s\<lparr>thash := th, bhash := bh, s_txIndex := ti\<rparr>"

subsection \<open>Reading\<close>

definition Exist :: "(bytes \<Rightarrow> bytes) \<Rightarrow> bytes \<Rightarrow> StateDB \<Rightarrow> (bool \<times> StateDB) option" where
  "Exist K addr s = do {
     (ob, s) \<leftarrow> getStateObject K addr s;
     Some (ob \<noteq> None, s)
   }"

definition Empty :: "(bytes \<Rightarrow> bytes) \<Rightarrow> bytes \<Rightarrow> StateDB \<Rightarrow> (bool \<times> StateDB) option" where
  "Empty K addr s = do {
     (so, s) \<leftarrow> getStateObject K addr s;
     Some (case so of None \<Rightarrow> True | Some ob \<Rightarrow> obj_empty K ob, s)
   }"

definition GetBalance :: "(bytes \<Rightarrow> bytes) \<Rightarrow> bytes \<Rightarrow> StateDB \<Rightarrow> (int \<times> StateDB) option" where
  "GetBalance K addr s = do {
     (so, s) \<leftarrow> getStateObject K addr s;
     Some (case so of None \<Rightarrow> 0 | Some ob \<Rightarrow> Balance (data ob), s)
   }"

definition GetNonce :: "(bytes \<Rightarrow> bytes) \<Rightarrow> bytes \<Rightarrow> StateDB \<Rightarrow> (u64 \<times> StateDB) option" where
  "GetNonce K addr s = do {
     (so, s) \<leftarrow> getStateObject K addr s;
     Some (case so of None \<Rightarrow> 0 | Some ob \<Rightarrow> Nonce (data ob), s)
   }"

definition GetCode :: "(bytes \<Rightarrow> bytes) \<Rightarrow> bytes \<Rightarrow> StateDB \<Rightarrow> (bytes option \<times> StateDB) option" where
  "GetCode K addr s = do {
     (so, s) \<leftarrow> getStateObject K addr s;
     Some (case so of
       None \<Rightarrow> (None, s)
     | Some ob \<Rightarrow> let (code, ob) = obj_Code K (s_db s) ob in (code, setStateObject ob s))
   }"

definition GetCodeSize :: "(bytes \<Rightarrow> bytes) \<Rightarrow> bytes \<Rightarrow> StateDB \<Rightarrow> (nat \<times> StateDB) option" where
  "GetCodeSize K addr s = do {
     (so, s) \<leftarrow> getStateObject K addr s;
     Some (case so of
       None \<Rightarrow> (0, s)
     | Some ob \<Rightarrow> let (n, ob) = obj_CodeSize K (s_db s) ob in (n, setStateObject ob s))
   }"

definition GetCodeHash :: "(bytes \<Rightarrow> bytes) \<Rightarrow> bytes \<Rightarrow> StateDB \<Rightarrow> (bytes \<times> StateDB) option" where
  "GetCodeHash K addr s = do {
     (so, s) \<leftarrow> getStateObject K addr s;
     Some (case so of None \<Rightarrow> zeroHash | Some ob \<Rightarrow> BytesToHash (bytes_of (CodeHash (data ob))), s)
   }"

definition GetState :: "(bytes \<Rightarrow> bytes) \<Rightarrow> bytes \<Rightarrow> bytes \<Rightarrow> StateDB \<Rightarrow> (bytes \<times> StateDB) option" where
  "GetState K addr key s = do {
     (so, s) \<leftarrow> getStateObject K addr s;
     case so of
       None \<Rightarrow> Some (zeroHash, s)
     | Some ob \<Rightarrow> do {
         (v, ob) \<leftarrow> obj_GetState K s key ob;
         Some (v, setStateObject ob s)
       }
   }"

definition GetCommittedState :: "(bytes \<Rightarrow> bytes) \<Rightarrow> bytes \<Rightarrow> bytes \<Rightarrow> StateDB \<Rightarrow> (bytes \<times> StateDB) option" where
  "GetCommittedState K addr key s = do {
     (so, s) \<leftarrow> getStateObject K addr s;
     case so of
       None \<Rightarrow> Some (zeroHash, s)
     | Some ob \<Rightarrow> do {
         (v, ob) \<leftarrow> obj_GetCommittedState K s key ob;
         Some (v, setStateObject ob s)
       }
   }"

definition HasSuicided :: "(bytes \<Rightarrow> bytes) \<Rightarrow> bytes \<Rightarrow> StateDB \<Rightarrow> (bool \<times> StateDB) option" where
  "HasSuicided K addr s = do {
     (so, s) \<leftarrow> getStateObject K addr s;
     Some (case so of None \<Rightarrow> False | Some ob \<Rightarrow> suicided ob, s)
   }"

definition GetLogs :: "bytes \<Rightarrow> StateDB \<Rightarrow> Log list" where
  "GetLogs h s = (case logs s h of None \<Rightarrow> [] | Some ls \<Rightarrow> ls)"

subsection \<open>Writing\<close>

definition AddBalance :: "(bytes \<Rightarrow> bytes) \<Rightarrow> bytes \<Rightarrow> int \<Rightarrow> StateDB \<Rightarrow> StateDB option" where
  "AddBalance K addr amount s = do {
     (ob, s) \<leftarrow> GetOrNewStateObject K addr s;
     let (ob, s) = obj_AddBalance K amount ob s;
     Some (setStateObject ob s)
   }"

definition SubBalance :: "(bytes \<Rightarrow> bytes) \<Rightarrow> bytes \<Rightarrow> int \<Rightarrow> StateDB \<Rightarrow> StateDB option" where
  "SubBalance K addr amount s = do {
     (ob, s) \<leftarrow> GetOrNewStateObject K addr s;
     let (ob, s) = obj_SubBalance amount ob s;
     Some (setStateObject ob s)
   }"

definition SetBalance :: "(bytes \<Rightarrow> bytes) \<Rightarrow> bytes \<Rightarrow> int \<Rightarrow> StateDB \<Rightarrow> StateDB option" where
  "SetBalance K addr amount s = do {
     (ob, s) \<leftarrow> GetOrNewStateObject K addr s;
     let (ob, s) = obj_SetBalance amount ob s;
     Some (setStateObject ob s)
   }"

definition SetNonce :: "(bytes \<Rightarrow> bytes) \<Rightarrow> bytes \<Rightarrow> u64 \<Rightarrow> StateDB \<Rightarrow> StateDB option" where
  "SetNonce K addr nonce s = do {
     (ob, s) \<leftarrow> GetOrNewStateObject K addr s;
     let (ob, s) = obj_SetNonce nonce ob s;
     Some (setStateObject ob s)
   }"

definition SetCode :: "(bytes \<Rightarrow> bytes) \<Rightarrow> bytes \<Rightarrow> bytes option \<Rightarrow> StateDB \<Rightarrow> StateDB option" where
  "SetCode K addr code s = do {
     (ob, s) \<leftarrow> GetOrNewStateObject K addr s;
     let (ob, s) = obj_SetCode K (K (bytes_of code)) code ob s;
     Some (setStateObject ob s)
   }"

definition SetState :: "(bytes \<Rightarrow> bytes) \<Rightarrow> bytes \<Rightarrow> bytes \<Rightarrow> bytes \<Rightarrow> StateDB \<Rightarrow> StateDB option" where
  "SetState K addr key v s = do {
     (ob, s) \<leftarrow> GetOrNewStateObject K addr s;
     (ob, s) \<leftarrow> obj_SetState K key v ob s;
     Some (setStateObject ob s)
   }"

definition SetStorage :: "(bytes \<Rightarrow> bytes) \<Rightarrow> bytes \<Rightarrow> storage \<Rightarrow> StateDB \<Rightarrow> StateDB option" where
  "SetStorage K addr st s = do {
     (ob, s) \<leftarrow> GetOrNewStateObject K addr s;
     Some (setStateObject (obj_SetStorage st ob) s)
   }"

definition Suicide :: "(bytes \<Rightarrow> bytes) \<Rightarrow> bytes \<Rightarrow> StateDB \<Rightarrow> (bool \<times> StateDB) option" where
  "Suicide K addr s = do {
     (so, s) \<leftarrow> getStateObject K addr s;
     case so of
       None \<Rightarrow> Some (False, s)
     | Some ob \<Rightarrow>
         let s = append_entry (suicideChange addr (suicided ob) (Balance (data ob))) s;
             ob = markSuicided ob;
             ob = ob\<lparr>data := (data ob)\<lparr>Balance := 0\<rparr>\<rparr>
         in Some (True, setStateObject ob s)
   }"

definition AddLog :: "Log \<Rightarrow> StateDB \<Rightarrow> StateDB" where
  "AddLog lg s =
     (let s = append_entry (addLogChange (thash s)) s;
          lg = lg\<lparr>TxHash := thash s, BlockHash := bhash s, TxIndex := word_of_int (s_txIndex s),
                  Index := logSize s\<rparr>
      in s\<lparr>logs := (logs s)(thash s \<mapsto> GetLogs (thash s) s @ [lg]), logSize := logSize s + 1\<rparr>)"

definition AddPreimage :: "bytes \<Rightarrow> bytes \<Rightarrow> StateDB \<Rightarrow> StateDB" where
  "AddPreimage h pre s =
     (if s_preimages s h = None then
        (append_entry (addPreimageChange h) s)\<lparr>s_preimages := (s_preimages s)(h \<mapsto> pre)\<rparr>
      else s)"

definition AddRefund :: "u64 \<Rightarrow> StateDB \<Rightarrow> StateDB" where
  "AddRefund gas s = (append_entry (refundChange (refund s)) s)\<lparr>refund := refund s + gas\<rparr>"

definition SubRefund :: "u64 \<Rightarrow> StateDB \<Rightarrow> StateDB option" where
  "SubRefund gas s =
     (let s = append_entry (refundChange (refund s)) s
      in if refund s < gas then None else Some (s\<lparr>refund := refund s - gas\<rparr>))"

subsection \<open>Snapshots and undoing\<close>

definition Snapshot_id :: "StateDB \<Rightarrow> int \<times> StateDB" where
  "Snapshot_id s =
     (let i = nextRevisionId s
      in (i, s\<lparr>nextRevisionId := i + 1,
               validRevisions := validRevisions s @ [(i, length (entries (s_journal s)))]\<rparr>))"

text \<open>Undoing an entry; each method is called on the object that \<open>getStateObject\<close> returns.\<close>

definition on_object :: "(bytes \<Rightarrow> bytes) \<Rightarrow> bytes \<Rightarrow> (stateObject \<Rightarrow> stateObject) \<Rightarrow> StateDB \<Rightarrow> StateDB option" where
  "on_object K addr f s = do {
     (so, s) \<leftarrow> getStateObject K addr s;
     ob \<leftarrow> so;
     Some (setStateObject (f ob) s)
   }"

fun revert_entry :: "(bytes \<Rightarrow> bytes) \<Rightarrow> journalEntry \<Rightarrow> StateDB \<Rightarrow> StateDB option" where
  "revert_entry K (createObjectChange a) s =
     Some (s\<lparr>stateObjects := (stateObjects s)(a := None), stateObjectsDirty := stateObjectsDirty s - {a}\<rparr>)"
| "revert_entry K (resetObjectChange prev prevdestruct) s =
     (let s = setStateObject prev s
      in Some (if \<not> prevdestruct \<and> snap s \<noteq> None
               then s\<lparr>snapDestructs := snapDestructs s - {addrHash prev}\<rparr> else s))"
| "revert_entry K (suicideChange a prev prevbalance) s = do {
     (so, s) \<leftarrow> getStateObject K a s;
     Some (case so of
       None \<Rightarrow> s
     | Some ob \<Rightarrow> setStateObject (setBalance prevbalance (ob\<lparr>suicided := prev\<rparr>)) s)
   }"
| "revert_entry K (touchChange a) s = Some s"
| "revert_entry K (balanceChange a prev) s = on_object K a (setBalance prev) s"
| "revert_entry K (nonceChange a prev) s = on_object K a (setNonce prev) s"
| "revert_entry K (codeChange a prevcode prevhash) s =
     on_object K a (setCode (BytesToHash (bytes_of prevhash)) prevcode) s"
| "revert_entry K (storageChange a key prevalue) s = on_object K a (setState key prevalue) s"
| "revert_entry K (refundChange prev) s = Some (s\<lparr>refund := prev\<rparr>)"
| "revert_entry K (addLogChange txhash) s =
     (let ls = GetLogs txhash s in
      if length ls = 1 then Some (s\<lparr>logs := (logs s)(txhash := None), logSize := logSize s - 1\<rparr>)
      else if length ls = 0 then None
      else Some (s\<lparr>logs := (logs s)(txhash \<mapsto> butlast ls), logSize := logSize s - 1\<rparr>))"
| "revert_entry K (addPreimageChange h) s = Some (s\<lparr>s_preimages := (s_preimages s)(h := None)\<rparr>)"

definition undirty :: "journalEntry \<Rightarrow> StateDB \<Rightarrow> StateDB" where
  "undirty e s =
     (case dirtied e of
       None \<Rightarrow> s
     | Some a \<Rightarrow>
         let j = s_journal s; n = count_of (jdirties j) a - 1
         in s\<lparr>s_journal := j\<lparr>jdirties := (jdirties j)(a := if n = 0 then None else Some n)\<rparr>\<rparr>)"

text \<open>The loop of \<open>journal.revert\<close>, over the entries from the last one down.\<close>

fun revert_entries :: "(bytes \<Rightarrow> bytes) \<Rightarrow> journalEntry list \<Rightarrow> StateDB \<Rightarrow> StateDB option" where
  "revert_entries K [] s = Some s"
| "revert_entries K (e # es) s = do {
     s \<leftarrow> revert_entry K e s;
     revert_entries K es (undirty e s)
   }"

text \<open>A slice beyond the end of the entries is a panic.\<close>

definition journal_revert :: "(bytes \<Rightarrow> bytes) \<Rightarrow> nat \<Rightarrow> StateDB \<Rightarrow> StateDB option" where
  "journal_revert K snapshot s =
     (if length (entries (s_journal s)) < snapshot then None
      else do {
        s \<leftarrow> revert_entries K (rev (drop snapshot (entries (s_journal s)))) s;
        Some (s\<lparr>s_journal := (s_journal s)\<lparr>entries := take snapshot (entries (s_journal s))\<rparr>\<rparr>)
      })"

text \<open>\<open>sort.Search\<close> of the Go library, between the bounds \<open>i\<close> and \<open>j\<close>.\<close>

function sort_Search :: "(nat \<Rightarrow> bool) \<Rightarrow> nat \<Rightarrow> nat \<Rightarrow> nat" where
  "sort_Search f i j =
     (if i < j then
        let h = (i + j) div 2
        in if \<not> f h then sort_Search f (h + 1) j else sort_Search f i h
      else i)"
  by pat_completeness auto

termination
  by (relation "measure (\<lambda>(f, i, j). j - i)") auto

declare sort_Search.simps [simp del]

definition RevertToSnapshot :: "(bytes \<Rightarrow> bytes) \<Rightarrow> int \<Rightarrow> StateDB \<Rightarrow> StateDB option" where
  "RevertToSnapshot K revid s =
     (let idx = sort_Search (\<lambda>i. revid \<le> fst (validRevisions s ! i)) 0 (length (validRevisions s)) in
      if idx = length (validRevisions s) \<or> fst (validRevisions s ! idx) \<noteq> revid then None
      else do {
        let snapshot = snd (validRevisions s ! idx);
        s \<leftarrow> journal_revert K snapshot s;
        Some (s\<lparr>validRevisions := take idx (validRevisions s)\<rparr>)
      })"

subsection \<open>The end of a transaction\<close>

text \<open>One round of the loop of \<open>Finalise\<close>.\<close>

definition finalise_addr :: "(bytes \<Rightarrow> bytes) \<Rightarrow> bool \<Rightarrow> bytes \<Rightarrow> StateDB \<Rightarrow> StateDB" where
  "finalise_addr K deleteEmptyObjects addr s =
     (case stateObjects s addr of
       None \<Rightarrow> s
     | Some ob \<Rightarrow>
         let s =
           (if suicided ob \<or> (deleteEmptyObjects \<and> obj_empty K ob) then
              let s = s\<lparr>stateObjects := (stateObjects s)(addr \<mapsto> ob\<lparr>deleted := True\<rparr>)\<rparr>
              in if snap s \<noteq> None
                 then s\<lparr>snapDestructs := insert (addrHash ob) (snapDestructs s),
                        snapAccounts := (snapAccounts s)(addrHash ob := None),
                        snapStorage := (snapStorage s)(addrHash ob := None)\<rparr>
                 else s
            else s\<lparr>stateObjects := (stateObjects s)(addr \<mapsto> finalise ob)\<rparr>)
         in s\<lparr>stateObjectsPending := insert addr (stateObjectsPending s),
              stateObjectsDirty := insert addr (stateObjectsDirty s)\<rparr>)"

text \<open>\<open>addrs\<close> lists the dirty addresses of the journal in the order in which the loop meets them.\<close>

definition Finalise :: "(bytes \<Rightarrow> bytes) \<Rightarrow> bool \<Rightarrow> bytes list \<Rightarrow> StateDB \<Rightarrow> StateDB" where
  "Finalise K deleteEmptyObjects addrs s =
     clearJournalAndRefund (fold (finalise_addr K deleteEmptyObjects) addrs s)"

subsection \<open>Copies\<close>

definition deepCopy :: "(bytes \<Rightarrow> bytes) \<Rightarrow> stateObject \<Rightarrow> stateObject" where
  "deepCopy K ob =
     (newObject K (address ob) (data ob))
       \<lparr>o_trie := map_option Secure_Copy (o_trie ob), o_code := o_code ob,
        dirtyStorage := dirtyStorage ob, originStorage := originStorage ob,
        pendingStorage := pendingStorage ob, suicided := suicided ob, dirtyCode := dirtyCode ob,
        deleted := deleted ob\<rparr>"

text \<open>
  The copy has no snapshot layer, journal, revisions, transaction or error of its own yet.
  \<open>addrs\<close> lists the dirty addresses of the journal.
\<close>

definition CopyState :: "(bytes \<Rightarrow> bytes) \<Rightarrow> bytes list \<Rightarrow> StateDB \<Rightarrow> StateDB option" where
  "CopyState K addrs s =
     (if (\<exists>a \<in> stateObjectsPending s \<union> stateObjectsDirty s. stateObjects s a = None) then None
      else
        let touched = set (filter (\<lambda>a. stateObjects s a \<noteq> None) addrs);
            pending = touched \<union> stateObjectsPending s;
            dirty = touched \<union> stateObjectsDirty s
        in Some \<lparr>s_db = s_db s, s_trie = Secure_Copy (s_trie s), snap = None, snapDestructs = {},
          snapAccounts = Map.empty, snapStorage = Map.empty,
          stateObjects = (\<lambda>a. if a \<in> pending \<union> dirty then map_option (deepCopy K) (stateObjects s a) else None),
          stateObjectsPending = pending, stateObjectsDirty = dirty,
          s_dbErr = None, refund = refund s, thash = zeroHash, bhash = zeroHash, s_txIndex = 0,
          logs = logs s, logSize = logSize s, s_preimages = s_preimages s,
          s_journal = newJournal, validRevisions = [], nextRevisionId = 0\<rparr>)"

end
