(* ===== verification/State_Spec.thy ===== *)
theory State_Spec
  imports State_Ops
begin

text \<open>
  What the state of \<open>core/state\<close> promises: a table of accounts that the operations read and
  update, where a snapshot is a copy of everything and undoing goes back to the copy.
\<close>

subsection \<open>Accounts\<close>

record acct =
  a_nonce :: u64
  a_balance :: int
  a_codehash :: bytes
  a_code :: "bytes option"
  a_store :: "bytes \<Rightarrow> bytes"
  a_committed :: "bytes \<Rightarrow> bytes"
  a_suicided :: bool

datatype slot = Absent | Deleted | Live acct

text \<open>\<open>destructs\<close>: the hashed addresses whose storage in the snapshot no longer counts; \<open>touched\<close>:
  the accounts that the end of the transaction visits.\<close>

record astate =
  accounts :: "bytes \<Rightarrow> slot"
  destructs :: "bytes set"
  touched :: "bytes set"
  a_refund :: u64
  a_logs :: "bytes \<Rightarrow> Log list"
  a_logSize :: u64
  a_preimages :: "bytes \<rightharpoonup> bytes"

definition fresh :: "(bytes \<Rightarrow> bytes) \<Rightarrow> acct" where
  "fresh K = \<lparr>a_nonce = 0, a_balance = 0, a_codehash = K [], a_code = None,
     a_store = (\<lambda>_. zeroHash), a_committed = (\<lambda>_. zeroHash), a_suicided = False\<rparr>"

definition is_empty :: "(bytes \<Rightarrow> bytes) \<Rightarrow> acct \<Rightarrow> bool" where
  "is_empty K x \<longleftrightarrow> a_nonce x = 0 \<and> a_balance x = 0 \<and> a_codehash x = K []"

definition live :: "astate \<Rightarrow> bytes \<Rightarrow> acct option" where
  "live a addr = (case accounts a addr of Live x \<Rightarrow> Some x | _ \<Rightarrow> None)"

definition set_account :: "bytes \<Rightarrow> acct \<Rightarrow> astate \<Rightarrow> astate" where
  "set_account addr x a = a\<lparr>accounts := (accounts a)(addr := Live x)\<rparr>"

definition set_touched :: "bytes \<Rightarrow> astate \<Rightarrow> astate" where
  "set_touched addr a = a\<lparr>touched := insert addr (touched a)\<rparr>"

text \<open>Creating over nothing touches the account; creating over an account that is or was there
  makes its old storage void instead.\<close>

definition create :: "(bytes \<Rightarrow> bytes) \<Rightarrow> bool \<Rightarrow> bytes \<Rightarrow> astate \<Rightarrow> astate" where
  "create K sn addr a =
     set_account addr (fresh K)
       (if accounts a addr = Absent then set_touched addr a
        else if sn then a\<lparr>destructs := insert (K addr) (destructs a)\<rparr> else a)"

definition get_or_new :: "(bytes \<Rightarrow> bytes) \<Rightarrow> bool \<Rightarrow> bytes \<Rightarrow> astate \<Rightarrow> acct \<times> astate" where
  "get_or_new K sn addr a =
     (case live a addr of Some x \<Rightarrow> (x, a) | None \<Rightarrow> (fresh K, create K sn addr a))"

definition change :: "(bytes \<Rightarrow> bytes) \<Rightarrow> bool \<Rightarrow> bytes \<Rightarrow> (acct \<Rightarrow> acct) \<Rightarrow> astate \<Rightarrow> astate" where
  "change K sn addr f a =
     (let (x, a) = get_or_new K sn addr a in set_touched addr (set_account addr (f x) a))"

definition finish :: "(bytes \<Rightarrow> bytes) \<Rightarrow> bool \<Rightarrow> bool \<Rightarrow> astate \<Rightarrow> astate" where
  "finish K sn delEmpty a =
     (let gone = (\<lambda>x. a_suicided x \<or> (delEmpty \<and> is_empty K x)) in
      a\<lparr>accounts := (\<lambda>addr.
          case accounts a addr of
            Live x \<Rightarrow> if addr \<in> touched a then (if gone x then Deleted else Live (x\<lparr>a_committed := a_store x\<rparr>)) else Live x
          | sl \<Rightarrow> sl),
        destructs := (if sn then destructs a \<union> K ` {addr \<in> touched a. \<exists>x. accounts a addr = Live x \<and> gone x}
          else destructs a),
        touched := {}, a_refund := 0\<rparr>)"

subsection \<open>Operations\<close>

datatype state_op =
    OExist bytes
  | OEmpty bytes
  | OGetBalance bytes
  | OGetNonce bytes
  | OGetCode bytes
  | OGetCodeSize bytes
  | OGetCodeHash bytes
  | OGetState bytes bytes
  | OGetCommittedState bytes bytes
  | OHasSuicided bytes
  | OGetLogs bytes
  | OGetRefund
  | OPreimage bytes
  | OCreateAccount bytes
  | OAddBalance bytes int
  | OSubBalance bytes int
  | OSetBalance bytes int
  | OSetNonce bytes u64
  | OSetCode bytes "bytes option"
  | OSetState bytes bytes bytes
  | OSuicide bytes
  | OAddLog Log
  | OAddPreimage bytes bytes
  | OAddRefund u64
  | OSubRefund u64
  | OSnapshot
  | ORevert int
  | OFinalise bool "bytes list"
  | OPrepare bytes bytes int

datatype answer =
    Done
  | Yes bool
  | Num int
  | Gas u64
  | Size nat
  | Word32 bytes
  | Blob "bytes option"
  | LogList "Log list"

text \<open>An operation of the code.\<close>

fun exec_op :: "(bytes \<Rightarrow> bytes) \<Rightarrow> state_op \<Rightarrow> StateDB \<Rightarrow> (answer \<times> StateDB) option" where
  "exec_op K (OExist a) s = map_option (apfst Yes) (Exist K a s)"
| "exec_op K (OEmpty a) s = map_option (apfst Yes) (Empty K a s)"
| "exec_op K (OGetBalance a) s = map_option (apfst Num) (GetBalance K a s)"
| "exec_op K (OGetNonce a) s = map_option (apfst Gas) (GetNonce K a s)"
| "exec_op K (OGetCode a) s = map_option (apfst Blob) (GetCode K a s)"
| "exec_op K (OGetCodeSize a) s = map_option (apfst Size) (GetCodeSize K a s)"
| "exec_op K (OGetCodeHash a) s = map_option (apfst Word32) (GetCodeHash K a s)"
| "exec_op K (OGetState a k) s = map_option (apfst Word32) (GetState K a k s)"
| "exec_op K (OGetCommittedState a k) s = map_option (apfst Word32) (GetCommittedState K a k s)"
| "exec_op K (OHasSuicided a) s = map_option (apfst Yes) (HasSuicided K a s)"
| "exec_op K (OGetLogs h) s = Some (LogList (GetLogs h s), s)"
| "exec_op K OGetRefund s = Some (Gas (refund s), s)"
| "exec_op K (OPreimage h) s = Some (Blob (s_preimages s h), s)"
| "exec_op K (OCreateAccount a) s = map_option (Pair Done) (CreateAccount K a s)"
| "exec_op K (OAddBalance a v) s = map_option (Pair Done) (AddBalance K a v s)"
| "exec_op K (OSubBalance a v) s = map_option (Pair Done) (SubBalance K a v s)"
| "exec_op K (OSetBalance a v) s = map_option (Pair Done) (SetBalance K a v s)"
| "exec_op K (OSetNonce a n) s = map_option (Pair Done) (SetNonce K a n s)"
| "exec_op K (OSetCode a c) s = map_option (Pair Done) (SetCode K a c s)"
| "exec_op K (OSetState a k v) s = map_option (Pair Done) (SetState K a k v s)"
| "exec_op K (OSuicide a) s = map_option (apfst Yes) (Suicide K a s)"
| "exec_op K (OAddLog lg) s = Some (Done, AddLog lg s)"
| "exec_op K (OAddPreimage h p) s = Some (Done, AddPreimage h p s)"
| "exec_op K (OAddRefund g) s = Some (Done, AddRefund g s)"
| "exec_op K (OSubRefund g) s = map_option (Pair Done) (SubRefund g s)"
| "exec_op K OSnapshot s = Some (apfst Num (Snapshot_id s))"
| "exec_op K (ORevert i) s = map_option (Pair Done) (RevertToSnapshot K i s)"
| "exec_op K (OFinalise delEmpty addrs) s = Some (Done, Finalise K delEmpty addrs s)"
| "exec_op K (OPrepare th bh ti) s = Some (Done, Prepare th bh ti s)"

fun run_state :: "(bytes \<Rightarrow> bytes) \<Rightarrow> state_op list \<Rightarrow> StateDB \<Rightarrow> (answer list \<times> StateDB) option" where
  "run_state K [] s = Some ([], s)"
| "run_state K (p # ps) s = do {
     (r, s) \<leftarrow> exec_op K p s;
     (rs, s) \<leftarrow> run_state K ps s;
     Some (r # rs, s)
   }"

text \<open>
  The same operation on the specification: the current accounts, the copies taken, each under
  its number, and the transaction that runs.  \<open>None\<close> is a call that the interface forbids: a refund below zero, a snapshot that is
  not there, an end of the transaction over other accounts than the touched ones.
\<close>

record spec =
  now :: astate
  saved :: "(int \<times> astate) list"
  next_id :: int
  tx :: "bytes \<times> bytes \<times> int"

definition asks :: "(acct option \<Rightarrow> answer) \<Rightarrow> bytes \<Rightarrow> spec \<Rightarrow> (answer \<times> spec) option" where
  "asks f addr A = Some (f (live (now A) addr), A)"

definition does :: "(astate \<Rightarrow> astate) \<Rightarrow> spec \<Rightarrow> (answer \<times> spec) option" where
  "does f A = Some (Done, A\<lparr>now := f (now A)\<rparr>)"

fun spec_op :: "(bytes \<Rightarrow> bytes) \<Rightarrow> bool \<Rightarrow> state_op \<Rightarrow> spec \<Rightarrow> (answer \<times> spec) option" where
  "spec_op K sn (OExist a) A = asks (\<lambda>x. Yes (x \<noteq> None)) a A"
| "spec_op K sn (OEmpty a) A = asks (\<lambda>x. Yes (case x of None \<Rightarrow> True | Some x \<Rightarrow> is_empty K x)) a A"
| "spec_op K sn (OGetBalance a) A = asks (\<lambda>x. Num (case x of None \<Rightarrow> 0 | Some x \<Rightarrow> a_balance x)) a A"
| "spec_op K sn (OGetNonce a) A = asks (\<lambda>x. Gas (case x of None \<Rightarrow> 0 | Some x \<Rightarrow> a_nonce x)) a A"
| "spec_op K sn (OGetCode a) A = asks (\<lambda>x. Blob (case x of None \<Rightarrow> None | Some x \<Rightarrow> a_code x)) a A"
| "spec_op K sn (OGetCodeSize a) A =
     asks (\<lambda>x. Size (case x of None \<Rightarrow> 0 | Some x \<Rightarrow> length (bytes_of (a_code x)))) a A"
| "spec_op K sn (OGetCodeHash a) A =
     asks (\<lambda>x. Word32 (case x of None \<Rightarrow> zeroHash | Some x \<Rightarrow> a_codehash x)) a A"
| "spec_op K sn (OGetState a k) A =
     asks (\<lambda>x. Word32 (case x of None \<Rightarrow> zeroHash | Some x \<Rightarrow> a_store x k)) a A"
| "spec_op K sn (OGetCommittedState a k) A =
     asks (\<lambda>x. Word32 (case x of None \<Rightarrow> zeroHash | Some x \<Rightarrow> a_committed x k)) a A"
| "spec_op K sn (OHasSuicided a) A = asks (\<lambda>x. Yes (case x of None \<Rightarrow> False | Some x \<Rightarrow> a_suicided x)) a A"
| "spec_op K sn (OGetLogs h) A = Some (LogList (a_logs (now A) h), A)"
| "spec_op K sn OGetRefund A = Some (Gas (a_refund (now A)), A)"
| "spec_op K sn (OPreimage h) A = Some (Blob (a_preimages (now A) h), A)"
| "spec_op K sn (OCreateAccount a) A =
     does (\<lambda>c. let b = (case live c a of None \<Rightarrow> 0 | Some x \<Rightarrow> a_balance x)
       in set_account a ((fresh K)\<lparr>a_balance := b\<rparr>) (create K sn a c)) A"
| "spec_op K sn (OAddBalance a v) A =
     does (\<lambda>c. if v \<noteq> 0 then change K sn a (\<lambda>x. x\<lparr>a_balance := a_balance x + v\<rparr>) c
       else let (x, c) = get_or_new K sn a c in if is_empty K x then set_touched a c else c) A"
| "spec_op K sn (OSubBalance a v) A =
     does (\<lambda>c. if v \<noteq> 0 then change K sn a (\<lambda>x. x\<lparr>a_balance := a_balance x - v\<rparr>) c
       else snd (get_or_new K sn a c)) A"
| "spec_op K sn (OSetBalance a v) A = does (change K sn a (\<lambda>x. x\<lparr>a_balance := v\<rparr>)) A"
| "spec_op K sn (OSetNonce a n) A = does (change K sn a (\<lambda>x. x\<lparr>a_nonce := n\<rparr>)) A"
| "spec_op K sn (OSetCode a c) A =
     does (change K sn a (\<lambda>x. x\<lparr>a_code := c, a_codehash := K (bytes_of c)\<rparr>)) A"
| "spec_op K sn (OSetState a k v) A =
     does (\<lambda>c. let (x, c') = get_or_new K sn a c
       in if a_store x k = v then c' else change K sn a (\<lambda>x. x\<lparr>a_store := (a_store x)(k := v)\<rparr>) c) A"
| "spec_op K sn (OSuicide a) A =
     (case live (now A) a of
       None \<Rightarrow> Some (Yes False, A)
     | Some x \<Rightarrow> Some (Yes True, A\<lparr>now := change K sn a (\<lambda>x. x\<lparr>a_suicided := True, a_balance := 0\<rparr>) (now A)\<rparr>))"
| "spec_op K sn (OAddLog lg) A =
     does (\<lambda>c. let (th, bh, ti) = tx A;
         lg = lg\<lparr>TxHash := th, BlockHash := bh, TxIndex := word_of_int ti, Index := a_logSize c\<rparr>
       in c\<lparr>a_logs := (a_logs c)(th := a_logs c th @ [lg]), a_logSize := a_logSize c + 1\<rparr>) A"
| "spec_op K sn (OAddPreimage h p) A =
     does (\<lambda>c. if a_preimages c h = None then c\<lparr>a_preimages := (a_preimages c)(h \<mapsto> p)\<rparr> else c) A"
| "spec_op K sn (OAddRefund g) A = does (\<lambda>c. c\<lparr>a_refund := a_refund c + g\<rparr>) A"
| "spec_op K sn (OSubRefund g) A =
     (if a_refund (now A) < g then None else does (\<lambda>c. c\<lparr>a_refund := a_refund c - g\<rparr>) A)"
| "spec_op K sn OSnapshot A =
     Some (Num (next_id A), A\<lparr>saved := saved A @ [(next_id A, now A)], next_id := next_id A + 1\<rparr>)"
| "spec_op K sn (ORevert i) A =
     (case map_of (saved A) i of
       None \<Rightarrow> None
     | Some c \<Rightarrow> Some (Done, A\<lparr>now := c, saved := takeWhile (\<lambda>p. fst p \<noteq> i) (saved A)\<rparr>))"
| "spec_op K sn (OFinalise delEmpty addrs) A =
     (if distinct addrs \<and> set addrs = touched (now A) then Some (Done, A\<lparr>now := finish K sn delEmpty (now A), saved := []\<rparr>) else None)"
| "spec_op K sn (OPrepare th bh ti) A = Some (Done, A\<lparr>tx := (th, bh, ti)\<rparr>)"

fun run_spec :: "(bytes \<Rightarrow> bytes) \<Rightarrow> bool \<Rightarrow> state_op list \<Rightarrow> spec \<Rightarrow> (answer list \<times> spec) option" where
  "run_spec K sn [] A = Some ([], A)"
| "run_spec K sn (p # ps) A = do {
     (r, A) \<leftarrow> spec_op K sn p A;
     (rs, A) \<leftarrow> run_spec K sn ps A;
     Some (r # rs, A)
   }"

end
