(* ===== verification/Account_Codec.thy ===== *)
theory Account_Codec
  imports State_DB
begin

text \<open>
  Accounts in the trie and in the snapshot: \<open>core/state/state_object.go\<close> writes them to the trie,
  \<open>core/state/snapshot/account.go\<close> has the slim form, which leaves out an empty root and code.
\<close>

definition account_val :: "Account \<Rightarrow> goval" where
  "account_val acc =
     VList [VUint (Nonce acc), VBig (Balance acc), VBytes (Root acc), VBytes (bytes_of (CodeHash acc))]"

text \<open>\<open>EncodeRLP\<close> of an object; \<open>None\<close> is the panic of \<open>updateStateObject\<close>.\<close>

definition encodeAccount :: "Account \<Rightarrow> bytes option" where
  "encodeAccount acc =
     (case EncodeToBytes Account_type (account_val acc) of Some (Inr b) \<Rightarrow> Some b | _ \<Rightarrow> None)"

definition slim_type :: gotype where
  "slim_type = TStruct [(TUint 64, no_tags), (TBigPtr, no_tags), (TSlice (TUint 8), no_tags),
     (TSlice (TUint 8), no_tags)]"

definition slim_val :: "slimAccount \<Rightarrow> goval" where
  "slim_val acc = VList [VUint (sl_Nonce acc), VBig (sl_Balance acc), VBytes (sl_Root acc), VBytes (sl_CodeHash acc)]"

fun slim_of :: "goval \<Rightarrow> slimAccount option" where
  "slim_of (VList [VUint n, VBig b, VBytes r, VBytes c]) =
     Some \<lparr>sl_Nonce = n, sl_Balance = b, sl_Root = r, sl_CodeHash = c\<rparr>"
| "slim_of _ = None"

definition SlimAccount :: "(bytes \<Rightarrow> bytes) \<Rightarrow> u64 \<Rightarrow> int \<Rightarrow> bytes \<Rightarrow> bytes \<Rightarrow> slimAccount" where
  "SlimAccount K nonce balance rt codehash =
     \<lparr>sl_Nonce = nonce, sl_Balance = balance,
      sl_Root = (if rt \<noteq> emptyRoot then rt else []),
      sl_CodeHash = (if codehash \<noteq> emptyCodeHash K then codehash else [])\<rparr>"

definition SlimAccountRLP :: "(bytes \<Rightarrow> bytes) \<Rightarrow> u64 \<Rightarrow> int \<Rightarrow> bytes \<Rightarrow> bytes \<Rightarrow> bytes option" where
  "SlimAccountRLP K nonce balance rt codehash =
     (case EncodeToBytes slim_type (slim_val (SlimAccount K nonce balance rt codehash)) of
       Some (Inr b) \<Rightarrow> Some b | _ \<Rightarrow> None)"

text \<open>The fuel is enough as for \<open>decodeAccount\<close>.\<close>

definition FullAccount :: "(bytes \<Rightarrow> bytes) \<Rightarrow> bytes \<Rightarrow> (rlp_error + slimAccount) option" where
  "FullAccount K enc = do {
     r \<leftarrow> DecodeBytes 2 enc slim_type;
     case r of
       Inl e \<Rightarrow> Some (Inl e)
     | Inr v \<Rightarrow> do {
         acc \<leftarrow> slim_of v;
         let acc = (if length (sl_Root acc) = 0 then acc\<lparr>sl_Root := emptyRoot\<rparr> else acc);
         let acc = (if length (sl_CodeHash acc) = 0 then acc\<lparr>sl_CodeHash := emptyCodeHash K\<rparr> else acc);
         Some (Inr acc)
       }
   }"

definition FullAccountRLP :: "(bytes \<Rightarrow> bytes) \<Rightarrow> bytes \<Rightarrow> (rlp_error + bytes) option" where
  "FullAccountRLP K enc = do {
     r \<leftarrow> FullAccount K enc;
     case r of
       Inl e \<Rightarrow> Some (Inl e)
     | Inr acc \<Rightarrow>
         (case EncodeToBytes slim_type (slim_val acc) of Some (Inr b) \<Rightarrow> Some (Inr b) | _ \<Rightarrow> None)
   }"

subsection \<open>Decoding gives an account or an error\<close>

definition yields :: "('a \<Rightarrow> bool) \<Rightarrow> ((rlp_error + 'a) \<times> Stream) option \<Rightarrow> bool" where
  "yields P x \<longleftrightarrow> (\<exists>e s. x = Some (Inl e, s)) \<or> (\<exists>v s. x = Some (Inr v, s) \<and> P v)"

lemma yields_on_ok: "yields P x \<Longrightarrow> (\<And>v s. P v \<Longrightarrow> yields Q (f v s)) \<Longrightarrow> yields Q (on_ok x f)"
  unfolding yields_def on_ok_def by fastforce

lemma yields_mono: "yields P x \<Longrightarrow> (\<And>v. P v \<Longrightarrow> Q v) \<Longrightarrow> yields Q x"
  by (auto simp: yields_def split: option.splits sum.splits)

lemma yields_value_of: "yields (\<lambda>v. \<exists>y. v = f y) (value_of f x)"
  by (auto simp: yields_def value_of_def map_sum_def split: option.splits sum.splits prod.splits)

lemma yields_big: "yields (\<lambda>v. \<exists>i. v = VBig i \<and> 0 \<le> i) (Some (decodeBigInt s))"
  by (auto simp: yields_def decodeBigInt_def split: sum.splits prod.splits if_splits)

lemma length_readFull: "readFull n s = (Inr b, s') \<Longrightarrow> length b = n"
  by (auto simp: readFull_def Let_def split: option.splits sum.splits prod.splits if_splits)

lemma yields_array: "yields (\<lambda>v. \<exists>b. v = VBytes b \<and> length b = n) (Some (decodeByteArray n s))"
  by (auto simp: yields_def decodeByteArray_def dest: length_readFull
      split: sum.splits prod.splits if_splits kind.splits)

lemma yields_fields:
  assumes "\<not> ignored ts" and d: "\<And>s. yields P (dec t ts s)" and f: "\<And>s. yields Q (decodeFields dec fs s)"
  shows "yields (\<lambda>vs. \<exists>v ws. vs = v # ws \<and> P v \<and> Q ws) (decodeFields dec ((t, ts) # fs) s)"
proof (cases "\<exists>e s'. dec t ts s = Some (Inl e, s')")
  case True
  with assms(1) show ?thesis by (auto simp: yields_def)
next
  case False
  with d [of s] obtain v s' where "dec t ts s = Some (Inr v, s')" "P v" by (auto simp: yields_def)
  with assms(1) f [of s'] show ?thesis by (auto simp: yields_def on_ok_def)
qed

lemma yields_struct:
  assumes "\<And>s. yields P (decodeFields dec fs s)"
  shows "yields (\<lambda>v. \<exists>vs. v = VList vs \<and> P vs) (decodeStruct dec fs s)"
proof -
  have "yields (\<lambda>v. \<exists>vs. v = VList vs \<and> P vs) (end_list (VList vs) s)" if "P vs" for vs s
    using that by (auto simp: yields_def end_list_def split: prod.splits option.splits)
  moreover have "yields (\<lambda>_. True) (Some (List_open s))"
    by (cases "List_open s"; cases "fst (List_open s)") (auto simp: yields_def)
  ultimately show ?thesis
    unfolding decodeStruct_def by (intro yields_on_ok) (use assms in blast)+
qed

lemma no_tags_simps [simp]: "ignored no_tags = False" "tail no_tags = False" "nilOK no_tags = False"
  by (simp_all add: no_tags_def)

lemma not_ignored: "\<not> ignored no_tags"
  by simp

lemma yields_scalars:
  "yields (\<lambda>v. \<exists>n. v = VUint n) (decodeVal (Suc f) (TUint 64) ts s)"
  "yields (\<lambda>v. \<exists>i. v = VBig i \<and> 0 \<le> i) (decodeVal (Suc f) TBigPtr ts s)"
  "yields (\<lambda>v. \<exists>b. v = VBytes b \<and> length b = n) (decodeVal (Suc f) (TArray n (TUint 8)) ts s)"
  "yields (\<lambda>v. \<exists>b. v = VBytes b) (decodeVal (Suc f) (TSlice (TUint 8)) ts s)"
  using yields_value_of [of VUint] yields_value_of [of VBytes] yields_big yields_array
  by (simp_all add: isByte_def)

lemma yields_nil: "yields (\<lambda>vs. vs = []) (decodeFields dec [] s)"
  by (simp add: yields_def)

lemma DecodeBytes_yields:
  assumes "\<And>s. yields P (decodeVal fuel t no_tags s)" and "serializable t"
  shows "(\<exists>e. DecodeBytes fuel b t = Some (Inl e)) \<or> (\<exists>v. DecodeBytes fuel b t = Some (Inr v) \<and> P v)"
  using assms(1) [of "Reset b (len64 b)"] assms(2)
  by (auto simp: yields_def DecodeBytes_def Stream_Decode_def)

lemma Account_serializable: "serializable Account_type" "serializable slim_type"
  by code_simp+

lemma decodes_Account: "yields (\<lambda>v. \<exists>n i b c. v = VList [VUint n, VBig i, VBytes b, VBytes c] \<and> 0 \<le> i \<and> length b = 32)
    (decodeVal (Suc (Suc f)) Account_type no_tags s)"
proof -
  have "yields (\<lambda>v. \<exists>n i b c. v = [VUint n, VBig i, VBytes b, VBytes c] \<and> 0 \<le> i \<and> length b = 32)
    (decodeFields (decodeVal (Suc f)) [(TUint 64, no_tags), (TBigPtr, no_tags), (TArray 32 (TUint 8), no_tags),
     (TSlice (TUint 8), no_tags)] s)" for s
    by (rule yields_mono, (rule yields_fields not_ignored yields_scalars yields_nil)+) auto
  from yields_mono [OF yields_struct [OF this, of s], of "\<lambda>v. \<exists>n i b c. v = VList [VUint n, VBig i, VBytes b, VBytes c] \<and> 0 \<le> i \<and> length b = 32"]
  show ?thesis by (auto simp: Account_type_def)
qed

lemma decodes_slim: "yields (\<lambda>v. \<exists>n i b c. v = VList [VUint n, VBig i, VBytes b, VBytes c] \<and> 0 \<le> i)
    (decodeVal (Suc (Suc f)) slim_type no_tags s)"
proof -
  have "yields (\<lambda>v. \<exists>n i b c. v = [VUint n, VBig i, VBytes b, VBytes c] \<and> 0 \<le> i)
    (decodeFields (decodeVal (Suc f)) [(TUint 64, no_tags), (TBigPtr, no_tags), (TSlice (TUint 8), no_tags),
     (TSlice (TUint 8), no_tags)] s)" for s
    by (rule yields_mono, (rule yields_fields not_ignored yields_scalars yields_nil)+) auto
  from yields_mono [OF yields_struct [OF this, of s], of "\<lambda>v. \<exists>n i b c. v = VList [VUint n, VBig i, VBytes b, VBytes c] \<and> 0 \<le> i"]
  show ?thesis by (auto simp: slim_type_def)
qed


lemma decodeAccount_total: "decodeAccount enc \<noteq> None"
  using DecodeBytes_yields [of _ 2 Account_type enc, unfolded numeral_2_eq_2, OF decodes_Account Account_serializable(1)]
  by (auto simp: decodeAccount_def numeral_2_eq_2)

subsection \<open>Round trips\<close>

text \<open>More fuel changes nothing.\<close>

lemma decodeFields_cong:
  assumes "\<And>t ts. (t, ts) \<in> set fs \<Longrightarrow> d t ts = e t ts"
  shows "decodeFields d fs s = decodeFields e fs s"
proof -
  have "decodeFields d fs = decodeFields e fs"
    using assms
  proof (induction fs)
    case (Cons f fs)
    then have "decodeFields d fs = decodeFields e fs" "d (fst f) (snd f) = e (fst f) (snd f)" by auto
    then show ?case by (cases f) (intro ext, simp split: option.splits sum.splits prod.splits)
  qed (intro ext, simp)
  then show ?thesis by simp
qed

lemma decodeVal_fuel:
  "decodeVal (Suc (Suc f)) Account_type no_tags = decodeVal 2 Account_type no_tags"
  "decodeVal (Suc (Suc f)) slim_type no_tags = decodeVal 2 slim_type no_tags"
proof -
  have "decodeFields (decodeVal (Suc f)) fs s = decodeFields (decodeVal (Suc 0)) fs s"
    if "set (map fst fs) \<subseteq> {TUint 64, TBigPtr, TArray 32 (TUint 8), TSlice (TUint 8)}" for fs s
    using that by (intro decodeFields_cong) (force simp: fun_eq_iff isByte_def)
  then show "decodeVal (Suc (Suc f)) Account_type no_tags = decodeVal 2 Account_type no_tags"
    "decodeVal (Suc (Suc f)) slim_type no_tags = decodeVal 2 slim_type no_tags"
    by (simp_all add: fun_eq_iff numeral_2_eq_2 Account_type_def slim_type_def decodeStruct_def del: decodeFields.simps)
qed

lemma DecodeBytes_fuel:
  "DecodeBytes (Suc (Suc f)) b Account_type = DecodeBytes 2 b Account_type"
  "DecodeBytes (Suc (Suc f)) b slim_type = DecodeBytes 2 b slim_type"
  by (simp_all add: DecodeBytes_def Stream_Decode_def decodeVal_fuel del: decodeVal.simps)

lemma DecodeBytes_2:
  assumes "storable t no_tags v" and "serializable t" and "length (enc_val t no_tags v) < 2 ^ 64"
    and t: "t = Account_type \<or> t = slim_type"
  shows "EncodeToBytes t v = Some (Inr (enc_val t no_tags v)) \<and> DecodeBytes 2 (enc_val t no_tags v) t = Some (Inr v)"
proof -
  from DecodeBytes_storable [OF assms(1,2), of "[]"] assms(3) obtain f where
    "\<forall>fuel \<ge> f. DecodeBytes fuel (enc_val t no_tags v) t = Some (Inr v)" by auto
  then have "DecodeBytes (Suc (Suc f)) (enc_val t no_tags v) t = Some (Inr v)" by simp
  with t have "DecodeBytes 2 (enc_val t no_tags v) t = Some (Inr v)" using DecodeBytes_fuel by metis
  moreover have "EncodeToBytes t v = Some (Inr (enc_val t no_tags v))"
    using encode_emits [OF assms(2) storable_typed(1) [OF assms(1)] assms(3)] toBytes_emits
    by (auto simp: EncodeToBytes_def)
  ultimately show ?thesis by simp
qed

definition account_wf :: "Account \<Rightarrow> bool" where
  "account_wf acc \<longleftrightarrow> 0 \<le> Balance acc \<and> Balance acc < 2 ^ 256 \<and> length (Root acc) = 32 \<and>
     (\<exists>c. CodeHash acc = Some c \<and> length c < 2 ^ 32)"

lemma length_nat_bytes_256: "0 \<le> b \<Longrightarrow> b < 2 ^ 256 \<Longrightarrow> length (nat_bytes (nat b)) \<le> 32"
  by (simp add: length_nat_bytes_le nat_less_iff)

lemma length_enc_fields4:
  assumes "0 \<le> b" "b < 2 ^ 256" "length r \<le> 32" "length c < 2 ^ 32"
  shows "length (enc_string (nat_bytes (unat (n :: u64))) @ enc_string (nat_bytes (nat b)) @ enc_string r @ enc_string c) < 2 ^ 33"
proof -
  have "unat n < 2 ^ LENGTH(64)" by (rule unsigned_less)
  then have "length (nat_bytes (unat n)) \<le> 8" by (simp add: length_nat_bytes_le)
  with assms length_nat_bytes_256 [OF assms(1,2)] length_enc_string_le [of "nat_bytes (unat n)"]
    length_enc_string_le [of "nat_bytes (nat b)"] length_enc_string_le [of r] length_enc_string_le [of c]
  show ?thesis by simp
qed

lemma encodeAccount_wf:
  assumes "account_wf acc"
  shows "\<exists>b. encodeAccount acc = Some b \<and> b \<noteq> [] \<and> decodeAccount b = Some (Inr acc)"
proof -
  obtain c where c: "CodeHash acc = Some c" "length c < 2 ^ 32" using assms by (auto simp: account_wf_def)
  have s: "storable Account_type no_tags (account_val acc)"
    using assms unsigned_less [of "Nonce acc"]
    by (auto simp: Account_type_def account_val_def account_wf_def isByte_def)
  let ?b = "enc_val Account_type no_tags (account_val acc)"
  have b: "?b = enc_kind List (enc_string (nat_bytes (unat (Nonce acc))) @ enc_string (nat_bytes (nat (Balance acc))) @
      enc_string (Root acc) @ enc_string c)"
    by (simp add: Account_type_def account_val_def c bytes_of_def)
  have "length ?b < 2 ^ 64"
    unfolding b using length_enc_fields4 [of "Balance acc" "Root acc" c "Nonce acc"] assms c
    by (intro le_less_trans [OF length_enc_list]) (simp add: account_wf_def)
  with DecodeBytes_2 [OF s Account_serializable(1)] have
    "EncodeToBytes Account_type (account_val acc) = Some (Inr ?b)" "DecodeBytes 2 ?b Account_type = Some (Inr (account_val acc))"
    by auto
  moreover have "?b \<noteq> []" unfolding b by (rule enc_kind_ne) simp
  ultimately show ?thesis
    by (auto simp: encodeAccount_def decodeAccount_def account_val_def c bytes_of_def)
qed

text \<open>
  C24: The slim form loses nothing.  For an account with a 32-byte root and a non-empty code hash,
  \<open>SlimAccountRLP\<close> succeeds and \<open>FullAccount\<close> gives back its nonce, balance, root and code hash,
  also when the root or the code was empty and left out.
\<close>

theorem FullAccount_SlimAccountRLP:
  assumes "0 \<le> b" and "b < 2 ^ 256" and "length rt = 32" and "c \<noteq> []" and "length c < 2 ^ 32"
  shows "\<exists>enc. SlimAccountRLP K n b rt c = Some enc \<and>
    FullAccount K enc = Some (Inr \<lparr>sl_Nonce = n, sl_Balance = b, sl_Root = rt, sl_CodeHash = c\<rparr>)"
proof -
  define acc where "acc = SlimAccount K n b rt c"
  have a: "sl_Nonce acc = n" "sl_Balance acc = b" "sl_Root acc = (if rt \<noteq> emptyRoot then rt else [])"
    "sl_CodeHash acc = (if c \<noteq> emptyCodeHash K then c else [])"
    by (simp_all add: acc_def SlimAccount_def)
  have s: "storable slim_type no_tags (slim_val acc)"
    using assms unsigned_less [of n] by (auto simp: slim_type_def slim_val_def a isByte_def)
  let ?b = "enc_val slim_type no_tags (slim_val acc)"
  have e: "?b = enc_kind List (enc_string (nat_bytes (unat (sl_Nonce acc))) @ enc_string (nat_bytes (nat (sl_Balance acc))) @
      enc_string (sl_Root acc) @ enc_string (sl_CodeHash acc))"
    by (simp add: slim_type_def slim_val_def)
  have "length (sl_Root acc) \<le> 32" "length (sl_CodeHash acc) < 2 ^ 32" using assms by (simp_all add: a)
  with length_enc_fields4 [of "sl_Balance acc" "sl_Root acc" "sl_CodeHash acc" "sl_Nonce acc"] assms(1,2)
  have "length ?b < 2 ^ 64"
    unfolding e by (intro le_less_trans [OF length_enc_list]) (simp add: a(2))
  with DecodeBytes_2 [OF s Account_serializable(2)] have
    "EncodeToBytes slim_type (slim_val acc) = Some (Inr ?b)" "DecodeBytes 2 ?b slim_type = Some (Inr (slim_val acc))"
    by auto
  moreover have "length emptyRoot \<noteq> 0" by (simp add: emptyRoot_def)
  ultimately show ?thesis using assms(3,4)
    by (auto simp: SlimAccountRLP_def FullAccount_def slim_val_def a simp flip: acc_def)
qed

theorem FullAccount_SlimAccountRLP_witness:
  "\<exists>enc. SlimAccountRLP (\<lambda>_. replicate 32 1) 7 1000 emptyRoot (replicate 32 1) = Some enc \<and>
     FullAccount (\<lambda>_. replicate 32 1) enc =
       Some (Inr \<lparr>sl_Nonce = 7, sl_Balance = 1000, sl_Root = emptyRoot, sl_CodeHash = replicate 32 1\<rparr>)"
  by (rule FullAccount_SlimAccountRLP) (simp_all add: emptyRoot_def)

end
