(* ===== verification/State_Correct.thy ===== *)
theory State_Correct
  imports State_Spec Account_Codec
begin

text \<open>
  The state and its journal implement the specification: objects that are loaded, cached and
  changed in place stand for the accounts of the table, and undoing the entries of the journal one
  by one goes back through the tables that were.
\<close>

subsection \<open>What lies below the state\<close>

text \<open>
  The hash function, the node database, what the hashes and found trees of its tries are, the
  snapshot layer and the contents of the state trie.
\<close>

record world =
  w_K :: "bytes \<Rightarrow> bytes"
  w_db :: Database
  w_H :: tree_hash
  w_A :: "ptree \<Rightarrow> bool"
  w_snap :: "Snapshot option"
  w_map :: "bytes \<rightharpoonup> bytes"

definition rep :: "world \<Rightarrow> SecureTrie \<Rightarrow> (bytes \<rightharpoonup> bytes) \<Rightarrow> bool" where
  "rep w = secure_holds (view (w_db w)) (w_H w) (w_A w)"

lemma rep_get:
  assumes "rep w t m"
  shows "\<exists>t'. Secure_TryGet (w_K w) (view (w_db w)) key t = Some (Inr (m (w_K w key)), t') \<and> rep w t' m"
  using secure.lookup_rep assms unfolding rep_def by blast

text \<open>The account that a first access to an address finds.\<close>

definition in_trie :: "world \<Rightarrow> bytes \<Rightarrow> Account option" where
  "in_trie w addr =
     (if length (bytes_of (w_map w (w_K w addr))) = 0 then None
      else case decodeAccount (bytes_of (w_map w (w_K w addr))) of
        Some (Inr acc) \<Rightarrow> Some acc
      | _ \<Rightarrow> None)"

definition found :: "world \<Rightarrow> bytes \<Rightarrow> Account option" where
  "found w addr =
     (case w_snap w of
       None \<Rightarrow> in_trie w addr
     | Some sn \<Rightarrow>
         (case sn_Account sn (w_K w addr) of
           Inl _ \<Rightarrow> in_trie w addr
         | Inr acc \<Rightarrow> map_option (of_slim (w_K w)) acc))"

definition slot_value :: "bytes \<Rightarrow> bytes" where
  "slot_value enc =
     (if 0 < length enc then (case Split enc of Inl e \<Rightarrow> BytesToHash [] | Inr (_, c, _) \<Rightarrow> BytesToHash c)
      else zeroHash)"

text \<open>The storage trie of an object, loaded or not, and the storage below its caches.\<close>

definition trie_at :: "world \<Rightarrow> SecureTrie option \<Rightarrow> bytes \<Rightarrow> (bytes \<rightharpoonup> bytes) \<Rightarrow> bool" where
  "trie_at w to rt m \<longleftrightarrow>
     (case to of
       Some t \<Rightarrow> rep w t m
     | None \<Rightarrow> \<exists>t. NewSecure (view (w_db w)) rt = Inr t \<and> rep w t m)"

definition disk :: "world \<Rightarrow> bytes set \<Rightarrow> bytes \<Rightarrow> (bytes \<rightharpoonup> bytes) \<Rightarrow> bytes \<Rightarrow> bytes" where
  "disk w ds h m key =
     (if w_snap w \<noteq> None \<and> h \<in> ds then zeroHash
      else case (case w_snap w of None \<Rightarrow> Inl () | Some sn \<Rightarrow> sn_Storage sn h (w_K w key)) of
        Inr enc \<Rightarrow> slot_value enc
      | Inl _ \<Rightarrow> slot_value (bytes_of (m (w_K w key))))"

definition overlay :: "storage \<Rightarrow> (bytes \<Rightarrow> bytes) \<Rightarrow> bytes \<Rightarrow> bytes" where
  "overlay c f key = (case c key of Some v \<Rightarrow> v | None \<Rightarrow> f key)"

lemma overlay_put: "overlay (c(k \<mapsto> v)) f = (overlay c f)(k := v)"
  by (auto simp: overlay_def fun_eq_iff)

lemma overlay_empty [simp]: "overlay Map.empty f = f"
  by (simp add: overlay_def fun_eq_iff)

definition code_of :: "world \<Rightarrow> bytes option \<Rightarrow> bytes \<Rightarrow> bytes option" where
  "code_of w code h =
     (case code of
       Some c \<Rightarrow> Some c
     | None \<Rightarrow> if h = w_K w [] then None else ContractCode (w_db w) (BytesToHash h))"

definition obj_at :: "world \<Rightarrow> bytes set \<Rightarrow> (bytes \<rightharpoonup> bytes) \<Rightarrow> stateObject \<Rightarrow> acct \<Rightarrow> bool" where
  "obj_at w ds m ob x \<longleftrightarrow>
     fakeStorage ob = None \<and> addrHash ob = w_K w (address ob) \<and> length (a_codehash x) = 32 \<and>
     CodeHash (data ob) = Some (a_codehash x) \<and> Nonce (data ob) = a_nonce x \<and>
     Balance (data ob) = a_balance x \<and> code_of w (o_code ob) (a_codehash x) = a_code x \<and>
     suicided ob = a_suicided x \<and> trie_at w (o_trie ob) (Root (data ob)) m \<and>
     a_committed x = overlay (pendingStorage ob) (overlay (originStorage ob) (disk w ds (addrHash ob) m)) \<and>
     a_store x = overlay (dirtyStorage ob) (a_committed x)"

definition obj_abs :: "world \<Rightarrow> bytes set \<Rightarrow> stateObject \<Rightarrow> acct \<Rightarrow> bool" where
  "obj_abs w ds ob x \<longleftrightarrow> (\<exists>m. obj_at w ds m ob x)"

definition obj_slot :: "world \<Rightarrow> bytes set \<Rightarrow> bytes \<Rightarrow> stateObject option \<Rightarrow> slot \<Rightarrow> bool" where
  "obj_slot w ds addr so sl \<longleftrightarrow>
     (case so of
       None \<Rightarrow> sl = Absent
     | Some ob \<Rightarrow> address ob = addr \<and> addrHash ob = w_K w addr \<and>
         (if deleted ob then sl = Deleted \<and> (w_snap w \<noteq> None \<longrightarrow> w_K w addr \<in> ds)
          else \<exists>x. sl = Live x \<and> obj_abs w ds ob x))"

definition cur :: "world \<Rightarrow> StateDB \<Rightarrow> bytes \<Rightarrow> stateObject option" where
  "cur w s addr =
     (case stateObjects s addr of
       Some ob \<Rightarrow> Some ob
     | None \<Rightarrow> map_option (newObject (w_K w) addr) (found w addr))"

definition over :: "world \<Rightarrow> StateDB \<Rightarrow> bool" where
  "over w s \<longleftrightarrow> s_db s = w_db w \<and> snap s = w_snap w \<and> rep w (s_trie s) (w_map w)"

abbreviation addr_ok :: "bytes \<Rightarrow> bool" where
  "addr_ok addr \<equiv> length addr = 20"

definition core :: "world \<Rightarrow> StateDB \<Rightarrow> astate \<Rightarrow> bool" where
  "core w s a \<longleftrightarrow>
     over w s \<and> snapDestructs s = destructs a \<and> refund s = a_refund a \<and> logSize s = a_logSize a \<and>
     s_preimages s = a_preimages a \<and> (\<forall>h. GetLogs h s = a_logs a h) \<and>
     (\<forall>addr. addr_ok addr \<longrightarrow> obj_slot w (destructs a) addr (cur w s addr) (accounts a addr)) \<and>
     (\<forall>addr \<in> touched a. stateObjects s addr \<noteq> None)"

text \<open>
  What is assumed of the world: a hash of 32 bytes without collisions on addresses; accounts that
  are found have a code hash of 32 bytes and a storage trie in the database; where no account is
  found the snapshot has no storage either.
\<close>

definition world_ok :: "world \<Rightarrow> bool" where
  "world_ok w \<longleftrightarrow>
     digest32 (w_K w) \<and> inj_on (w_K w) {addr. addr_ok addr} \<and>
     (\<forall>addr. addr_ok addr \<longrightarrow>
       (case found w addr of
         Some acc \<Rightarrow> length (bytes_of (CodeHash acc)) = 32 \<and> (\<exists>m. trie_at w None (Root (data (newObject (w_K w) addr acc))) m)
       | None \<Rightarrow> (\<forall>sn key. w_snap w = Some sn \<longrightarrow>
           (case sn_Storage sn (w_K w addr) (w_K w key) of Inl _ \<Rightarrow> True | Inr enc \<Rightarrow> slot_value enc = zeroHash))))"

subsection \<open>Reading accounts\<close>

text \<open>The parts of the state that loading an object leaves alone.\<close>

definition rest :: "StateDB \<Rightarrow> StateDB" where
  "rest s = s\<lparr>s_trie := undefined, stateObjects := Map.empty\<rparr>"

lemma getDeletedStateObject_cur:
  assumes "over w s"
  shows "\<exists>s'. getDeletedStateObject (w_K w) addr s = Some (cur w s addr, s') \<and> over w s' \<and>
    cur w s' = cur w s \<and> stateObjects s' addr = cur w s addr \<and> rest s' = rest s \<and>
    (\<forall>a. stateObjects s a \<noteq> None \<longrightarrow> stateObjects s' a \<noteq> None)"
proof (cases "stateObjects s addr")
  case (Some ob)
  with assms show ?thesis by (simp add: getDeletedStateObject_def cur_def)
next
  case None
  define put where "put so s = (case so of None \<Rightarrow> Some (None, s)
    | Some acc \<Rightarrow> Some (Some (newObject (w_K w) addr acc), setStateObject (newObject (w_K w) addr acc) s))" for so s
  have put: ?thesis
    if "getDeletedStateObject (w_K w) addr s = put (found w addr) (s\<lparr>s_trie := t\<rparr>)" "rep w t (w_map w)" for t
    using that assms None
    by (auto simp: put_def over_def cur_def rest_def setStateObject_def newObject_def Let_def fun_eq_iff
        split: option.splits)
  from assms have b: "s_db s = w_db w" "snap s = w_snap w" "rep w (s_trie s) (w_map w)" by (auto simp: over_def)
  show ?thesis
  proof (cases "snap_account (w_K w) addr s")
    case (Inr acc)
    then have "found w addr = acc" using b by (auto simp: snap_account_def found_def split: option.splits sum.splits)
    with None Inr have "getDeletedStateObject (w_K w) addr s = put (found w addr) (s\<lparr>s_trie := s_trie s\<rparr>)"
      by (simp add: getDeletedStateObject_def put_def Let_def split: option.splits)
    then show ?thesis using put b(3) by blast
  next
    case (Inl u)
    then have st: "found w addr = in_trie w addr" using b by (auto simp: snap_account_def found_def split: option.splits sum.splits)
    from rep_get [OF b(3), of addr] obtain t where
      t: "Secure_TryGet (w_K w) (view (s_db s)) addr (s_trie s) = Some (Inr (w_map w (w_K w addr)), t)"
      "rep w t (w_map w)" using b(1) by auto
    have "getDeletedStateObject (w_K w) addr s = put (found w addr) (s\<lparr>s_trie := t\<rparr>)"
      using None Inl t(1) decodeAccount_total [of "bytes_of (w_map w (w_K w addr))"]
      by (auto simp: getDeletedStateObject_def put_def st in_trie_def Let_def split: option.splits sum.splits)
    then show ?thesis using put t(2) by blast
  qed
qed

lemma rest_eqD:
  assumes "rest s' = rest s"
  shows "s_journal s' = s_journal s" "validRevisions s' = validRevisions s" "nextRevisionId s' = nextRevisionId s"
    "snapDestructs s' = snapDestructs s" "refund s' = refund s" "logs s' = logs s" "logSize s' = logSize s"
    "s_preimages s' = s_preimages s" "thash s' = thash s" "bhash s' = bhash s" "s_txIndex s' = s_txIndex s"
  using arg_cong [OF assms, of s_journal] arg_cong [OF assms, of validRevisions] arg_cong [OF assms, of nextRevisionId]
    arg_cong [OF assms, of snapDestructs] arg_cong [OF assms, of refund] arg_cong [OF assms, of logs]
    arg_cong [OF assms, of logSize] arg_cong [OF assms, of s_preimages] arg_cong [OF assms, of thash]
    arg_cong [OF assms, of bhash] arg_cong [OF assms, of s_txIndex]
  by (simp_all add: rest_def)

lemma core_same:
  assumes "core w s a" and "over w s'" and "cur w s' = cur w s" and "rest s' = rest s"
    and "\<forall>a. stateObjects s a \<noteq> None \<longrightarrow> stateObjects s' a \<noteq> None"
  shows "core w s' a"
  using assms rest_eqD [OF assms(4)] unfolding core_def GetLogs_def by metis

text \<open>What a call has not changed: the journal and the revisions, and the running transaction.\<close>

definition meta :: "StateDB \<Rightarrow> journal \<times> (int \<times> nat) list \<times> int \<times> bytes \<times> bytes \<times> int" where
  "meta s = (s_journal s, validRevisions s, nextRevisionId s, thash s, bhash s, s_txIndex s)"

lemma meta_rest: "rest s' = rest s \<Longrightarrow> meta s' = meta s"
  using rest_eqD [of s' s] by (simp add: meta_def)

lemma load_core:
  assumes "core w s a"
  shows "\<exists>s'. getDeletedStateObject (w_K w) addr s = Some (cur w s addr, s') \<and> core w s' a \<and> meta s' = meta s \<and>
    cur w s' addr = cur w s addr"
proof -
  have "over w s" using assms by (simp add: core_def)
  from getDeletedStateObject_cur [OF this, of addr] obtain s' where
    s': "getDeletedStateObject (w_K w) addr s = Some (cur w s addr, s')" "over w s'" "cur w s' = cur w s"
    "rest s' = rest s" "\<forall>a. stateObjects s a \<noteq> None \<longrightarrow> stateObjects s' a \<noteq> None" by blast
  with core_same [OF assms s'(2-5)] meta_rest [OF s'(4)] show ?thesis by auto
qed

lemma core_slot:
  "core w s a \<Longrightarrow> addr_ok addr \<Longrightarrow> obj_slot w (destructs a) addr (cur w s addr) (accounts a addr)"
  by (simp add: core_def)

lemma getStateObject_core:
  assumes "core w s a" and "addr_ok addr"
  shows "\<exists>so s'. getStateObject (w_K w) addr s = Some (so, s') \<and> core w s' a \<and> meta s' = meta s \<and>
    (case live a addr of None \<Rightarrow> so = None
     | Some x \<Rightarrow> \<exists>ob. so = Some ob \<and> address ob = addr \<and> \<not> deleted ob \<and> obj_abs w (destructs a) ob x)"
proof -
  from load_core [OF assms(1), of addr] obtain s' where
    s': "getDeletedStateObject (w_K w) addr s = Some (cur w s addr, s')" "core w s' a" "meta s' = meta s" by blast
  from core_slot [OF assms] s' show ?thesis
    by (cases "cur w s addr")
      (auto simp: getStateObject_def live_def obj_slot_def split: if_splits)
qed

subsection \<open>Writing accounts\<close>

lemma core_append [simp]: "core w (append_entry e s) a = core w s a"
  by (simp add: core_def append_entry_def over_def cur_def GetLogs_def)

lemma append_entry_sel [simp]:
  "snap (append_entry e s) = snap s" "s_db (append_entry e s) = s_db s" "snapDestructs (append_entry e s) = snapDestructs s"
  "stateObjects (append_entry e s) = stateObjects s" "refund (append_entry e s) = refund s"
  "thash (append_entry e s) = thash s" "bhash (append_entry e s) = bhash s" "s_txIndex (append_entry e s) = s_txIndex s"
  "logSize (append_entry e s) = logSize s" "logs (append_entry e s) = logs s" "s_preimages (append_entry e s) = s_preimages s"
  by (simp_all add: append_entry_def)

lemma setStateObject_sel [simp]:
  "s_db (setStateObject ob s) = s_db s" "snap (setStateObject ob s) = snap s" "s_trie (setStateObject ob s) = s_trie s"
  "snapDestructs (setStateObject ob s) = snapDestructs s" "refund (setStateObject ob s) = refund s"
  "logs (setStateObject ob s) = logs s" "logSize (setStateObject ob s) = logSize s"
  "s_preimages (setStateObject ob s) = s_preimages s"
  "stateObjects (setStateObject ob s) = (stateObjects s)(address ob \<mapsto> ob)"
  by (simp_all add: setStateObject_def)

lemma cur_set: "cur w (setStateObject ob s) = (cur w s)(address ob := Some ob)"
  by (auto simp: cur_def fun_eq_iff)

lemma core_set:
  assumes "core w s a" and "obj_slot w (destructs a) addr (Some ob) sl"
  shows "core w (setStateObject ob s) (a\<lparr>accounts := (accounts a)(addr := sl)\<rparr>)"
proof -
  have "address ob = addr" using assms(2) by (simp add: obj_slot_def)
  with assms show ?thesis
    by (auto simp: core_def cur_set over_def GetLogs_def)
qed

lemma meta_set [simp]: "meta (setStateObject ob s) = meta s"
  by (simp add: meta_def setStateObject_def)

lemma core_set_same:
  assumes "core w s a" and "addr_ok addr" and "live a addr = Some x" and "address ob = addr" and "\<not> deleted ob"
    and "obj_abs w (destructs a) ob x"
  shows "core w (setStateObject ob s) a"
proof -
  have "a\<lparr>accounts := (accounts a)(addr := Live x)\<rparr> = a"
    using assms(3) by (simp add: live_def fun_upd_idem split: slot.splits)
  moreover have "addrHash ob = w_K w (address ob)" using assms(6) by (auto simp: obj_abs_def obj_at_def)
  ultimately show ?thesis using core_set [OF assms(1), of addr ob "Live x"] assms(4-) by (simp add: obj_slot_def)
qed

subsection \<open>Objects and accounts\<close>

lemma obj_setError_sel [simp]:
  "address (obj_setError e ob) = address ob" "addrHash (obj_setError e ob) = addrHash ob"
  "data (obj_setError e ob) = data ob" "o_trie (obj_setError e ob) = o_trie ob" "o_code (obj_setError e ob) = o_code ob"
  "originStorage (obj_setError e ob) = originStorage ob" "pendingStorage (obj_setError e ob) = pendingStorage ob"
  "dirtyStorage (obj_setError e ob) = dirtyStorage ob" "fakeStorage (obj_setError e ob) = fakeStorage ob"
  "suicided (obj_setError e ob) = suicided ob" "deleted (obj_setError e ob) = deleted ob"
  by (simp_all add: obj_setError_def)

lemma bytes_of_Some [simp]: "bytes_of (Some b) = b"
  by (simp add: bytes_of_def)

lemma obj_Code_abs:
  assumes "obj_abs w ds ob x"
  shows "\<exists>ob'. obj_Code (w_K w) (w_db w) ob = (a_code x, ob') \<and> obj_abs w ds ob' x \<and>
    address ob' = address ob \<and> deleted ob' = deleted ob \<and> data ob' = data ob"
proof -
  from assms obtain m where m: "obj_at w ds m ob x" by (auto simp: obj_abs_def)
  then have c: "code_of w (o_code ob) (a_codehash x) = a_code x" "CodeHash (data ob) = Some (a_codehash x)"
    by (auto simp: obj_at_def)
  show ?thesis
  proof (cases "o_code ob")
    case None
    with c have "obj_at w ds m (ob\<lparr>o_code := a_code x\<rparr>) x" "obj_at w ds m (obj_setError e ob\<lparr>o_code := None\<rparr>) x" for e
      using m by (auto simp: obj_at_def code_of_def split: option.splits if_splits)
    with None c m show ?thesis
      by (cases "a_codehash x = w_K w []"; cases "a_code x")
        (auto simp: obj_Code_def code_of_def emptyCodeHash_def Let_def obj_abs_def)
  next
    case (Some code)
    then have "a_code x = Some code" using c by (simp add: code_of_def)
    with Some assms show ?thesis by (simp add: obj_Code_def)
  qed
qed

lemma obj_CodeSize_abs:
  assumes "obj_abs w ds ob x"
  shows "\<exists>ob'. obj_CodeSize (w_K w) (w_db w) ob = (length (bytes_of (a_code x)), ob') \<and> obj_abs w ds ob' x \<and>
    address ob' = address ob \<and> deleted ob' = deleted ob"
proof -
  from assms obtain m where m: "obj_at w ds m ob x" by (auto simp: obj_abs_def)
  then have "obj_at w ds m (obj_setError e ob) x" for e by (simp add: obj_at_def)
  moreover have c: "code_of w (o_code ob) (a_codehash x) = a_code x" "CodeHash (data ob) = Some (a_codehash x)"
    using m by (auto simp: obj_at_def)
  ultimately show ?thesis
    using m unfolding obj_abs_def c(1) [symmetric]
    by (cases "o_code ob"; cases "ContractCode (w_db w) (BytesToHash (a_codehash x))")
      (auto simp: obj_CodeSize_def code_of_def emptyCodeHash_def bytes_of_def c(2) Let_def)
qed

lemma read_slot_value:
  "\<exists>e. read_slot key enc ob =
     (slot_value enc, ob\<lparr>o_dbErr := e, originStorage := (originStorage ob)(key \<mapsto> slot_value enc)\<rparr>)"
  by (cases ob) (auto simp: read_slot_def slot_value_def obj_setError_def Let_def split: sum.splits prod.splits)

lemma obj_at_cache:
  assumes x: "obj_at w ds m ob x" and n: "originStorage ob key = None"
    and v: "disk w ds (addrHash ob) m key = v" and t: "trie_at w t (Root (data ob)) m"
  shows "obj_abs w ds (ob\<lparr>o_trie := t, o_dbErr := e, originStorage := (originStorage ob)(key \<mapsto> v)\<rparr>) x"
proof -
  have "overlay ((originStorage ob)(key \<mapsto> v)) (disk w ds (addrHash ob) m) = overlay (originStorage ob) (disk w ds (addrHash ob) m)"
    using n v by (auto simp: overlay_def fun_eq_iff)
  with x t show ?thesis by (auto simp: obj_abs_def obj_at_def)
qed

lemma trie_at_getTrie:
  assumes "trie_at w (o_trie ob) (Root (data ob)) m"
  shows "\<exists>t. getTrie (w_db w) ob = (Some t, ob\<lparr>o_trie := Some t\<rparr>) \<and> rep w t m"
  using assms by (cases ob) (auto simp: trie_at_def getTrie_def split: option.splits)

lemma obj_GetCommittedState_abs:
  assumes "obj_abs w ds ob x" and s: "s_db s = w_db w" "snap s = w_snap w" "snapDestructs s = ds"
  shows "\<exists>ob'. obj_GetCommittedState (w_K w) s key ob = Some (a_committed x key, ob') \<and> obj_abs w ds ob' x \<and>
    address ob' = address ob \<and> deleted ob' = deleted ob"
proof -
  from assms(1) obtain m where x: "obj_at w ds m ob x" by (auto simp: obj_abs_def)
  let ?f = "disk w ds (addrHash ob) m"
  from x have fake: "fakeStorage ob = None" and m: "trie_at w (o_trie ob) (Root (data ob)) m"
    "a_committed x = overlay (pendingStorage ob) (overlay (originStorage ob) ?f)" by (auto simp: obj_at_def)
  show ?thesis
  proof (cases "pendingStorage ob key = None \<and> originStorage ob key = None")
    case False
    with fake m(2) assms(1) show ?thesis
      by (cases "pendingStorage ob key"; cases "originStorage ob key") (auto simp: obj_GetCommittedState_def overlay_def)
  next
    case True
    then have n: "pendingStorage ob key = None" "originStorage ob key = None" by auto
    then have v: "a_committed x key = ?f key" by (simp add: m overlay_def)
    let ?sto = "case w_snap w of None \<Rightarrow> Inl () | Some sn \<Rightarrow> sn_Storage sn (addrHash ob) (w_K w key)"
    show ?thesis
    proof (cases "w_snap w \<noteq> None \<and> addrHash ob \<in> ds")
      case True
      with n fake assms v s show ?thesis by (auto simp: obj_GetCommittedState_def disk_def)
    next
      case False
      show ?thesis
      proof (cases ?sto)
        case (Inr enc)
        with False have d: "?f key = slot_value enc" by (auto simp: disk_def)
        obtain e where e: "read_slot key enc ob =
            (slot_value enc, ob\<lparr>o_dbErr := e, originStorage := (originStorage ob)(key \<mapsto> slot_value enc)\<rparr>)"
          using read_slot_value by blast
        have "obj_GetCommittedState (w_K w) s key ob = Some (read_slot key enc ob)"
          using n fake s False Inr by (auto simp: obj_GetCommittedState_def)
        with obj_at_cache [OF x n(2) d m(1), of e] v d e show ?thesis by simp
      next
        case (Inl u)
        from trie_at_getTrie [OF m(1)] obtain t where
          t: "getTrie (w_db w) ob = (Some t, ob\<lparr>o_trie := Some t\<rparr>)" "rep w t m" by blast
        from rep_get [OF t(2), of key] obtain t' where
          t': "Secure_TryGet (w_K w) (view (w_db w)) key t = Some (Inr (m (w_K w key)), t')" "rep w t' m" by blast
        let ?enc = "bytes_of (m (w_K w key))"
        obtain e where e: "read_slot key ?enc (ob\<lparr>o_trie := Some t'\<rparr>) =
            (slot_value ?enc, ob\<lparr>o_trie := Some t', o_dbErr := e, originStorage := (originStorage ob)(key \<mapsto> slot_value ?enc)\<rparr>)"
          using read_slot_value [of key ?enc "ob\<lparr>o_trie := Some t'\<rparr>"] by auto
        have d: "?f key = slot_value ?enc" using False Inl by (auto simp: disk_def)
        have "obj_GetCommittedState (w_K w) s key ob = Some (read_slot key ?enc (ob\<lparr>o_trie := Some t'\<rparr>))"
          using n fake s False Inl t(1) t'(1) by (auto simp: obj_GetCommittedState_def Let_def)
        with obj_at_cache [OF x n(2) d, of "Some t'" e] t'(2) v d e show ?thesis by (simp add: trie_at_def)
      qed
    qed
  qed
qed

lemma obj_GetState_abs:
  assumes x: "obj_abs w ds ob x" and s: "s_db s = w_db w" "snap s = w_snap w" "snapDestructs s = ds"
  shows "\<exists>ob'. obj_GetState (w_K w) s key ob = Some (a_store x key, ob') \<and> obj_abs w ds ob' x \<and>
    address ob' = address ob \<and> deleted ob' = deleted ob"
proof (cases "dirtyStorage ob key")
  case None
  with x have "a_store x key = a_committed x key" by (auto simp: obj_abs_def obj_at_def overlay_def)
  with obj_GetCommittedState_abs [OF assms, of key] None x show ?thesis
    by (auto simp: obj_GetState_def obj_abs_def obj_at_def)
next
  case (Some v)
  with x show ?thesis by (auto simp: obj_GetState_def obj_abs_def obj_at_def overlay_def)
qed

lemma obj_empty_abs: "obj_abs w ds ob x \<Longrightarrow> obj_empty (w_K w) ob = is_empty (w_K w) x"
  by (auto simp: obj_empty_def is_empty_def obj_abs_def obj_at_def emptyCodeHash_def)

lemma obj_abs_setBalance: "obj_abs w ds ob x \<Longrightarrow> obj_abs w ds (setBalance b ob) (x\<lparr>a_balance := b\<rparr>)"
  by (auto simp: obj_abs_def obj_at_def setBalance_def)

lemma obj_abs_setNonce: "obj_abs w ds ob x \<Longrightarrow> obj_abs w ds (setNonce n ob) (x\<lparr>a_nonce := n\<rparr>)"
  by (auto simp: obj_abs_def obj_at_def setNonce_def)

lemma obj_abs_suicided: "obj_abs w ds ob x \<Longrightarrow> obj_abs w ds (ob\<lparr>suicided := k\<rparr>) (x\<lparr>a_suicided := k\<rparr>)"
  by (auto simp: obj_abs_def obj_at_def)

lemma obj_abs_setState:
  "obj_abs w ds ob x \<Longrightarrow> obj_abs w ds (setState key v ob) (x\<lparr>a_store := (a_store x)(key := v)\<rparr>)"
  by (auto simp: obj_abs_def obj_at_def setState_def overlay_put)

lemma obj_abs_setCode:
  assumes "obj_abs w ds ob x" and "length h = 32" and "code = None \<Longrightarrow> h = w_K w [] \<or> ContractCode (w_db w) h = None"
  shows "obj_abs w ds (setCode h code ob) (x\<lparr>a_code := code, a_codehash := h\<rparr>)"
  using assms by (auto simp: obj_abs_def obj_at_def setCode_def code_of_def BytesToHash_32 split: option.splits)

end
