(* ===== verification/State_Journal.thy ===== *)
theory State_Journal
  imports State_Correct
begin

text \<open>
  The journal.  An entry undoes a step from one table of accounts to the next if reverting it leads
  from every state for the second to a state for the first.  Every operation that writes appends
  entries that undo it.
\<close>

subsection \<open>Entries that undo a step\<close>

definition undoes :: "world \<Rightarrow> journalEntry \<Rightarrow> astate \<Rightarrow> astate \<Rightarrow> bool" where
  "undoes w e b a \<longleftrightarrow>
     touched b = touched a \<union> set_option (dirtied e) \<and>
     (\<forall>s. core w s b \<longrightarrow> (\<exists>s'. revert_entry (w_K w) e s = Some s' \<and> core w s' a \<and> meta s' = meta s))"

lemma core_touched: "core w s a \<Longrightarrow> T \<subseteq> touched a \<Longrightarrow> core w s (a\<lparr>touched := T\<rparr>)"
  by (auto simp: core_def)

lemma set_account_sel [simp]:
  "destructs (set_account addr x a) = destructs a" "touched (set_account addr x a) = touched a"
  "accounts (set_account addr x a) = (accounts a)(addr := Live x)" "live (set_account addr x a) addr = Some x"
  by (simp_all add: set_account_def live_def)

lemma set_touched_sel [simp]:
  "destructs (set_touched addr a) = destructs a" "touched (set_touched addr a) = insert addr (touched a)"
  "accounts (set_touched addr a) = accounts a" "live (set_touched addr a) = live a"
  by (simp_all add: set_touched_def live_def fun_eq_iff)

lemma undoes_object:
  assumes addr: "addr_ok addr" and x: "live a addr = Some x" and e: "dirtied e = Some addr"
    and rev: "\<And>s ob s'. getStateObject (w_K w) addr s = Some (Some ob, s') \<Longrightarrow>
      revert_entry (w_K w) e s = Some (setStateObject (g ob) s')"
    and g: "\<And>ds ob. obj_abs w ds ob y \<Longrightarrow> obj_abs w ds (g ob) x"
      "\<And>ob. address (g ob) = address ob" "\<And>ob. deleted (g ob) = deleted ob"
  shows "undoes w e (set_touched addr (set_account addr y a)) a"
proof -
  let ?b = "set_touched addr (set_account addr y a)"
  have "\<exists>s'. revert_entry (w_K w) e s = Some s' \<and> core w s' a \<and> meta s' = meta s" if s: "core w s ?b" for s
  proof -
    from getStateObject_core [OF s addr] obtain ob s' where
      s': "getStateObject (w_K w) addr s = Some (Some ob, s')" "core w s' ?b" "meta s' = meta s"
      "address ob = addr" "\<not> deleted ob" "obj_abs w (destructs a) ob y" by auto
    have "obj_abs w (destructs a) (g ob) x" using g(1) s'(6) by blast
    then have "obj_slot w (destructs ?b) addr (Some (g ob)) (Live x)"
      using s'(4,5) g(2,3) by (auto simp: obj_slot_def obj_abs_def obj_at_def)
    from core_set [OF s'(2) this]
    have "core w (setStateObject (g ob) s') (?b\<lparr>accounts := (accounts ?b)(addr := Live x)\<rparr>)" .
    then have "core w (setStateObject (g ob) s') ((?b\<lparr>accounts := (accounts ?b)(addr := Live x)\<rparr>)\<lparr>touched := touched a\<rparr>)"
      by (rule core_touched) auto
    moreover have "(?b\<lparr>accounts := (accounts ?b)(addr := Live x)\<rparr>)\<lparr>touched := touched a\<rparr> = a"
      using x by (simp add: set_touched_def set_account_def live_def fun_upd_idem split: slot.splits)
    ultimately show ?thesis using rev [OF s'(1)] s'(3) by auto
  qed
  with e show ?thesis by (auto simp: undoes_def)
qed

lemma set_sel [simp]:
  "address (setBalance b ob) = address ob" "deleted (setBalance b ob) = deleted ob"
  "address (setNonce n ob) = address ob" "deleted (setNonce n ob) = deleted ob"
  "address (setState k v ob) = address ob" "deleted (setState k v ob) = deleted ob"
  "address (setCode h c ob) = address ob" "deleted (setCode h c ob) = deleted ob"
  by (simp_all add: setBalance_def setNonce_def setState_def setCode_def)

lemma undoes_balance:
  assumes "addr_ok addr" and "live a addr = Some x"
  shows "undoes w (balanceChange addr (a_balance x)) (set_touched addr (set_account addr (x\<lparr>a_balance := b\<rparr>) a)) a"
  using assms obj_abs_setBalance [of w _ _ "x\<lparr>a_balance := b\<rparr>" "a_balance x"]
  by (intro undoes_object [where g = "setBalance (a_balance x)"]) (simp_all add: on_object_def)

lemma undoes_nonce:
  assumes "addr_ok addr" and "live a addr = Some x"
  shows "undoes w (nonceChange addr (a_nonce x)) (set_touched addr (set_account addr (x\<lparr>a_nonce := n\<rparr>) a)) a"
  using assms obj_abs_setNonce [of w _ _ "x\<lparr>a_nonce := n\<rparr>" "a_nonce x"]
  by (intro undoes_object [where g = "setNonce (a_nonce x)"]) (simp_all add: on_object_def)

lemma undoes_storage:
  assumes "addr_ok addr" and "live a addr = Some x"
  shows "undoes w (storageChange addr k (a_store x k))
    (set_touched addr (set_account addr (x\<lparr>a_store := (a_store x)(k := v)\<rparr>) a)) a"
  using assms obj_abs_setState [of w _ _ "x\<lparr>a_store := (a_store x)(k := v)\<rparr>" k "a_store x k"]
  by (intro undoes_object [where g = "setState k (a_store x k)"]) (simp_all add: on_object_def)

lemma undoes_code:
  assumes "addr_ok addr" and "live a addr = Some x" and "length (a_codehash x) = 32"
    and "a_code x = None \<Longrightarrow> a_codehash x = w_K w [] \<or> ContractCode (w_db w) (a_codehash x) = None"
  shows "undoes w (codeChange addr (a_code x) (Some (a_codehash x)))
    (set_touched addr (set_account addr (x\<lparr>a_code := c, a_codehash := h\<rparr>) a)) a"
  using assms obj_abs_setCode [of w _ _ "x\<lparr>a_code := c, a_codehash := h\<rparr>" "a_codehash x" "a_code x"]
  by (intro undoes_object [where g = "setCode (a_codehash x) (a_code x)"]) (simp_all add: on_object_def BytesToHash_32)

lemma undoes_suicide:
  assumes "addr_ok addr" and "live a addr = Some x"
  shows "undoes w (suicideChange addr (a_suicided x) (a_balance x))
    (set_touched addr (set_account addr (x\<lparr>a_suicided := p, a_balance := b\<rparr>) a)) a"
proof (rule undoes_object [where g = "\<lambda>ob. setBalance (a_balance x) (ob\<lparr>suicided := a_suicided x\<rparr>)", OF assms])
  fix ds ob
  assume "obj_abs w ds ob (x\<lparr>a_suicided := p, a_balance := b\<rparr>)"
  from obj_abs_setBalance [OF obj_abs_suicided [OF this, of "a_suicided x"], of "a_balance x"]
  show "obj_abs w ds (setBalance (a_balance x) (ob\<lparr>suicided := a_suicided x\<rparr>)) x" by simp
qed (simp_all add: on_object_def)

lemma undoes_touch: "undoes w (touchChange addr) (set_touched addr a) a"
proof -
  have "(set_touched addr a)\<lparr>touched := touched a\<rparr> = a" by (simp add: set_touched_def)
  then have "core w s a" if "core w s (set_touched addr a)" for s
    using core_touched [OF that, of "touched a"] by auto
  then show ?thesis by (auto simp: undoes_def)
qed

lemma undoes_simple:
  assumes "dirtied e = None" and "touched b = touched a"
    and "\<And>s. core w s b \<Longrightarrow> \<exists>s'. revert_entry (w_K w) e s = Some s' \<and> core w s' a \<and> meta s' = meta s"
  shows "undoes w e b a"
  using assms by (simp add: undoes_def)

lemma core_refund: "core w s a \<Longrightarrow> core w (s\<lparr>refund := r\<rparr>) (a\<lparr>a_refund := r\<rparr>)"
  by (simp add: core_def over_def cur_def GetLogs_def)

lemma undoes_refund: "undoes w (refundChange (a_refund a)) (a\<lparr>a_refund := r\<rparr>) a"
proof (rule undoes_simple)
  fix s
  assume "core w s (a\<lparr>a_refund := r\<rparr>)"
  from core_refund [OF this, of "a_refund a"] show "\<exists>s'. revert_entry (w_K w) (refundChange (a_refund a)) s = Some s' \<and> core w s' a \<and> meta s' = meta s"
    by (simp add: meta_def)
qed simp_all

lemma core_preimages: "core w s a \<Longrightarrow> core w (s\<lparr>s_preimages := p\<rparr>) (a\<lparr>a_preimages := p\<rparr>)"
  by (simp add: core_def over_def cur_def GetLogs_def)

lemma undoes_preimage:
  assumes "a_preimages a h = None"
  shows "undoes w (addPreimageChange h) (a\<lparr>a_preimages := (a_preimages a)(h \<mapsto> p)\<rparr>) a"
proof (rule undoes_simple)
  fix s
  assume s: "core w s (a\<lparr>a_preimages := (a_preimages a)(h \<mapsto> p)\<rparr>)"
  then have "(s_preimages s)(h := None) = a_preimages a" using assms by (auto simp: core_def)
  with core_preimages [OF s, of "a_preimages a"]
  show "\<exists>s'. revert_entry (w_K w) (addPreimageChange h) s = Some s' \<and> core w s' a \<and> meta s' = meta s"
    by (simp add: meta_def)
qed simp_all

lemma core_logs:
  "core w s a \<Longrightarrow> \<forall>h. (case l h of None \<Rightarrow> [] | Some ls \<Rightarrow> ls) = l' h \<Longrightarrow>
    core w (s\<lparr>logs := l, logSize := n\<rparr>) (a\<lparr>a_logs := l', a_logSize := n\<rparr>)"
  by (simp add: core_def over_def cur_def GetLogs_def)

lemma undoes_log:
  "undoes w (addLogChange h) (a\<lparr>a_logs := (a_logs a)(h := a_logs a h @ [lg]), a_logSize := a_logSize a + 1\<rparr>) a"
proof (rule undoes_simple)
  fix s
  let ?b = "a\<lparr>a_logs := (a_logs a)(h := a_logs a h @ [lg]), a_logSize := a_logSize a + 1\<rparr>"
  assume s: "core w s ?b"
  then have l: "GetLogs h s = a_logs a h @ [lg]" "\<And>k. k \<noteq> h \<Longrightarrow> GetLogs k s = a_logs a k" "logSize s - 1 = a_logSize a"
    by (auto simp: core_def)
  have "core w (s\<lparr>logs := m, logSize := logSize s - 1\<rparr>) a"
    if "\<forall>k. (case m k of None \<Rightarrow> [] | Some ls \<Rightarrow> ls) = a_logs a k" for m
    using core_logs [OF s that, of "logSize s - 1"] l(3) by simp
  moreover have "(case ((logs s)(h := None)) k of None \<Rightarrow> [] | Some ls \<Rightarrow> ls) = a_logs a k"
    if "a_logs a h = []" for k
    using that l(2) [of k] by (auto simp: GetLogs_def)
  moreover have "(case ((logs s)(h \<mapsto> a_logs a h)) k of None \<Rightarrow> [] | Some ls \<Rightarrow> ls) = a_logs a k" for k
    using l(2) [of k] by (auto simp: GetLogs_def)
  ultimately show "\<exists>s'. revert_entry (w_K w) (addLogChange h) s = Some s' \<and> core w s' a \<and> meta s' = meta s"
    using l(1) by (auto simp: Let_def meta_def)
qed simp_all

subsection \<open>Creating accounts\<close>

lemma obj_slot_ds:
  assumes "w_K w addr \<in> ds \<longleftrightarrow> w_K w addr \<in> ds'"
  shows "obj_slot w ds addr so sl \<longleftrightarrow> obj_slot w ds' addr so sl"
proof -
  have "disk w ds (w_K w addr) = disk w ds' (w_K w addr)" using assms by (simp add: fun_eq_iff disk_def)
  then have "obj_abs w ds ob x \<longleftrightarrow> obj_abs w ds' ob x" if "addrHash ob = w_K w addr" for ob x
    using that by (simp add: obj_abs_def obj_at_def)
  with assms show ?thesis by (auto simp: obj_slot_def split: option.splits)
qed

text \<open>Replacing one object, with its mark among the destructed accounts.\<close>

definition same_rest :: "StateDB \<Rightarrow> StateDB \<Rightarrow> bool" where
  "same_rest s' s \<longleftrightarrow> refund s' = refund s \<and> logSize s' = logSize s \<and> s_preimages s' = s_preimages s \<and>
     logs s' = logs s \<and> s_db s' = s_db s \<and> snap s' = snap s \<and> s_trie s' = s_trie s"

lemma core_replace:
  assumes s: "core w s a" and ds: "\<And>addr. addr_ok addr \<Longrightarrow> addr \<noteq> c \<Longrightarrow> w_K w addr \<in> ds \<longleftrightarrow> w_K w addr \<in> destructs a"
    and sl: "obj_slot w ds c (cur w s' c) sl"
    and s': "same_rest s' s" "snapDestructs s' = ds" "\<And>addr. addr \<noteq> c \<Longrightarrow> stateObjects s' addr = stateObjects s addr"
    and T: "\<forall>addr \<in> T. addr = c \<and> stateObjects s' c \<noteq> None \<or> addr \<noteq> c \<and> addr \<in> touched a"
  shows "core w s' (a\<lparr>destructs := ds, accounts := (accounts a)(c := sl), touched := T\<rparr>)"
proof -
  have "obj_slot w ds addr (cur w s' addr) (accounts a addr)" if "addr_ok addr" "addr \<noteq> c" for addr
    using core_slot [OF s that(1)] ds [OF that] s'(3) [OF that(2)] obj_slot_ds [of w addr ds "destructs a"]
    by (simp add: cur_def)
  moreover have "over w s'" using s s'(1) by (simp add: core_def over_def same_rest_def)
  moreover have "stateObjects s' addr \<noteq> None" if "addr \<in> T" for addr
    using T that s s'(3) [of addr] by (cases "addr = c") (auto simp: core_def)
  ultimately show ?thesis
    using s s'(1,2) sl by (auto simp: core_def same_rest_def GetLogs_def)
qed

lemma undoes_create:
  assumes "found w addr = None" and "addr \<notin> touched a" and "accounts a addr = Absent"
  shows "undoes w (createObjectChange addr) (set_account addr y (set_touched addr a)) a"
proof -
  let ?b = "set_account addr y (set_touched addr a)"
  have "\<exists>s'. revert_entry (w_K w) (createObjectChange addr) s = Some s' \<and> core w s' a \<and> meta s' = meta s"
    if s: "core w s ?b" for s
  proof -
    let ?s = "s\<lparr>stateObjects := (stateObjects s)(addr := None), stateObjectsDirty := stateObjectsDirty s - {addr}\<rparr>"
    have "core w ?s (?b\<lparr>destructs := destructs a, accounts := (accounts ?b)(addr := Absent), touched := touched a\<rparr>)"
      using s assms
      by (intro core_replace [OF s]) (auto simp: obj_slot_def cur_def same_rest_def core_def)
    moreover have "?b\<lparr>destructs := destructs a, accounts := (accounts ?b)(addr := Absent), touched := touched a\<rparr> = a"
      using assms(3) by (simp add: set_account_def set_touched_def fun_upd_idem)
    ultimately show ?thesis by (simp add: meta_def)
  qed
  then show ?thesis by (auto simp: undoes_def)
qed

lemma undoes_reset:
  assumes K: "inj_on (w_K w) {addr. addr_ok addr}" and addr: "addr_ok addr"
    and p: "obj_slot w (destructs a) addr (Some p) (accounts a addr)"
    and pd: "pd \<longleftrightarrow> w_snap w \<noteq> None \<and> w_K w addr \<in> destructs a"
    and ds: "ds = (if w_snap w \<noteq> None then insert (w_K w addr) (destructs a) else destructs a)"
  shows "undoes w (resetObjectChange p pd) (set_account addr y (a\<lparr>destructs := ds\<rparr>)) a"
proof (rule undoes_simple)
  fix s
  let ?b = "set_account addr y (a\<lparr>destructs := ds\<rparr>)"
  assume s: "core w s ?b"
  have h: "address p = addr" "addrHash p = w_K w addr" using p by (auto simp: obj_slot_def)
  have sn: "snap s = w_snap w" "snapDestructs s = ds" using s by (auto simp: core_def over_def)
  let ?s = "if \<not> pd \<and> w_snap w \<noteq> None then setStateObject p s\<lparr>snapDestructs := ds - {w_K w addr}\<rparr> else setStateObject p s"
  have "w_K w a' \<noteq> w_K w addr" if "addr_ok a'" "a' \<noteq> addr" for a'
    using inj_onD [OF K, of a' addr] that addr by auto
  then have "core w ?s (?b\<lparr>destructs := destructs a, accounts := (accounts ?b)(addr := accounts a addr), touched := touched a\<rparr>)"
    using sn h p ds pd s
    by (intro core_replace [OF s]) (auto simp: cur_def same_rest_def core_def split: if_splits)
  moreover have "?b\<lparr>destructs := destructs a, accounts := (accounts ?b)(addr := accounts a addr), touched := touched a\<rparr> = a"
    by (simp add: set_account_def)
  ultimately show "\<exists>s'. revert_entry (w_K w) (resetObjectChange p pd) s = Some s' \<and> core w s' a \<and> meta s' = meta s"
    using sn h by (auto simp: Let_def meta_def setStateObject_def)
qed simp_all

lemma New_emptyRoot: "\<exists>t. NewSecure (view (w_db w)) emptyRoot = Inr t \<and> rep w t Map.empty"
  using holds_New by (auto simp: NewSecure_def New_def rep_def secure_holds_def)

lemma new_object_abs:
  assumes "digest32 (w_K w)" and "\<And>key. disk w ds (w_K w addr) Map.empty key = zeroHash"
  shows "obj_abs w ds (setNonce 0 (newObject (w_K w) addr emptyAccount)) (fresh (w_K w))"
proof -
  have "obj_at w ds Map.empty (setNonce 0 (newObject (w_K w) addr emptyAccount)) (fresh (w_K w))"
    using assms New_emptyRoot [of w] digest32D [OF assms(1), of "[]"]
    by (auto simp: obj_at_def setNonce_def newObject_def emptyAccount_def fresh_def Let_def emptyCodeHash_def
        code_of_def trie_at_def fun_eq_iff)
  then show ?thesis by (auto simp: obj_abs_def)
qed

lemma disk_new:
  assumes "world_ok w" and "addr_ok addr" and "w_snap w \<noteq> None \<Longrightarrow> w_K w addr \<in> ds \<or> found w addr = None"
  shows "disk w ds (w_K w addr) Map.empty key = zeroHash"
proof (cases "w_snap w \<noteq> None \<and> w_K w addr \<in> ds")
  case True
  then show ?thesis by (simp add: disk_def)
next
  case False
  have z: "slot_value [] = zeroHash" by (simp add: slot_value_def)
  show ?thesis
  proof (cases "w_snap w")
    case None
    then show ?thesis by (simp add: disk_def bytes_of_def z)
  next
    case (Some sn)
    with False assms(3) have "found w addr = None" by auto
    with assms(1,2) Some have "case sn_Storage sn (w_K w addr) (w_K w key) of Inl _ \<Rightarrow> True | Inr enc \<Rightarrow> slot_value enc = zeroHash"
      by (fastforce simp: world_ok_def)
    with Some False show ?thesis by (auto simp: disk_def bytes_of_def z split: sum.splits)
  qed
qed

definition has_snap :: "world \<Rightarrow> bool" where
  "has_snap w \<longleftrightarrow> w_snap w \<noteq> None"

lemma meta_append: "meta s = meta s' \<Longrightarrow> meta (append_entry e s) = meta (append_entry e s')"
  by (simp add: meta_def append_entry_def)

lemma meta_snapDestructs [simp]: "meta (s\<lparr>snapDestructs := ds\<rparr>) = meta s"
  by (simp add: meta_def)

lemma createObject_core:
  assumes w: "world_ok w" and s: "core w s a" and addr: "addr_ok addr"
  shows "\<exists>newobj prev s' e. createObject (w_K w) addr s = Some ((newobj, prev), s') \<and>
    core w s' (create (w_K w) (has_snap w) addr a) \<and> meta s' = meta (append_entry e s) \<and>
    (\<forall>y. undoes w e (set_account addr y (create (w_K w) (has_snap w) addr a)) a) \<and>
    address newobj = addr \<and> \<not> deleted newobj \<and>
    obj_abs w (destructs (create (w_K w) (has_snap w) addr a)) newobj (fresh (w_K w)) \<and>
    (case live a addr of None \<Rightarrow> prev = None | Some x \<Rightarrow> \<exists>p. prev = Some p \<and> Balance (data p) = a_balance x)"
proof -
  let ?n = "setNonce 0 (newObject (w_K w) addr emptyAccount)"
  let ?b = "create (w_K w) (has_snap w) addr a"
  have K: "digest32 (w_K w)" "inj_on (w_K w) {addr. addr_ok addr}" using w by (auto simp: world_ok_def)
  have n: "address ?n = addr" "addrHash ?n = w_K w addr" "\<not> deleted ?n"
    by (simp_all add: setNonce_def newObject_def Let_def)
  from load_core [OF s, of addr] obtain s1 where
    s1: "getDeletedStateObject (w_K w) addr s = Some (cur w s addr, s1)" "core w s1 a" "meta s1 = meta s"
    "cur w s1 addr = cur w s addr" by blast
  have sn: "snap s1 = w_snap w" "snapDestructs s1 = destructs a" using s1(2) by (auto simp: core_def over_def)
  note slot = core_slot [OF s addr]
  have ne: "w_K w a' \<noteq> w_K w addr" if "addr_ok a'" "a' \<noteq> addr" for a'
    using inj_onD [OF K(2), of a' addr] that addr by auto
  show ?thesis
  proof (cases "cur w s addr")
    case None
    then have acc: "accounts a addr = Absent" "found w addr = None" using slot by (auto simp: obj_slot_def cur_def split: option.splits)
    have t: "addr \<notin> touched a" using s None by (auto simp: core_def cur_def)
    let ?e = "createObjectChange addr"
    let ?s = "setStateObject ?n (append_entry ?e s1)"
    have abs: "obj_abs w (destructs a) ?n (fresh (w_K w))"
      by (rule new_object_abs [OF K(1) disk_new [OF w addr]]) (simp add: acc)
    have b: "?b = a\<lparr>destructs := destructs a, accounts := (accounts a)(addr := Live (fresh (w_K w))), touched := insert addr (touched a)\<rparr>"
      using acc by (simp add: create_def set_account_def set_touched_def)
    have "core w ?s ?b"
      unfolding b using n abs sn s1(2)
      by (intro core_replace [OF s1(2)]) (auto simp: cur_def same_rest_def obj_slot_def append_entry_def)
    moreover have "createObject (w_K w) addr s = Some ((?n, None), ?s)"
      using s1(1) None by (simp add: createObject_def Let_def)
    moreover have "undoes w ?e (set_account addr y ?b) a" for y
      using undoes_create [OF acc(2) t acc(1), of y] acc by (simp add: create_def set_account_def)
    moreover have "meta ?s = meta (append_entry ?e s)" using meta_append [OF s1(3), of ?e] by simp
    moreover have "destructs ?b = destructs a" "live a addr = None" using acc by (simp_all add: b live_def)
    ultimately show ?thesis
      using n abs by (intro exI [of _ ?n] exI [of _ None] exI [of _ ?s] exI [of _ ?e]) simp
  next
    case (Some p)
    then have acc: "accounts a addr \<noteq> Absent" and h: "address p = addr" "addrHash p = w_K w addr"
      using slot by (auto simp: obj_slot_def split: if_splits)
    have same: "s1\<lparr>snapDestructs := destructs a\<rparr> = s1" by (simp flip: sn(2))
    let ?pd = "w_snap w \<noteq> None \<and> w_K w addr \<in> destructs a"
    let ?ds = "if w_snap w \<noteq> None then insert (w_K w addr) (destructs a) else destructs a"
    let ?e = "resetObjectChange p ?pd"
    let ?s = "setStateObject ?n (append_entry ?e (s1\<lparr>snapDestructs := ?ds\<rparr>))"
    have abs: "obj_abs w ?ds ?n (fresh (w_K w))"
      by (rule new_object_abs [OF K(1) disk_new [OF w addr]]) auto
    have b: "?b = a\<lparr>destructs := ?ds, accounts := (accounts a)(addr := Live (fresh (w_K w))), touched := touched a\<rparr>"
      using acc by (simp add: create_def set_account_def has_snap_def)
    have "stateObjects ?s a' \<noteq> None" if "a' \<in> touched a" for a'
      using that s1(2) by (auto simp: core_def)
    then have "core w ?s ?b"
      unfolding b using n abs sn s1(2) ne
      by (intro core_replace [OF s1(2)]) (auto simp: cur_def same_rest_def obj_slot_def append_entry_def)
    moreover have "createObject (w_K w) addr s = Some ((?n, if deleted p then None else Some p), ?s)"
      using s1(1) Some sn h by (auto simp: createObject_def Let_def same)
    moreover have "undoes w ?e (set_account addr y ?b) a" for y
    proof -
      have eq: "set_account addr y (a\<lparr>destructs := ?ds\<rparr>) = set_account addr y ?b"
        unfolding b by (simp add: set_account_def)
      show ?thesis using undoes_reset [OF K(2) addr slot [unfolded Some] refl refl, of y] unfolding eq .
    qed
    moreover have "meta ?s = meta (append_entry ?e s)"
      unfolding meta_set by (rule meta_append) (simp add: s1(3))
    moreover have "case live a addr of None \<Rightarrow> deleted p | Some x \<Rightarrow> \<not> deleted p \<and> Balance (data p) = a_balance x"
      using slot Some by (auto simp: obj_slot_def live_def obj_abs_def obj_at_def split: if_splits slot.splits)
    moreover have "destructs ?b = ?ds" by (simp add: b)
    ultimately show ?thesis
      using n abs by (intro exI [of _ ?n] exI [of _ "if deleted p then None else Some p"] exI [of _ ?s] exI [of _ ?e] conjI)
        (simp_all split: option.splits)
  qed
qed

subsection \<open>Runs of entries\<close>

text \<open>\<open>jd_ok\<close>: the dirty counters count the entries of the journal, except that the address of the
  RIPEMD precompile may have been counted more often.\<close>

definition counts :: "(bytes \<rightharpoonup> int) \<Rightarrow> journalEntry list \<Rightarrow> bool" where
  "counts d es \<longleftrightarrow> (\<exists>n. \<forall>a. d a \<noteq> Some 0 \<and>
     count_of d a = int (length (filter (\<lambda>e. dirtied e = Some a) es)) + (if a = ripemd then int n else 0))"

definition jd_ok :: "journal \<Rightarrow> bool" where
  "jd_ok j \<longleftrightarrow> counts (jdirties j) (entries j)"

lemma jd_ok_new: "jd_ok newJournal"
  unfolding jd_ok_def counts_def by (rule exI [of _ 0]) (simp add: newJournal_def count_of_def)

lemma jd_ok_append:
  assumes "jd_ok j"
  shows "jd_ok (journal_append e j)"
proof -
  from assms obtain n where n: "\<And>a. jdirties j a \<noteq> Some 0"
    "\<And>a. count_of (jdirties j) a = int (length (filter (\<lambda>e. dirtied e = Some a) (entries j))) + (if a = ripemd then int n else 0)"
    by (auto simp: jd_ok_def counts_def)
  show ?thesis
  proof (cases "dirtied e")
    case None
    with n show ?thesis by (auto simp: jd_ok_def counts_def journal_append_def Let_def)
  next
    case (Some c)
    have "count_of (jdirties j) c + 1 \<noteq> 0" using n(2) [of c] by simp
    with n Some show ?thesis
      unfolding jd_ok_def counts_def by (intro exI [of _ n]) (auto simp: journal_append_def Let_def count_of_def)
  qed
qed

lemma jd_ok_ripemd:
  assumes "jd_ok j"
  shows "jd_ok (journal_dirty ripemd j)"
proof -
  from assms obtain n where n: "\<And>a. jdirties j a \<noteq> Some 0"
    "\<And>a. count_of (jdirties j) a = int (length (filter (\<lambda>e. dirtied e = Some a) (entries j))) + (if a = ripemd then int n else 0)"
    by (auto simp: jd_ok_def counts_def)
  have "count_of (jdirties j) ripemd + 1 \<noteq> 0" using n(2) [of ripemd] by simp
  with n show ?thesis
    unfolding jd_ok_def counts_def by (intro exI [of _ "n + 1"]) (auto simp: journal_dirty_def count_of_def)
qed

fun chain :: "world \<Rightarrow> astate \<Rightarrow> journalEntry list \<Rightarrow> astate list \<Rightarrow> bool" where
  "chain w a [] bs \<longleftrightarrow> bs = []"
| "chain w a (e # es) bs \<longleftrightarrow> (\<exists>b cs. bs = b # cs \<and> undoes w e b a \<and> chain w b es cs)"

lemma chain_append:
  "chain w a es bs \<Longrightarrow> chain w (last (a # bs)) es' bs' \<Longrightarrow> chain w a (es @ es') (bs @ bs')"
proof (induction es arbitrary: a bs)
  case (Cons e es)
  from Cons.prems(1) obtain b cs where b: "bs = b # cs" "undoes w e b a" "chain w b es cs" by auto
  have "chain w b (es @ es') (cs @ bs')" using Cons.prems(2) b(1) by (intro Cons.IH [OF b(3)]) simp
  with b(1,2) show ?case by simp
qed simp

definition journals :: "world \<Rightarrow> StateDB \<Rightarrow> astate \<Rightarrow> StateDB \<Rightarrow> astate \<Rightarrow> bool" where
  "journals w s a s' b \<longleftrightarrow>
     core w s' b \<and> snd (meta s') = snd (meta s) \<and> (jd_ok (s_journal s) \<longrightarrow> jd_ok (s_journal s')) \<and>
     (\<exists>es bs. entries (s_journal s') = entries (s_journal s) @ es \<and> chain w a es bs \<and> last (a # bs) = b)"

lemma journals_read: "core w s' a \<Longrightarrow> meta s' = meta s \<Longrightarrow> journals w s a s' a"
  unfolding journals_def by (intro conjI exI [of _ "[]"]) (simp_all add: meta_def)

lemma journals_trans:
  assumes "journals w s a s1 b" and "journals w s1 b s2 c"
  shows "journals w s a s2 c"
proof -
  from assms(1) obtain es bs where 1: "entries (s_journal s1) = entries (s_journal s) @ es" "chain w a es bs"
    "last (a # bs) = b" by (auto simp: journals_def)
  from assms(2) obtain es' bs' where 2: "entries (s_journal s2) = entries (s_journal s1) @ es'" "chain w b es' bs'"
    "last (b # bs') = c" by (auto simp: journals_def)
  have "chain w a (es @ es') (bs @ bs')" using 1 2 by (intro chain_append) simp_all
  moreover have "last (a # bs @ bs') = c" using 1(3) 2(3) by (cases bs') auto
  moreover have "entries (s_journal s2) = entries (s_journal s) @ (es @ es')" using 1 2 by simp
  ultimately show ?thesis
    using assms unfolding journals_def by (intro conjI exI [of _ "es @ es'"] exI [of _ "bs @ bs'"]) simp_all
qed

lemma entries_append [simp]: "entries (journal_append e j) = entries j @ [e]"
  by (simp add: journal_append_def Let_def split: option.splits)

lemma journals_entry:
  assumes "undoes w e b a" and "core w s' b" and "meta s' = meta (append_entry e s)"
  shows "journals w s a s' b"
  using assms jd_ok_append [of "s_journal s" e]
  unfolding journals_def by (intro conjI exI [of _ "[e]"] exI [of _ "[b]"]) (simp_all add: meta_def append_entry_def)

lemma journals_read_trans: "core w s1 a \<Longrightarrow> meta s1 = meta s \<Longrightarrow> journals w s1 a s2 b \<Longrightarrow> journals w s a s2 b"
  using journals_trans [OF journals_read] .

end
