(* ===== verification/State_Refine.thy ===== *)
theory State_Refine
  imports State_Journal
begin

text \<open>
  Every operation of the state is the operation of the specification: it gives the same answer and
  leads to a state for the new table, with entries in the journal that undo it.
\<close>

subsection \<open>Operations that write\<close>

lemma create_same: "set_account addr (fresh K) (create K sn addr a) = create K sn addr a"
  by (simp add: create_def set_account_def)

lemma GetOrNew_writes:
  assumes w: "world_ok w" and s: "core w s a" and addr: "addr_ok addr"
    and b: "get_or_new (w_K w) (has_snap w) addr a = (x, b)"
  shows "\<exists>ob s'. GetOrNewStateObject (w_K w) addr s = Some (ob, s') \<and> journals w s a s' b \<and>
    address ob = addr \<and> \<not> deleted ob \<and> obj_abs w (destructs b) ob x \<and> live b addr = Some x"
proof -
  from getStateObject_core [OF s addr] obtain so s1 where
    s1: "getStateObject (w_K w) addr s = Some (so, s1)" "core w s1 a" "meta s1 = meta s"
    "case live a addr of None \<Rightarrow> so = None
     | Some x \<Rightarrow> \<exists>ob. so = Some ob \<and> address ob = addr \<and> \<not> deleted ob \<and> obj_abs w (destructs a) ob x" by blast
  show ?thesis
  proof (cases "live a addr")
    case (Some y)
    with b have "b = a" "x = y" by (auto simp: get_or_new_def)
    moreover obtain ob where ob: "so = Some ob" "address ob = addr" "\<not> deleted ob" "obj_abs w (destructs a) ob y"
      using s1(4) Some by auto
    moreover have "GetOrNewStateObject (w_K w) addr s = Some (ob, s1)" using s1(1) ob(1) by (simp add: GetOrNewStateObject_def)
    ultimately show ?thesis using journals_read [OF s1(2,3)] Some by (intro exI [of _ ob] exI [of _ s1] conjI) simp_all
  next
    case None
    with b have b': "b = create (w_K w) (has_snap w) addr a" "x = fresh (w_K w)" by (auto simp: get_or_new_def)
    from createObject_core [OF w s1(2) addr] obtain ob prev s' e where
      s': "createObject (w_K w) addr s1 = Some ((ob, prev), s')" "core w s' b" "meta s' = meta (append_entry e s1)"
      "undoes w e (set_account addr (fresh (w_K w)) b) a" "address ob = addr" "\<not> deleted ob"
      "obj_abs w (destructs b) ob x" unfolding b' by blast
    have "undoes w e b a" using s'(4) unfolding b' create_same .
    then have "journals w s1 a s' b" using s'(2,3) by (rule journals_entry)
    with journals_read [OF s1(2,3)] have "journals w s a s' b" by (rule journals_trans)
    moreover have "live b addr = Some x" unfolding b' by (simp add: create_def)
    moreover have "GetOrNewStateObject (w_K w) addr s = Some (ob, s')"
      using s1(1,4) None s'(1) by (simp add: GetOrNewStateObject_def)
    ultimately show ?thesis using s'(5-7) by (intro exI [of _ ob] exI [of _ s'] conjI)
  qed
qed

lemma core_change:
  assumes "core w s b" and "address ob = addr" and "\<not> deleted ob" and "obj_abs w (destructs b) ob y"
  shows "core w (setStateObject ob (append_entry e s)) (set_touched addr (set_account addr y b))"
proof -
  have h: "addrHash ob = w_K w addr" using assms(2,4) by (auto simp: obj_abs_def obj_at_def)
  have b: "set_touched addr (set_account addr y b) =
      b\<lparr>destructs := destructs b, accounts := (accounts b)(addr := Live y), touched := insert addr (touched b)\<rparr>"
    by (simp add: set_touched_def set_account_def)
  have "snapDestructs s = destructs b" using assms(1) by (simp add: core_def)
  then show ?thesis
    unfolding b using assms h
    by (intro core_replace [OF assms(1)]) (auto simp: cur_def same_rest_def obj_slot_def append_entry_def)
qed

lemma journals_change:
  assumes "core w s b" and "address ob = addr" and "\<not> deleted ob" and "obj_abs w (destructs b) ob y"
    and "undoes w e (set_touched addr (set_account addr y b)) b"
  shows "journals w s b (setStateObject ob (append_entry e s)) (set_touched addr (set_account addr y b))"
  using assms core_change [OF assms(1-4), of e] by (intro journals_entry [OF assms(5)]) simp_all

text \<open>A change of an account through its object: \<open>upd\<close> makes the new object and the entry.\<close>

lemma change_writes:
  assumes w: "world_ok w" and s: "core w s a" and addr: "addr_ok addr"
    and upd: "\<And>b x ob s1. core w s1 b \<Longrightarrow> live b addr = Some x \<Longrightarrow> address ob = addr \<Longrightarrow> \<not> deleted ob \<Longrightarrow>
      obj_abs w (destructs b) ob x \<Longrightarrow>
      \<exists>ob' e. upd ob s1 = Some (ob', append_entry e s1) \<and> address ob' = addr \<and> \<not> deleted ob' \<and>
        obj_abs w (destructs b) ob' (f x) \<and> undoes w e (set_touched addr (set_account addr (f x) b)) b"
  shows "\<exists>s'. do { (ob, s) \<leftarrow> GetOrNewStateObject (w_K w) addr s; (ob, s) \<leftarrow> upd ob s; Some (setStateObject ob s) } = Some s' \<and>
    journals w s a s' (change (w_K w) (has_snap w) addr f a)"
proof -
  obtain x b where b: "get_or_new (w_K w) (has_snap w) addr a = (x, b)" by fastforce
  from GetOrNew_writes [OF w s addr b] obtain ob s1 where
    s1: "GetOrNewStateObject (w_K w) addr s = Some (ob, s1)" "journals w s a s1 b" "address ob = addr" "\<not> deleted ob"
    "obj_abs w (destructs b) ob x" "live b addr = Some x" by blast
  have c: "core w s1 b" using s1(2) by (simp add: journals_def)
  from upd [OF c s1(6,3-5)] obtain ob' e where
    u: "upd ob s1 = Some (ob', append_entry e s1)" "address ob' = addr" "\<not> deleted ob'"
    "obj_abs w (destructs b) ob' (f x)" "undoes w e (set_touched addr (set_account addr (f x) b)) b" by blast
  have "journals w s a (setStateObject ob' (append_entry e s1)) (set_touched addr (set_account addr (f x) b))"
    by (rule journals_trans [OF s1(2) journals_change [OF c u(2-5)]])
  moreover have "change (w_K w) (has_snap w) addr f a = set_touched addr (set_account addr (f x) b)"
    by (simp add: change_def b)
  ultimately show ?thesis using s1(1) u(1) by simp
qed

lemma SetBalance_writes:
  assumes "world_ok w" and "core w s a" and "addr_ok addr"
  shows "\<exists>s'. do { (ob, s) \<leftarrow> GetOrNewStateObject (w_K w) addr s;
        (ob, s) \<leftarrow> Some (obj_SetBalance (g (Balance (data ob))) ob s); Some (setStateObject ob s) } = Some s' \<and>
    journals w s a s' (change (w_K w) (has_snap w) addr (\<lambda>x. x\<lparr>a_balance := g (a_balance x)\<rparr>) a)"
proof (rule change_writes [OF assms])
  fix b x ob s1
  assume "core w s1 b" and x: "live b addr = Some x" "address ob = addr" "\<not> deleted ob" "obj_abs w (destructs b) ob x"
  moreover have "Balance (data ob) = a_balance x" using x(4) by (auto simp: obj_abs_def obj_at_def)
  ultimately show "\<exists>ob' e. Some (obj_SetBalance (g (Balance (data ob))) ob s1) = Some (ob', append_entry e s1) \<and>
      address ob' = addr \<and> \<not> deleted ob' \<and> obj_abs w (destructs b) ob' (x\<lparr>a_balance := g (a_balance x)\<rparr>) \<and>
      undoes w e (set_touched addr (set_account addr (x\<lparr>a_balance := g (a_balance x)\<rparr>) b)) b"
    using undoes_balance [OF assms(3) x(1), of w "g (a_balance x)"] obj_abs_setBalance [OF x(4), of "g (a_balance x)"]
    by (auto simp: obj_SetBalance_def)
qed

lemma SetNonce_writes:
  assumes "world_ok w" and "core w s a" and "addr_ok addr"
  shows "\<exists>s'. SetNonce (w_K w) addr n s = Some s' \<and> journals w s a s' (change (w_K w) (has_snap w) addr (\<lambda>x. x\<lparr>a_nonce := n\<rparr>) a)"
proof -
  have "\<exists>s'. do { (ob, s) \<leftarrow> GetOrNewStateObject (w_K w) addr s; (ob, s) \<leftarrow> Some (obj_SetNonce n ob s); Some (setStateObject ob s) } = Some s' \<and>
    journals w s a s' (change (w_K w) (has_snap w) addr (\<lambda>x. x\<lparr>a_nonce := n\<rparr>) a)"
  proof (rule change_writes [OF assms])
    fix b x ob s1
    assume x: "live b addr = Some x" "address ob = addr" "\<not> deleted ob" "obj_abs w (destructs b) ob x"
    moreover have "Nonce (data ob) = a_nonce x" using x(4) by (auto simp: obj_abs_def obj_at_def)
    ultimately show "\<exists>ob' e. Some (obj_SetNonce n ob s1) = Some (ob', append_entry e s1) \<and>
        address ob' = addr \<and> \<not> deleted ob' \<and> obj_abs w (destructs b) ob' (x\<lparr>a_nonce := n\<rparr>) \<and>
        undoes w e (set_touched addr (set_account addr (x\<lparr>a_nonce := n\<rparr>) b)) b"
      using undoes_nonce [OF assms(3) x(1), of w n] obj_abs_setNonce [OF x(4), of n]
      by (auto simp: obj_SetNonce_def)
  qed
  then show ?thesis by (simp add: SetNonce_def)
qed

lemma SetCode_writes:
  assumes "world_ok w" and "core w s a" and "addr_ok addr"
  shows "\<exists>s'. SetCode (w_K w) addr c s = Some s' \<and>
    journals w s a s' (change (w_K w) (has_snap w) addr (\<lambda>x. x\<lparr>a_code := c, a_codehash := w_K w (bytes_of c)\<rparr>) a)"
proof -
  have K: "digest32 (w_K w)" using assms(1) by (simp add: world_ok_def)
  let ?f = "\<lambda>x :: acct. x\<lparr>a_code := c, a_codehash := w_K w (bytes_of c)\<rparr>"
  have "\<exists>s'. do { (ob, s) \<leftarrow> GetOrNewStateObject (w_K w) addr s; (ob, s) \<leftarrow> Some (obj_SetCode (w_K w) (w_K w (bytes_of c)) c ob s);
      Some (setStateObject ob s) } = Some s' \<and> journals w s a s' (change (w_K w) (has_snap w) addr ?f a)"
  proof (rule change_writes [OF assms(1-3)])
    fix b x ob s1
    assume s1: "core w s1 b" and x: "live b addr = Some x" "address ob = addr" "\<not> deleted ob" "obj_abs w (destructs b) ob x"
    have db: "s_db s1 = w_db w" using s1 by (simp add: core_def over_def)
    from x(4) have h: "length (a_codehash x) = 32" "CodeHash (data ob) = Some (a_codehash x)"
      "code_of w (o_code ob) (a_codehash x) = a_code x" by (auto simp: obj_abs_def obj_at_def)
    from obj_Code_abs [OF x(4)] obtain ob1 where
      ob1: "obj_Code (w_K w) (w_db w) ob = (a_code x, ob1)" "obj_abs w (destructs b) ob1 x" "address ob1 = addr"
      "\<not> deleted ob1" "data ob1 = data ob" using x by auto
    have "undoes w (codeChange addr (a_code x) (Some (a_codehash x))) (set_touched addr (set_account addr (?f x) b)) b"
      using h by (intro undoes_code [OF assms(3) x(1)]) (auto simp: code_of_def BytesToHash_32 split: option.splits if_splits)
    moreover have "obj_abs w (destructs b) (setCode (w_K w (bytes_of c)) c ob1) (?f x)"
      by (intro obj_abs_setCode [OF ob1(2)]) (auto simp: digest32D [OF K] bytes_of_def)
    ultimately show "\<exists>ob' e. Some (obj_SetCode (w_K w) (w_K w (bytes_of c)) c ob s1) = Some (ob', append_entry e s1) \<and>
        address ob' = addr \<and> \<not> deleted ob' \<and> obj_abs w (destructs b) ob' (?f x) \<and>
        undoes w e (set_touched addr (set_account addr (?f x) b)) b"
      using ob1 h db by (auto simp: obj_SetCode_def)
  qed
  then show ?thesis by (simp add: SetCode_def)
qed

lemma touch_writes:
  assumes "core w s b" and "live b addr = Some x" and "address ob = addr" and "\<not> deleted ob" and "obj_abs w (destructs b) ob x"
  shows "journals w s b (setStateObject ob (touch ob s)) (set_touched addr b)"
proof -
  have "set_account addr x b = b" using assms(2) by (simp add: set_account_def live_def fun_upd_idem split: slot.splits)
  then have "journals w s b (setStateObject ob (append_entry (touchChange addr) s)) (set_touched addr b)"
    using journals_change [OF assms(1,3-5), of "touchChange addr"] undoes_touch [of w addr b] by simp
  moreover have "journals w s b (setStateObject ob (append_entry (touchChange addr) s
        \<lparr>s_journal := journal_dirty ripemd (s_journal (append_entry (touchChange addr) s))\<rparr>)) (set_touched addr b)"
    if "journals w s b (setStateObject ob (append_entry (touchChange addr) s)) (set_touched addr b)"
    using that jd_ok_ripemd
    by (auto simp: journals_def core_def over_def cur_def GetLogs_def meta_def setStateObject_def journal_dirty_def)
  ultimately show ?thesis using assms(3) by (auto simp: touch_def Let_def)
qed

lemma AddBalance_writes:
  assumes "world_ok w" and "core w s a" and "addr_ok addr"
  shows "\<exists>s'. AddBalance (w_K w) addr v s = Some s' \<and> journals w s a s'
    (if v \<noteq> 0 then change (w_K w) (has_snap w) addr (\<lambda>x. x\<lparr>a_balance := a_balance x + v\<rparr>) a
     else let (x, c) = get_or_new (w_K w) (has_snap w) addr a in if is_empty (w_K w) x then set_touched addr c else c)"
proof (cases "v = 0")
  case False
  with SetBalance_writes [OF assms, of "\<lambda>b. b + v"] show ?thesis by (simp add: AddBalance_def obj_AddBalance_def)
next
  case True
  obtain x b where b: "get_or_new (w_K w) (has_snap w) addr a = (x, b)" by fastforce
  from GetOrNew_writes [OF assms b] obtain ob s1 where
    s1: "GetOrNewStateObject (w_K w) addr s = Some (ob, s1)" "journals w s a s1 b" "address ob = addr" "\<not> deleted ob"
    "obj_abs w (destructs b) ob x" "live b addr = Some x" by blast
  have c: "core w s1 b" using s1(2) by (simp add: journals_def)
  have "journals w s1 b (setStateObject ob s1) b"
    using core_set_same [OF c assms(3) s1(6,3-5)] by (intro journals_read) simp_all
  with touch_writes [OF c s1(6,3-5)] have "journals w s1 b (setStateObject ob (if obj_empty (w_K w) ob then touch ob s1 else s1))
      (if is_empty (w_K w) x then set_touched addr b else b)"
    using obj_empty_abs [OF s1(5)] by simp
  with journals_trans [OF s1(2)] s1(1) True b show ?thesis by (simp add: AddBalance_def obj_AddBalance_def)
qed

lemma SubBalance_writes:
  assumes "world_ok w" and "core w s a" and "addr_ok addr"
  shows "\<exists>s'. SubBalance (w_K w) addr v s = Some s' \<and> journals w s a s'
    (if v \<noteq> 0 then change (w_K w) (has_snap w) addr (\<lambda>x. x\<lparr>a_balance := a_balance x - v\<rparr>) a
     else snd (get_or_new (w_K w) (has_snap w) addr a))"
proof (cases "v = 0")
  case False
  with SetBalance_writes [OF assms, of "\<lambda>b. b - v"] show ?thesis by (simp add: SubBalance_def obj_SubBalance_def)
next
  case True
  obtain x b where b: "get_or_new (w_K w) (has_snap w) addr a = (x, b)" by fastforce
  from GetOrNew_writes [OF assms b] obtain ob s1 where
    s1: "GetOrNewStateObject (w_K w) addr s = Some (ob, s1)" "journals w s a s1 b" "address ob = addr" "\<not> deleted ob"
    "obj_abs w (destructs b) ob x" "live b addr = Some x" by blast
  have c: "core w s1 b" using s1(2) by (simp add: journals_def)
  have "journals w s1 b (setStateObject ob s1) b"
    using core_set_same [OF c assms(3) s1(6,3-5)] by (intro journals_read) simp_all
  with journals_trans [OF s1(2)] s1(1) True b show ?thesis by (simp add: SubBalance_def obj_SubBalance_def)
qed

lemma core_views: "core w s a \<Longrightarrow> s_db s = w_db w \<and> snap s = w_snap w \<and> snapDestructs s = destructs a"
  by (simp add: core_def over_def)

lemma SetState_writes:
  assumes "world_ok w" and "core w s a" and "addr_ok addr"
  shows "\<exists>s'. SetState (w_K w) addr k v s = Some s' \<and> journals w s a s'
    (let (x, c') = get_or_new (w_K w) (has_snap w) addr a
     in if a_store x k = v then c' else change (w_K w) (has_snap w) addr (\<lambda>x. x\<lparr>a_store := (a_store x)(k := v)\<rparr>) a)"
proof -
  obtain x b where b: "get_or_new (w_K w) (has_snap w) addr a = (x, b)" by fastforce
  from GetOrNew_writes [OF assms b] obtain ob s1 where
    s1: "GetOrNewStateObject (w_K w) addr s = Some (ob, s1)" "journals w s a s1 b" "address ob = addr" "\<not> deleted ob"
    "obj_abs w (destructs b) ob x" "live b addr = Some x" by blast
  have c: "core w s1 b" using s1(2) by (simp add: journals_def)
  from obj_GetState_abs [OF s1(5), of s1 k] core_views [OF c] obtain ob1 where
    ob1: "obj_GetState (w_K w) s1 k ob = Some (a_store x k, ob1)" "obj_abs w (destructs b) ob1 x"
    "address ob1 = addr" "\<not> deleted ob1" using s1(3,4) by auto
  have fake: "fakeStorage ob = None" using s1(5) by (auto simp: obj_abs_def obj_at_def)
  let ?f = "\<lambda>x :: acct. x\<lparr>a_store := (a_store x)(k := v)\<rparr>"
  have "journals w s1 b (setStateObject ob1 s1) b"
    using core_set_same [OF c assms(3) s1(6) ob1(3,4,2)] by (intro journals_read) simp_all
  moreover have "journals w s1 b (setStateObject (setState k v ob1) (append_entry (storageChange addr k (a_store x k)) s1))
      (set_touched addr (set_account addr (?f x) b))"
    using ob1 obj_abs_setState [OF ob1(2)]
    by (intro journals_change [OF c _ _ _ undoes_storage [OF assms(3) s1(6)]]) simp_all
  moreover have "change (w_K w) (has_snap w) addr ?f a = set_touched addr (set_account addr (?f x) b)"
    by (simp add: change_def b)
  ultimately show ?thesis
    using journals_trans [OF s1(2)] s1(1) ob1 fake b by (simp add: SetState_def obj_SetState_def)
qed

lemma CreateAccount_writes:
  assumes "world_ok w" and "core w s a" and addr: "addr_ok addr"
  shows "\<exists>s'. CreateAccount (w_K w) addr s = Some s' \<and> journals w s a s'
    (let b = (case live a addr of None \<Rightarrow> 0 | Some x \<Rightarrow> a_balance x)
     in set_account addr ((fresh (w_K w))\<lparr>a_balance := b\<rparr>) (create (w_K w) (has_snap w) addr a))"
proof -
  let ?b = "create (w_K w) (has_snap w) addr a"
  let ?v = "case live a addr of None \<Rightarrow> 0 | Some x \<Rightarrow> a_balance x"
  from createObject_core [OF assms] obtain ob prev s' e where
    s': "createObject (w_K w) addr s = Some ((ob, prev), s')" "core w s' ?b" "meta s' = meta (append_entry e s)"
    "\<And>y. undoes w e (set_account addr y ?b) a" "address ob = addr" "\<not> deleted ob" "obj_abs w (destructs ?b) ob (fresh (w_K w))"
    "case live a addr of None \<Rightarrow> prev = None | Some x \<Rightarrow> \<exists>p. prev = Some p \<and> Balance (data p) = a_balance x" by blast
  have u: "undoes w e (set_account addr ((fresh (w_K w))\<lparr>a_balance := ?v\<rparr>) ?b) a" by (rule s'(4))
  show ?thesis
  proof (cases "live a addr")
    case None
    have "(fresh (w_K w))\<lparr>a_balance := ?v\<rparr> = fresh (w_K w)" using None by (simp add: fresh_def)
    then have "undoes w e ?b a" using u unfolding create_same by (simp add: create_same)
    then have "journals w s a s' ?b" using s'(2,3) by (rule journals_entry)
    with None s'(1,8) \<open>_ = fresh (w_K w)\<close> show ?thesis by (simp add: CreateAccount_def create_same)
  next
    case (Some x)
    with s'(8) obtain p where p: "prev = Some p" "Balance (data p) = ?v" by auto
    let ?s = "setStateObject (setBalance ?v ob) s'"
    have "addrHash ob = w_K w addr" using s'(5,7) by (auto simp: obj_abs_def obj_at_def)
    then have "obj_slot w (destructs ?b) addr (Some (setBalance ?v ob)) (Live ((fresh (w_K w))\<lparr>a_balance := ?v\<rparr>))"
      using s'(5,6) obj_abs_setBalance [OF s'(7), of ?v] by (simp add: obj_slot_def setBalance_def)
    from core_set [OF s'(2) this] have "core w ?s (set_account addr ((fresh (w_K w))\<lparr>a_balance := ?v\<rparr>) ?b)"
      by (simp add: set_account_def)
    then have "journals w s a ?s (set_account addr ((fresh (w_K w))\<lparr>a_balance := ?v\<rparr>) ?b)"
      using s'(3) by (intro journals_entry [OF u]) simp_all
    then show ?thesis using s'(1) p by (simp add: CreateAccount_def)
  qed
qed

lemma Suicide_writes:
  assumes "core w s a" and "addr_ok addr"
  shows "\<exists>s'. Suicide (w_K w) addr s = Some (live a addr \<noteq> None, s') \<and> journals w s a s'
    (case live a addr of None \<Rightarrow> a
     | Some x \<Rightarrow> change (w_K w) (has_snap w) addr (\<lambda>x. x\<lparr>a_suicided := True, a_balance := 0\<rparr>) a)"
proof -
  from getStateObject_core [OF assms] obtain so s1 where
    s1: "getStateObject (w_K w) addr s = Some (so, s1)" "core w s1 a" "meta s1 = meta s"
    "case live a addr of None \<Rightarrow> so = None
     | Some x \<Rightarrow> \<exists>ob. so = Some ob \<and> address ob = addr \<and> \<not> deleted ob \<and> obj_abs w (destructs a) ob x" by blast
  show ?thesis
  proof (cases "live a addr")
    case None
    with s1 journals_read [OF s1(2,3)] show ?thesis by (simp add: Suicide_def)
  next
    case (Some x)
    with s1(4) obtain ob where ob: "so = Some ob" "address ob = addr" "\<not> deleted ob" "obj_abs w (destructs a) ob x" by auto
    let ?y = "x\<lparr>a_suicided := True, a_balance := 0\<rparr>"
    have d: "suicided ob = a_suicided x" "Balance (data ob) = a_balance x" using ob(4) by (auto simp: obj_abs_def obj_at_def)
    have "obj_abs w (destructs a) (setBalance 0 (ob\<lparr>suicided := True\<rparr>)) ?y"
      using obj_abs_setBalance [OF obj_abs_suicided [OF ob(4), of True], of 0] by simp
    then have "journals w s1 a (setStateObject (setBalance 0 (ob\<lparr>suicided := True\<rparr>))
        (append_entry (suicideChange addr (a_suicided x) (a_balance x)) s1)) (set_touched addr (set_account addr ?y a))"
      using ob(2,3) by (intro journals_change [OF s1(2) _ _ _ undoes_suicide [OF assms(2) Some]]) simp_all
    with journals_trans [OF journals_read [OF s1(2,3)]] s1(1) ob(1) d Some show ?thesis
      by (simp add: Suicide_def markSuicided_def setBalance_def change_def get_or_new_def)
  qed
qed

lemma AddRefund_writes:
  assumes "core w s a"
  shows "journals w s a (AddRefund g s) (a\<lparr>a_refund := a_refund a + g\<rparr>)"
    and "\<not> a_refund a < g \<Longrightarrow> \<exists>s'. SubRefund g s = Some s' \<and> journals w s a s' (a\<lparr>a_refund := a_refund a - g\<rparr>)"
proof -
  have r: "refund s = a_refund a" using assms by (simp add: core_def)
  have "journals w s a (append_entry (refundChange (a_refund a)) s\<lparr>refund := v\<rparr>) (a\<lparr>a_refund := v\<rparr>)" for v
    using core_refund [of w "append_entry (refundChange (a_refund a)) s" a v] assms
    by (intro journals_entry [OF undoes_refund]) (simp_all add: meta_def)
  then show "journals w s a (AddRefund g s) (a\<lparr>a_refund := a_refund a + g\<rparr>)"
    and "\<not> a_refund a < g \<Longrightarrow> \<exists>s'. SubRefund g s = Some s' \<and> journals w s a s' (a\<lparr>a_refund := a_refund a - g\<rparr>)"
    by (simp_all add: AddRefund_def SubRefund_def r)
qed

lemma AddPreimage_writes:
  assumes "core w s a"
  shows "journals w s a (AddPreimage h p s)
    (if a_preimages a h = None then a\<lparr>a_preimages := (a_preimages a)(h \<mapsto> p)\<rparr> else a)"
proof -
  have e: "s_preimages s = a_preimages a" using assms by (simp add: core_def)
  show ?thesis
  proof (cases "a_preimages a h")
    case None
    have "journals w s a (append_entry (addPreimageChange h) s\<lparr>s_preimages := (a_preimages a)(h \<mapsto> p)\<rparr>)
        (a\<lparr>a_preimages := (a_preimages a)(h \<mapsto> p)\<rparr>)"
      using core_preimages [of w "append_entry (addPreimageChange h) s" a] assms
      by (intro journals_entry [OF undoes_preimage [of a h w p, OF None]]) (simp_all add: meta_def)
    with None e show ?thesis by (simp add: AddPreimage_def)
  next
    case (Some q)
    with e assms journals_read [of w s a s] show ?thesis by (simp add: AddPreimage_def)
  qed
qed

lemma AddLog_writes:
  assumes "core w s a"
  shows "journals w s a (AddLog lg s)
    (let lg = lg\<lparr>TxHash := thash s, BlockHash := bhash s, TxIndex := word_of_int (s_txIndex s), Index := a_logSize a\<rparr>
     in a\<lparr>a_logs := (a_logs a)(thash s := a_logs a (thash s) @ [lg]), a_logSize := a_logSize a + 1\<rparr>)"
proof -
  have e: "logSize s = a_logSize a" "\<And>h. GetLogs h s = a_logs a h" using assms by (simp_all add: core_def)
  then have g: "(case logs s h of None \<Rightarrow> [] | Some ls \<Rightarrow> ls) = a_logs a h" for h by (simp add: GetLogs_def)
  let ?s = "append_entry (addLogChange (thash s)) s"
  let ?lg = "lg\<lparr>TxHash := thash s, BlockHash := bhash s, TxIndex := word_of_int (s_txIndex s), Index := a_logSize a\<rparr>"
  let ?l = "(logs s)(thash s \<mapsto> a_logs a (thash s) @ [?lg])"
  have c: "core w (?s\<lparr>logs := ?l, logSize := a_logSize a + 1\<rparr>)
      (a\<lparr>a_logs := (a_logs a)(thash s := a_logs a (thash s) @ [?lg]), a_logSize := a_logSize a + 1\<rparr>)"
    using assms g by (intro core_logs) auto
  have "journals w s a (?s\<lparr>logs := ?l, logSize := a_logSize a + 1\<rparr>)
      (a\<lparr>a_logs := (a_logs a)(thash s := a_logs a (thash s) @ [?lg]), a_logSize := a_logSize a + 1\<rparr>)"
    by (rule journals_entry [OF undoes_log c]) (simp add: meta_def)
  then show ?thesis using g [of "thash s"] e(1) by (simp add: AddLog_def GetLogs_def Let_def)
qed

subsection \<open>Operations that read\<close>

text \<open>A question about one account, answered from its object.\<close>

lemma asks_core:
  assumes "core w s a" and "addr_ok addr"
    and none: "\<And>s'. f None s' = Some (g None, s')"
    and some: "\<And>x ob s'. core w s' a \<Longrightarrow> live a addr = Some x \<Longrightarrow> address ob = addr \<Longrightarrow> \<not> deleted ob \<Longrightarrow>
      obj_abs w (destructs a) ob x \<Longrightarrow>
      \<exists>s''. f (Some ob) s' = Some (g (Some x), s'') \<and> core w s'' a \<and> meta s'' = meta s'"
  shows "\<exists>s'. do { (so, s) \<leftarrow> getStateObject (w_K w) addr s; f so s } = Some (g (live a addr), s') \<and>
    core w s' a \<and> meta s' = meta s"
proof -
  from getStateObject_core [OF assms(1,2)] obtain so s1 where
    s1: "getStateObject (w_K w) addr s = Some (so, s1)" "core w s1 a" "meta s1 = meta s"
    "case live a addr of None \<Rightarrow> so = None
     | Some x \<Rightarrow> \<exists>ob. so = Some ob \<and> address ob = addr \<and> \<not> deleted ob \<and> obj_abs w (destructs a) ob x" by blast
  show ?thesis
  proof (cases "live a addr")
    case None
    with s1 none [of s1] show ?thesis by simp
  next
    case (Some x)
    with s1(4) obtain ob where ob: "so = Some ob" "address ob = addr" "\<not> deleted ob" "obj_abs w (destructs a) ob x" by auto
    from some [OF s1(2) Some ob(2-4)] s1(1,3) ob(1) Some show ?thesis by auto
  qed
qed

lemma asks_value:
  assumes "core w s a" and "addr_ok addr" and "\<And>x ob. obj_abs w (destructs a) ob x \<Longrightarrow> f (Some ob) = g (Some x)"
    and "f None = g None"
  shows "\<exists>s'. do { (so, s) \<leftarrow> getStateObject (w_K w) addr s; Some (f so, s) } = Some (g (live a addr), s') \<and>
    core w s' a \<and> meta s' = meta s"
  by (rule asks_core [OF assms(1,2)]) (simp_all add: assms)

lemma asks_object:
  assumes "core w s a" and addr: "addr_ok addr"
    and f: "\<And>s' ob x. core w s' a \<Longrightarrow> obj_abs w (destructs a) ob x \<Longrightarrow>
      \<exists>ob'. f s' ob = Some (g x, ob') \<and> obj_abs w (destructs a) ob' x \<and> address ob' = address ob \<and> deleted ob' = deleted ob"
  shows "\<exists>s'. do { (so, s) \<leftarrow> getStateObject (w_K w) addr s;
      case so of None \<Rightarrow> Some (z, s) | Some ob \<Rightarrow> do { (v, ob) \<leftarrow> f s ob; Some (v, setStateObject ob s) } } =
      Some (case live a addr of None \<Rightarrow> z | Some x \<Rightarrow> g x, s') \<and> core w s' a \<and> meta s' = meta s"
proof (rule asks_core [OF assms(1,2), where g = "\<lambda>y. case y of None \<Rightarrow> z | Some x \<Rightarrow> g x"])
  fix x ob s'
  assume s': "core w s' a" and x: "live a addr = Some x" "address ob = addr" "\<not> deleted ob" "obj_abs w (destructs a) ob x"
  from f [OF s' x(4)] obtain ob' where
    ob': "f s' ob = Some (g x, ob')" "obj_abs w (destructs a) ob' x" "address ob' = addr" "\<not> deleted ob'" using x by auto
  with core_set_same [OF s' addr x(1) ob'(3,4,2)]
  show "\<exists>s''. (case Some ob of None \<Rightarrow> Some (z, s') | Some ob \<Rightarrow> do { (v, ob) \<leftarrow> f s' ob; Some (v, setStateObject ob s') }) =
      Some (case Some x of None \<Rightarrow> z | Some x \<Rightarrow> g x, s'') \<and> core w s'' a \<and> meta s'' = meta s'" by simp
qed simp

end
