(* ===== verification/State_Snapshot.thy ===== *)
theory State_Snapshot
  imports State_Refine
begin

text \<open>
  Snapshots: going back to a revision undoes the entries of the journal since then, one by one, and
  arrives at the table of accounts that the snapshot saw.
\<close>

subsection \<open>Undoing a run of entries\<close>

lemma length_chain: "chain w a es bs \<Longrightarrow> length bs = length es"
  by (induction es arbitrary: a bs) auto

lemma chain_take: "chain w a es bs \<Longrightarrow> chain w a (take n es) (take n bs)"
proof (induction es arbitrary: a bs n)
  case (Cons e es)
  then show ?case by (cases n) auto
qed simp

lemma chain_drop: "chain w a es bs \<Longrightarrow> n \<le> length es \<Longrightarrow> chain w ((a # bs) ! n) (drop n es) (drop n bs)"
proof (induction es arbitrary: a bs n)
  case (Cons e es)
  then show ?case by (cases n) auto
qed simp

lemma chain_touched: "chain w a es bs \<Longrightarrow> b \<in> set bs \<Longrightarrow> touched a \<subseteq> touched b"
proof (induction es arbitrary: a bs)
  case (Cons e es)
  then obtain c cs where c: "bs = c # cs" "undoes w e c a" "chain w c es cs" by auto
  then have "touched a \<subseteq> touched c" by (auto simp: undoes_def)
  with c Cons.IH [OF c(3)] Cons.prems(2) show ?case by auto
qed simp

lemma counts_undirty:
  assumes "counts d (es @ [e])"
  shows "counts (case dirtied e of None \<Rightarrow> d
    | Some a \<Rightarrow> d(a := if count_of d a - 1 = 0 then None else Some (count_of d a - 1))) es"
proof -
  from assms obtain n where n: "\<And>a. d a \<noteq> Some 0"
    "\<And>a. count_of d a = int (length (filter (\<lambda>e. dirtied e = Some a) (es @ [e]))) + (if a = ripemd then int n else 0)"
    by (auto simp: counts_def)
  show ?thesis
  proof (cases "dirtied e")
    case None
    with n show ?thesis by (auto simp: counts_def)
  next
    case (Some a)
    let ?d = "d(a := if count_of d a - 1 = 0 then None else Some (count_of d a - 1))"
    have "count_of ?d b = int (length (filter (\<lambda>e. dirtied e = Some b) es)) + (if b = ripemd then int n else 0)" for b
      using n(2) [of b] Some by (auto simp: count_of_def)
    moreover have "?d b \<noteq> Some 0" for b using n(1) [of b] by auto
    ultimately show ?thesis using Some by (auto simp: counts_def)
  qed
qed

lemma jdirties_undirty:
  "jdirties (s_journal (undirty e s)) = (case dirtied e of None \<Rightarrow> jdirties (s_journal s)
    | Some a \<Rightarrow> (jdirties (s_journal s))(a := if count_of (jdirties (s_journal s)) a - 1 = 0 then None
        else Some (count_of (jdirties (s_journal s)) a - 1)))"
  by (simp add: undirty_def Let_def split: option.splits)

lemma core_undirty [simp]: "core w (undirty e s) a = core w s a"
  by (simp add: undirty_def core_def over_def cur_def GetLogs_def Let_def split: option.splits)

lemma meta_undirty: "snd (meta (undirty e s)) = snd (meta s)" "entries (s_journal (undirty e s)) = entries (s_journal s)"
  by (simp_all add: undirty_def meta_def Let_def split: option.splits)

lemma revert_entries_append:
  "revert_entries K (es @ es') s = Option.bind (revert_entries K es s) (revert_entries K es')"
  by (induction es arbitrary: s) (auto split: Option.bind_split)

lemma revert_chain:
  assumes "chain w a es bs" and "core w s (last (a # bs))" and "counts (jdirties (s_journal s)) (pre @ es)"
  shows "\<exists>s'. revert_entries (w_K w) (rev es) s = Some s' \<and> core w s' a \<and> snd (meta s') = snd (meta s) \<and>
    entries (s_journal s') = entries (s_journal s) \<and> counts (jdirties (s_journal s')) pre"
  using assms
proof (induction es arbitrary: a bs pre)
  case (Cons e es)
  from Cons.prems(1) obtain b cs where b: "bs = b # cs" "undoes w e b a" "chain w b es cs" by auto
  have "core w s (last (b # cs))" using Cons.prems(2) b(1) by simp
  moreover have "counts (jdirties (s_journal s)) ((pre @ [e]) @ es)" using Cons.prems(3) by simp
  ultimately obtain s1 where
    s1: "revert_entries (w_K w) (rev es) s = Some s1" "core w s1 b" "snd (meta s1) = snd (meta s)"
    "entries (s_journal s1) = entries (s_journal s)" "counts (jdirties (s_journal s1)) (pre @ [e])"
    using Cons.IH [OF b(3), of "pre @ [e]"] by blast
  from b(2) s1(2) obtain s2 where s2: "revert_entry (w_K w) e s1 = Some s2" "core w s2 a" "meta s2 = meta s1"
    by (auto simp: undoes_def)
  have j: "s_journal s2 = s_journal s1" using s2(3) by (simp add: meta_def)
  have "revert_entries (w_K w) (rev (e # es)) s = Some (undirty e s2)"
    using s1(1) s2(1) by (simp add: revert_entries_append)
  moreover have "counts (jdirties (s_journal (undirty e s2))) pre"
    unfolding jdirties_undirty j using counts_undirty [OF s1(5)] .
  ultimately show ?case
    using s1(3,4) s2 j meta_undirty [of e s2] by (intro exI [of _ "undirty e s2"]) simp
qed simp

subsection \<open>Searching a revision\<close>

lemma sort_Search_first:
  assumes "i \<le> j" and "\<And>x y. i \<le> x \<Longrightarrow> x \<le> y \<Longrightarrow> y < j \<Longrightarrow> f x \<Longrightarrow> f y" and "sort_Search f i j = k"
  shows "i \<le> k \<and> k \<le> j \<and> (\<forall>x. i \<le> x \<longrightarrow> x < k \<longrightarrow> \<not> f x) \<and> (\<forall>x. k \<le> x \<longrightarrow> x < j \<longrightarrow> f x)"
  using assms
proof (induction f i j rule: sort_Search.induct)
  case (1 f i j)
  show ?case
  proof (cases "i < j")
    case False
    then have "sort_Search f i j = i" by (subst sort_Search.simps) simp
    with False "1.prems" show ?thesis by simp
  next
    case True
    let ?h = "(i + j) div 2"
    have h: "i \<le> ?h" "?h < j" using True by auto
    show ?thesis
    proof (cases "f ?h")
      case f: False
      have e: "sort_Search f i j = sort_Search f (?h + 1) j" using True f by (subst sort_Search.simps) (simp add: Let_def)
      have k: "?h + 1 \<le> k \<and> k \<le> j \<and> (\<forall>x. ?h + 1 \<le> x \<longrightarrow> x < k \<longrightarrow> \<not> f x) \<and> (\<forall>x. k \<le> x \<longrightarrow> x < j \<longrightarrow> f x)"
      proof (rule "1.IH"(1) [OF True refl f])
        show "?h + 1 \<le> j" using h by simp
        show "f y" if "?h + 1 \<le> x" "x \<le> y" "y < j" "f x" for x y
          using that h by (intro "1.prems"(2) [of x y]) simp_all
        show "sort_Search f (?h + 1) j = k" using e "1.prems"(3) by simp
      qed
      have "\<not> f x" if "i \<le> x" "x < k" for x
      proof (cases "x \<le> ?h")
        case True
        with "1.prems"(2) [OF that(1) True h(2)] f show ?thesis by blast
      next
        case False
        with k that show ?thesis by simp
      qed
      moreover have "i \<le> k" using k h by linarith
      ultimately show ?thesis using k by blast
    next
      case f: True
      have e: "sort_Search f i j = sort_Search f i ?h" using True f by (subst sort_Search.simps) (simp add: Let_def)
      have k: "i \<le> k \<and> k \<le> ?h \<and> (\<forall>x. i \<le> x \<longrightarrow> x < k \<longrightarrow> \<not> f x) \<and> (\<forall>x. k \<le> x \<longrightarrow> x < ?h \<longrightarrow> f x)"
      proof (rule "1.IH"(2) [OF True refl])
        show "\<not> \<not> f ?h" using f by simp
        show "i \<le> ?h" by (rule h)
        show "f y" if "i \<le> x" "x \<le> y" "y < ?h" "f x" for x y
          using that h by (intro "1.prems"(2) [of x y]) simp_all
        show "sort_Search f i ?h = k" using e "1.prems"(3) by simp
      qed
      have "f x" if "k \<le> x" "x < j" for x
      proof (cases "x < ?h")
        case False
        then show ?thesis using that f by (intro "1.prems"(2) [OF h(1), of x]) simp_all
      next
        case True
        with k that show ?thesis by simp
      qed
      moreover have "k \<le> j" using k h by linarith
      ultimately show ?thesis using k by blast
    qed
  qed
qed

text \<open>In a list of increasing numbers the search finds the position of a number that is there.\<close>

lemma sort_Search_pos:
  assumes "sorted_wrt (<) (map fst vs)" and "k < length vs" and "fst (vs ! k) = (i :: int)"
  shows "sort_Search (\<lambda>x. i \<le> fst (vs ! x)) 0 (length vs) = k"
proof -
  let ?f = "\<lambda>x. i \<le> fst (vs ! x)"
  have s: "fst (vs ! x) < fst (vs ! y)" if "x < y" "y < length vs" for x y
    using assms(1) that by (simp add: sorted_wrt_iff_nth_less)
  have m: "?f y" if "0 \<le> x" "x \<le> y" "y < length vs" "?f x" for x y
    using s [of x y] that by (cases "x = y") auto
  define p where "p = sort_Search ?f 0 (length vs)"
  have "0 \<le> p \<and> p \<le> length vs \<and> (\<forall>x. 0 \<le> x \<longrightarrow> x < p \<longrightarrow> \<not> ?f x) \<and> (\<forall>x. p \<le> x \<longrightarrow> x < length vs \<longrightarrow> ?f x)"
    by (rule sort_Search_first [OF _ m p_def [symmetric]]) simp_all
  then have first: "x < p \<longrightarrow> \<not> ?f x" "p \<le> x \<longrightarrow> x < length vs \<longrightarrow> ?f x" for x by simp_all
  have "\<not> p < k" using first(2) [of p] s [of p k] assms(2,3) by auto
  moreover have "\<not> k < p" using first(1) [of k] assms(3) by auto
  ultimately show ?thesis by (simp add: p_def)
qed

subsection \<open>The simulation\<close>

definition revisions_ok :: "astate list \<Rightarrow> (int \<times> nat) list \<Rightarrow> (int \<times> astate) list \<Rightarrow> bool" where
  "revisions_ok hist vs cs \<longleftrightarrow>
     list_all2 (\<lambda>v c. fst v = fst c \<and> snd v < length hist \<and> hist ! snd v = snd c) vs cs \<and>
     sorted (map snd vs)"

text \<open>\<open>sim w s A\<close>: there is a history of tables that the journal leads back through, and each
  revision points to the copy that the specification holds.\<close>

definition sim :: "world \<Rightarrow> StateDB \<Rightarrow> spec \<Rightarrow> bool" where
  "sim w s A \<longleftrightarrow>
     core w s (now A) \<and> jd_ok (s_journal s) \<and> tx A = (thash s, bhash s, s_txIndex s) \<and>
     nextRevisionId s = next_id A \<and> sorted_wrt (<) (map fst (validRevisions s)) \<and>
     (\<forall>i \<in> set (map fst (validRevisions s)). i < nextRevisionId s) \<and>
     (\<exists>a bs. chain w a (entries (s_journal s)) bs \<and> last (a # bs) = now A \<and> touched a = {} \<and> a_refund a = 0 \<and>
        revisions_ok (a # bs) (validRevisions s) (saved A))"

lemma revisions_ok_extend: "revisions_ok hist vs cs \<Longrightarrow> revisions_ok (hist @ later) vs cs"
  by (auto simp: revisions_ok_def list_all2_conv_all_nth nth_append)

lemma sim_journals:
  assumes "sim w s A" and "journals w s (now A) s' b"
  shows "sim w s' (A\<lparr>now := b\<rparr>)"
proof -
  from assms(1) obtain a bs where a: "chain w a (entries (s_journal s)) bs" "last (a # bs) = now A"
    "touched a = {}" "a_refund a = 0" "revisions_ok (a # bs) (validRevisions s) (saved A)" by (auto simp: sim_def)
  from assms(2) obtain es cs where c: "entries (s_journal s') = entries (s_journal s) @ es" "chain w (now A) es cs"
    "last (now A # cs) = b" "core w s' b" "snd (meta s') = snd (meta s)" "jd_ok (s_journal s) \<longrightarrow> jd_ok (s_journal s')"
    by (auto simp: journals_def)
  have "chain w a (entries (s_journal s')) (bs @ cs)" unfolding c(1) using a(1,2) c(2) by (intro chain_append) simp_all
  moreover have "last (a # bs @ cs) = b" using a(2) c(3) by (cases cs) auto
  moreover have "revisions_ok (a # bs @ cs) (validRevisions s) (saved A)" using revisions_ok_extend [OF a(5), of cs] by simp
  moreover have "validRevisions s' = validRevisions s" "nextRevisionId s' = nextRevisionId s" "thash s' = thash s"
    "bhash s' = bhash s" "s_txIndex s' = s_txIndex s" using c(5) by (simp_all add: meta_def)
  moreover have "jd_ok (s_journal s)" "tx A = (thash s, bhash s, s_txIndex s)" "nextRevisionId s = next_id A"
    "sorted_wrt (<) (map fst (validRevisions s))" "\<forall>i \<in> set (map fst (validRevisions s)). i < nextRevisionId s"
    using assms(1) by (auto simp: sim_def)
  ultimately show ?thesis
    using a(3,4) c(4,6) unfolding sim_def
    by (intro conjI exI [of _ a] exI [of _ "bs @ cs"]) (simp_all del: last.simps)
qed

lemma sim_read: "sim w s A \<Longrightarrow> core w s' (now A) \<Longrightarrow> meta s' = meta s \<Longrightarrow> sim w s' A"
  using sim_journals [OF _ journals_read, of w s A s'] by simp

lemma sim_Snapshot:
  assumes "sim w s A"
  shows "sim w (snd (Snapshot_id s)) (A\<lparr>saved := saved A @ [(next_id A, now A)], next_id := next_id A + 1\<rparr>)"
proof -
  from assms obtain a bs where a: "chain w a (entries (s_journal s)) bs" "last (a # bs) = now A"
    "touched a = {}" "a_refund a = 0" "revisions_ok (a # bs) (validRevisions s) (saved A)" by (auto simp: sim_def)
  let ?n = "length (entries (s_journal s))"
  have n: "length (a # bs) = Suc ?n" "(a # bs) ! ?n = now A"
    using length_chain [OF a(1)] a(2) last_conv_nth [of "a # bs"] by (simp_all del: last.simps)
  have "sorted (map snd (validRevisions s) @ [?n])"
    using a(5) n(1) by (force simp: revisions_ok_def sorted_append list_all2_conv_all_nth in_set_conv_nth less_Suc_eq_le)
  then have "revisions_ok (a # bs) (validRevisions s @ [(next_id A, ?n)]) (saved A @ [(next_id A, now A)])"
    using a(5) n by (auto simp: revisions_ok_def intro!: list_all2_appendI)
  moreover have "core w (snd (Snapshot_id s)) (now A)"
    using assms by (simp add: sim_def Snapshot_id_def Let_def core_def over_def cur_def GetLogs_def)
  ultimately show ?thesis
    using assms a unfolding sim_def
    by (intro conjI exI [of _ a] exI [of _ bs]) (auto simp: Snapshot_id_def Let_def sorted_wrt_append)
qed

lemma sim_position:
  assumes "sim w s A" and "map_of (saved A) i = Some c"
  shows "\<exists>k. k < length (validRevisions s) \<and> fst (validRevisions s ! k) = i \<and> saved A ! k = (i, c) \<and>
    takeWhile (\<lambda>p. fst p \<noteq> i) (saved A) = take k (saved A) \<and> length (saved A) = length (validRevisions s)"
proof -
  have l: "list_all2 (\<lambda>v c. fst v = fst c) (validRevisions s) (saved A)" "sorted_wrt (<) (map fst (validRevisions s))"
    using assms(1) by (auto simp: sim_def revisions_ok_def elim: list_all2_mono)
  then have ids: "map fst (saved A) = map fst (validRevisions s)"
    by (auto simp: list_all2_conv_all_nth list_eq_iff_nth_eq)
  from map_of_SomeD [OF assms(2)] obtain k where k: "k < length (saved A)" "saved A ! k = (i, c)"
    by (auto simp: in_set_conv_nth)
  have "fst (saved A ! x) < i" if "x < k" for x
  proof -
    have "map fst (saved A) ! x < map fst (saved A) ! k"
      using l(2) that k(1) unfolding ids [symmetric] by (simp add: sorted_wrt_iff_nth_less)
    with that k show ?thesis by simp
  qed
  then have "takeWhile (\<lambda>p. fst p \<noteq> i) (saved A) = take k (saved A)"
    using k by (intro takeWhile_eq_take_P_nth) auto
  with k l(1) show ?thesis by (auto simp: list_all2_conv_all_nth intro!: exI [of _ k])
qed

lemma sim_Revert:
  assumes "sim w s A" and "map_of (saved A) i = Some c"
  shows "\<exists>s'. RevertToSnapshot (w_K w) i s = Some s' \<and>
    sim w s' (A\<lparr>now := c, saved := takeWhile (\<lambda>p. fst p \<noteq> i) (saved A)\<rparr>)"
proof -
  from assms(1) obtain a bs where a: "chain w a (entries (s_journal s)) bs" "last (a # bs) = now A"
    "touched a = {}" "a_refund a = 0" "revisions_ok (a # bs) (validRevisions s) (saved A)" by (auto simp: sim_def)
  have s: "core w s (now A)" "jd_ok (s_journal s)" "tx A = (thash s, bhash s, s_txIndex s)" "nextRevisionId s = next_id A"
    "sorted_wrt (<) (map fst (validRevisions s))" "\<forall>i \<in> set (map fst (validRevisions s)). i < nextRevisionId s"
    using assms(1) by (auto simp: sim_def)
  from sim_position [OF assms] obtain k where k: "k < length (validRevisions s)" "fst (validRevisions s ! k) = i"
    "saved A ! k = (i, c)" "takeWhile (\<lambda>p. fst p \<noteq> i) (saved A) = take k (saved A)" "length (saved A) = length (validRevisions s)"
    by blast
  let ?vs = "validRevisions s" and ?es = "entries (s_journal s)"
  define n where "n = snd (?vs ! k)"
  have n: "n \<le> length ?es" "(a # bs) ! n = c" "length bs = length ?es"
    using a(5) k length_chain [OF a(1)] by (auto simp: revisions_ok_def list_all2_conv_all_nth n_def less_Suc_eq_le)
  have "last ((a # bs) ! n # drop n bs) = now A"
  proof -
    have "(a # bs) ! n # drop n bs = drop n (a # bs)" using n Cons_nth_drop_Suc [of n "a # bs"] by simp
    then show ?thesis using n a(2) by (metis last_drop le_imp_less_Suc length_Cons)
  qed
  then obtain s1 where
    s1: "revert_entries (w_K w) (rev (drop n ?es)) s = Some s1" "core w s1 c" "snd (meta s1) = snd (meta s)"
    "entries (s_journal s1) = ?es" "counts (jdirties (s_journal s1)) (take n ?es)"
    using revert_chain [OF chain_drop [OF a(1) n(1)], of s "take n ?es"] s(1,2) n(2)
    by (auto simp: jd_ok_def simp del: last.simps)
  let ?s = "s1\<lparr>s_journal := (s_journal s1)\<lparr>entries := take n ?es\<rparr>, validRevisions := take k ?vs\<rparr>"
  have m: "validRevisions s1 = ?vs" "nextRevisionId s1 = nextRevisionId s" "thash s1 = thash s" "bhash s1 = bhash s"
    "s_txIndex s1 = s_txIndex s" using s1(3) by (simp_all add: meta_def)
  have idx: "sort_Search (\<lambda>x. i \<le> fst (?vs ! x)) 0 (length ?vs) = k" by (rule sort_Search_pos [OF s(5) k(1,2)])
  have "RevertToSnapshot (w_K w) i s = Some ?s"
    using k(1,2) n(1) s1(1,4) m unfolding RevertToSnapshot_def idx Let_def
    by (simp add: journal_revert_def n_def [symmetric])
  moreover have "revisions_ok (a # take n bs) (take k ?vs) (take k (saved A))"
  proof -
    have le: "snd (?vs ! x) \<le> n" if "x < k" for x
      using a(5) that k(1) by (auto simp: revisions_ok_def n_def sorted_iff_nth_mono dest: spec)
    have "snd (?vs ! x) < length (a # take n bs) \<and> (a # take n bs) ! snd (?vs ! x) = (a # bs) ! snd (?vs ! x)" if "x < k" for x
      using le [OF that] n by (cases "snd (?vs ! x)") auto
    then show ?thesis
      using a(5) k(1,5) by (auto simp: revisions_ok_def list_all2_conv_all_nth sorted_wrt_take take_map [symmetric])
  qed
  moreover have "core w ?s c" using s1(2) by (simp add: core_def over_def cur_def GetLogs_def)
  moreover have "last (a # take n bs) = c"
    using n by (cases n) (auto simp: last_conv_nth)
  moreover have "sorted_wrt (<) (map fst (take k ?vs))" using s(5) by (simp add: sorted_wrt_take take_map [symmetric])
  moreover have "\<forall>i \<in> set (map fst (take k ?vs)). i < nextRevisionId s" using s(6) by (auto dest: in_set_takeD)
  ultimately have "sim w ?s (A\<lparr>now := c, saved := takeWhile (\<lambda>p. fst p \<noteq> i) (saved A)\<rparr>)"
    using s s1(5) m a(3,4) chain_take [OF a(1), of n] k(4) unfolding sim_def
    by (intro conjI exI [of _ a] exI [of _ "take n bs"])
      (simp_all add: jd_ok_def del: last.simps)
  with \<open>RevertToSnapshot (w_K w) i s = Some ?s\<close> show ?thesis by blast
qed

subsection \<open>The end of a transaction\<close>

definition gone :: "(bytes \<Rightarrow> bytes) \<Rightarrow> bool \<Rightarrow> acct \<Rightarrow> bool" where
  "gone K d x \<longleftrightarrow> a_suicided x \<or> (d \<and> is_empty K x)"

text \<open>The end of the transaction for the accounts in \<open>T\<close> only.\<close>

definition fin_slot :: "(bytes \<Rightarrow> bytes) \<Rightarrow> bool \<Rightarrow> slot \<Rightarrow> slot" where
  "fin_slot K d sl =
     (case sl of Live x \<Rightarrow> if gone K d x then Deleted else Live (x\<lparr>a_committed := a_store x\<rparr>) | _ \<Rightarrow> sl)"

definition gone_slot :: "(bytes \<Rightarrow> bytes) \<Rightarrow> bool \<Rightarrow> slot \<Rightarrow> bool" where
  "gone_slot K d sl \<longleftrightarrow> (\<exists>x. sl = Live x \<and> gone K d x)"

definition fin :: "(bytes \<Rightarrow> bytes) \<Rightarrow> bool \<Rightarrow> bool \<Rightarrow> bytes set \<Rightarrow> astate \<Rightarrow> astate" where
  "fin K sn d T a =
     a\<lparr>accounts := (\<lambda>addr. if addr \<in> T then fin_slot K d (accounts a addr) else accounts a addr),
       destructs := (if sn then destructs a \<union> K ` {addr \<in> T. gone_slot K d (accounts a addr)} else destructs a)\<rparr>"

lemma finish_fin: "finish K sn d a = fin K sn d (touched a) a\<lparr>touched := {}, a_refund := 0\<rparr>"
  by (auto simp: finish_def fin_def fin_slot_def gone_slot_def gone_def fun_eq_iff Let_def split: slot.splits)

lemma overlay_add: "overlay (c ++ d) f = overlay d (overlay c f)"
  by (auto simp: overlay_def fun_eq_iff map_add_def split: option.splits)

lemma obj_abs_finalise: "obj_abs w ds ob x \<Longrightarrow> obj_abs w ds (finalise ob) (x\<lparr>a_committed := a_store x\<rparr>)"
  by (auto simp: obj_abs_def obj_at_def finalise_def overlay_add)

lemma obj_slot_finalise:
  assumes "obj_slot w ds addr (Some ob) sl" and "ds' = (if has_snap w \<and> gone_slot (w_K w) d sl then insert (w_K w addr) ds else ds)"
  shows "obj_slot w ds' addr
    (Some (if suicided ob \<or> (d \<and> obj_empty (w_K w) ob) then ob\<lparr>deleted := True\<rparr> else finalise ob)) (fin_slot (w_K w) d sl)"
proof -
  have h: "address ob = addr" "addrHash ob = w_K w addr" using assms(1) by (auto simp: obj_slot_def)
  show ?thesis
  proof (cases "deleted ob")
    case True
    with assms(1) have "sl = Deleted" "w_snap w \<noteq> None \<longrightarrow> w_K w addr \<in> ds" by (auto simp: obj_slot_def)
    with assms(2) True h show ?thesis by (auto simp: obj_slot_def fin_slot_def gone_slot_def finalise_def)
  next
    case False
    with assms(1) obtain x where x: "sl = Live x" "obj_abs w ds ob x" by (auto simp: obj_slot_def)
    have g: "suicided ob \<or> (d \<and> obj_empty (w_K w) ob) \<longleftrightarrow> gone (w_K w) d x"
      using obj_empty_abs [OF x(2)] x(2) by (auto simp: gone_def obj_abs_def obj_at_def)
    show ?thesis
      using assms(2) h False x obj_abs_finalise [OF x(2)] unfolding g
      by (auto simp: obj_slot_def fin_slot_def gone_slot_def has_snap_def) (simp_all add: finalise_def)
  qed
qed

lemma gone_slot_obj:
  assumes "obj_slot w ds addr (Some ob) sl"
  shows "suicided ob \<or> (d \<and> obj_empty (w_K w) ob) \<Longrightarrow> has_snap w \<Longrightarrow> gone_slot (w_K w) d sl \<or> w_K w addr \<in> ds"
    and "\<not> (suicided ob \<or> (d \<and> obj_empty (w_K w) ob)) \<Longrightarrow> \<not> gone_slot (w_K w) d sl"
proof -
  have g: "suicided ob \<or> (d \<and> obj_empty (w_K w) ob) \<longleftrightarrow> gone (w_K w) d x" if "obj_abs w ds ob x" for x
    using obj_empty_abs [OF that] that by (auto simp: gone_def obj_abs_def obj_at_def)
  show "suicided ob \<or> (d \<and> obj_empty (w_K w) ob) \<Longrightarrow> has_snap w \<Longrightarrow> gone_slot (w_K w) d sl \<or> w_K w addr \<in> ds"
    using assms g by (auto simp: obj_slot_def gone_slot_def has_snap_def split: if_splits)
  show "\<not> (suicided ob \<or> (d \<and> obj_empty (w_K w) ob)) \<Longrightarrow> \<not> gone_slot (w_K w) d sl"
    using assms g by (auto simp: obj_slot_def gone_slot_def split: if_splits)
qed

lemma finalise_addr_core:
  assumes K: "inj_on (w_K w) {addr. addr_ok addr}" and T: "\<forall>a' \<in> T. addr_ok a'"
    and s: "core w s (fin (w_K w) (has_snap w) d T a)"
    and addr: "addr_ok addr" "addr \<in> touched a" "addr \<notin> T"
  shows "core w (finalise_addr (w_K w) d addr s) (fin (w_K w) (has_snap w) d (insert addr T) a) \<and>
    meta (finalise_addr (w_K w) d addr s) = meta s"
proof -
  let ?b = "fin (w_K w) (has_snap w) d T a" and ?c = "fin (w_K w) (has_snap w) d (insert addr T) a"
  let ?s = "finalise_addr (w_K w) d addr s"
  have b: "touched ?b = touched a" "accounts ?b addr = accounts a addr" using addr(3) by (simp_all add: fin_def)
  obtain ob where ob: "stateObjects s addr = Some ob" using s addr(2) b(1) by (auto simp: core_def)
  have slot: "obj_slot w (destructs ?b) addr (Some ob) (accounts a addr)"
    using core_slot [OF s addr(1)] ob b(2) by (simp add: cur_def)
  have h: "address ob = addr" "addrHash ob = w_K w addr" using slot by (auto simp: obj_slot_def)
  have sn: "snap s = w_snap w" "snapDestructs s = destructs ?b" using core_views [OF s] by auto
  have ds: "destructs ?c = (if has_snap w \<and> gone_slot (w_K w) d (accounts a addr) then insert (w_K w addr) (destructs ?b) else destructs ?b)"
    by (auto simp: fin_def)
  note g = gone_slot_obj [OF slot, of d]
  have so: "stateObjects ?s = (stateObjects s)(addr \<mapsto>
      (if suicided ob \<or> (d \<and> obj_empty (w_K w) ob) then ob\<lparr>deleted := True\<rparr> else finalise ob))"
    using ob by (simp add: finalise_addr_def Let_def)
  have sd: "snapDestructs ?s = destructs ?c"
    using ob sn h g unfolding ds by (auto simp: finalise_addr_def Let_def has_snap_def insert_absorb)
  have "core w ?s (?b\<lparr>destructs := destructs ?c, accounts := (accounts ?b)(addr := fin_slot (w_K w) d (accounts a addr)), touched := touched a\<rparr>)"
  proof (rule core_replace [OF s])
    show "w_K w a' \<in> destructs ?c \<longleftrightarrow> w_K w a' \<in> destructs ?b" if "addr_ok a'" "a' \<noteq> addr" for a'
      using inj_onD [OF K, of a' addr] that addr(1) by (auto simp: ds)
    show "obj_slot w (destructs ?c) addr (cur w ?s addr) (fin_slot (w_K w) d (accounts a addr))"
      using obj_slot_finalise [OF slot ds] by (simp add: cur_def so)
    show "same_rest ?s s" using ob by (simp add: same_rest_def finalise_addr_def Let_def)
  qed (use so sd b in auto)
  moreover have "?b\<lparr>destructs := destructs ?c, accounts := (accounts ?b)(addr := fin_slot (w_K w) d (accounts a addr)), touched := touched a\<rparr> = ?c"
    by (auto simp: fin_def fun_eq_iff)
  moreover have "meta ?s = meta s" using ob by (simp add: meta_def finalise_addr_def Let_def)
  ultimately show ?thesis by simp
qed

end
