(* ===== verification/State_Simulation.thy ===== *)
theory State_Simulation
  imports State_Snapshot
begin

text \<open>
  Every operation of the state follows its specification: the end of a transaction, the single
  operations, runs of them, and what that gives for snapshots.
\<close>

subsection \<open>The end of a transaction\<close>

lemma fold_finalise_core:
  assumes K: "inj_on (w_K w) {addr. addr_ok addr}" and T: "\<forall>a' \<in> T. addr_ok a'"
    and s: "core w s (fin (w_K w) (has_snap w) d T a)"
    and addrs: "distinct addrs" "set addrs \<inter> T = {}" "set addrs \<subseteq> touched a" "\<forall>a' \<in> touched a. addr_ok a'"
  shows "core w (fold (finalise_addr (w_K w) d) addrs s) (fin (w_K w) (has_snap w) d (T \<union> set addrs) a) \<and>
    meta (fold (finalise_addr (w_K w) d) addrs s) = meta s"
  using T s addrs(1,2,3)
proof (induction addrs arbitrary: T s)
  case (Cons addr addrs)
  have addr: "addr_ok addr" "addr \<in> touched a" "addr \<notin> T" using Cons.prems addrs(4) by auto
  note 1 = finalise_addr_core [OF K Cons.prems(1,2) addr]
  have "core w (fold (finalise_addr (w_K w) d) addrs (finalise_addr (w_K w) d addr s))
      (fin (w_K w) (has_snap w) d (insert addr T \<union> set addrs) a) \<and>
    meta (fold (finalise_addr (w_K w) d) addrs (finalise_addr (w_K w) d addr s)) = meta (finalise_addr (w_K w) d addr s)"
    using Cons.prems addr 1 by (intro Cons.IH) auto
  with 1 show ?case by simp
qed simp

lemma fin_none: "fin K sn d {} a = a"
  by (simp add: fin_def)

lemma core_clear:
  assumes "core w s a" and "entries (s_journal s) = [] \<Longrightarrow> a_refund a = 0"
  shows "core w (clearJournalAndRefund s) (a\<lparr>touched := {}, a_refund := 0\<rparr>)"
  using assms by (auto simp: clearJournalAndRefund_def core_def over_def cur_def GetLogs_def)

lemma sim_Finalise:
  assumes w: "world_ok w" and s: "sim w s A" and ok: "\<forall>a' \<in> touched (now A). addr_ok a'"
    and addrs: "distinct addrs" "set addrs = touched (now A)"
  shows "sim w (Finalise (w_K w) d addrs s) (A\<lparr>now := finish (w_K w) (has_snap w) d (now A), saved := []\<rparr>)"
proof -
  let ?s = "fold (finalise_addr (w_K w) d) addrs s" and ?a = "now A"
  let ?b = "fin (w_K w) (has_snap w) d (touched ?a) ?a"
  have K: "inj_on (w_K w) {addr. addr_ok addr}" using w by (simp add: world_ok_def)
  have c: "core w s ?a" "jd_ok (s_journal s)" "tx A = (thash s, bhash s, s_txIndex s)" "nextRevisionId s = next_id A"
    using s by (simp_all add: sim_def)
  have f: "core w ?s ?b" "meta ?s = meta s"
    using fold_finalise_core [OF K, of "{}" s d ?a addrs] c(1) addrs ok by (simp_all add: fin_none)
  have r: "a_refund ?b = 0" if "entries (s_journal s) = []"
    using s that by (auto simp: sim_def fin_def)
  have "core w (Finalise (w_K w) d addrs s) (finish (w_K w) (has_snap w) d ?a)"
    unfolding Finalise_def finish_fin using f r by (intro core_clear) (simp_all add: meta_def)
  moreover have "touched (finish (w_K w) (has_snap w) d ?a) = {}" "a_refund (finish (w_K w) (has_snap w) d ?a) = 0"
    by (simp_all add: finish_fin)
  moreover have "jd_ok (s_journal (Finalise (w_K w) d addrs s))" "entries (s_journal (Finalise (w_K w) d addrs s)) = []"
    using c(2) f(2) jd_ok_new by (auto simp: Finalise_def clearJournalAndRefund_def meta_def newJournal_def)
  ultimately show ?thesis
    using c f(2) unfolding sim_def
    by (intro conjI exI [of _ "finish (w_K w) (has_snap w) d ?a"] exI [of _ "[]"])
      (auto simp: Finalise_def clearJournalAndRefund_def meta_def revisions_ok_def)
qed

subsection \<open>Single operations\<close>

fun op_ok :: "state_op \<Rightarrow> bool" where
  "op_ok (OExist a) = addr_ok a"
| "op_ok (OEmpty a) = addr_ok a"
| "op_ok (OGetBalance a) = addr_ok a"
| "op_ok (OGetNonce a) = addr_ok a"
| "op_ok (OGetCode a) = addr_ok a"
| "op_ok (OGetCodeSize a) = addr_ok a"
| "op_ok (OGetCodeHash a) = addr_ok a"
| "op_ok (OGetState a k) = addr_ok a"
| "op_ok (OGetCommittedState a k) = addr_ok a"
| "op_ok (OHasSuicided a) = addr_ok a"
| "op_ok (OCreateAccount a) = addr_ok a"
| "op_ok (OAddBalance a v) = addr_ok a"
| "op_ok (OSubBalance a v) = addr_ok a"
| "op_ok (OSetBalance a v) = addr_ok a"
| "op_ok (OSetNonce a n) = addr_ok a"
| "op_ok (OSetCode a c) = addr_ok a"
| "op_ok (OSetState a k v) = addr_ok a"
| "op_ok (OSuicide a) = addr_ok a"
| "op_ok _ = True"

definition follows :: "world \<Rightarrow> state_op \<Rightarrow> StateDB \<Rightarrow> answer \<times> spec \<Rightarrow> bool" where
  "follows w p s rA \<longleftrightarrow> (\<exists>s'. exec_op (w_K w) p s = Some (fst rA, s') \<and> sim w s' (snd rA))"

lemma follows_asks:
  assumes "sim w s A" and "exec_op (w_K w) p s = map_option (apfst C) f"
    and "\<exists>s'. f = Some (g (live (now A) addr), s') \<and> core w s' (now A) \<and> meta s' = meta s"
  shows "follows w p s (C (g (live (now A) addr)), A)"
  using assms sim_read [OF assms(1)] by (auto simp: follows_def)

lemma follows_does:
  assumes "sim w s A" and "exec_op (w_K w) p s = map_option (Pair Done) f"
    and "\<exists>s'. f = Some s' \<and> journals w s (now A) s' b"
  shows "follows w p s (Done, A\<lparr>now := b\<rparr>)"
  using assms sim_journals [OF assms(1)] by (auto simp: follows_def)

lemma step_asks:
  assumes s: "sim w s A" and a: "addr_ok a"
  shows "follows w (OExist a) s (the (spec_op (w_K w) sn (OExist a) A))"
    and "follows w (OEmpty a) s (the (spec_op (w_K w) sn (OEmpty a) A))"
    and "follows w (OGetBalance a) s (the (spec_op (w_K w) sn (OGetBalance a) A))"
    and "follows w (OGetNonce a) s (the (spec_op (w_K w) sn (OGetNonce a) A))"
    and "follows w (OGetCodeHash a) s (the (spec_op (w_K w) sn (OGetCodeHash a) A))"
    and "follows w (OHasSuicided a) s (the (spec_op (w_K w) sn (OHasSuicided a) A))"
proof -
  have c: "core w s (now A)" using s by (simp add: sim_def)
  note v = follows_asks [OF s, where addr = a] asks_value [OF c a]
  note d = obj_abs_def obj_at_def BytesToHash_32
  show "follows w (OExist a) s (the (spec_op (w_K w) sn (OExist a) A))"
    unfolding spec_op.simps asks_def option.sel by (rule v(1)) (simp, unfold Exist_def, rule v(2), auto)
  show "follows w (OEmpty a) s (the (spec_op (w_K w) sn (OEmpty a) A))"
    unfolding spec_op.simps asks_def option.sel
    by (rule v(1) [where C = Yes]) (simp, unfold Empty_def, rule v(2), auto simp: obj_empty_abs)
  show "follows w (OGetBalance a) s (the (spec_op (w_K w) sn (OGetBalance a) A))"
    unfolding spec_op.simps asks_def option.sel
    by (rule v(1) [where C = Num]) (simp, unfold GetBalance_def, rule v(2), auto simp: d)
  show "follows w (OGetNonce a) s (the (spec_op (w_K w) sn (OGetNonce a) A))"
    unfolding spec_op.simps asks_def option.sel
    by (rule v(1) [where C = Gas]) (simp, unfold GetNonce_def, rule v(2), auto simp: d)
  show "follows w (OGetCodeHash a) s (the (spec_op (w_K w) sn (OGetCodeHash a) A))"
    unfolding spec_op.simps asks_def option.sel
    by (rule v(1) [where C = Word32]) (simp, unfold GetCodeHash_def, rule v(2), auto simp: d)
  show "follows w (OHasSuicided a) s (the (spec_op (w_K w) sn (OHasSuicided a) A))"
    unfolding spec_op.simps asks_def option.sel
    by (rule v(1) [where C = Yes]) (simp, unfold HasSuicided_def, rule v(2), auto simp: d)
qed

lemma GetCode_object:
  "GetCode K addr s = do { (so, s) \<leftarrow> getStateObject K addr s;
     case so of None \<Rightarrow> Some (None, s)
     | Some ob \<Rightarrow> do { (v, ob) \<leftarrow> Some (obj_Code K (s_db s) ob); Some (v, setStateObject ob s) } }"
  unfolding GetCode_def
  by (rule Option.bind_cong) (auto split: option.splits prod.splits)

lemma GetCodeSize_object:
  "GetCodeSize K addr s = do { (so, s) \<leftarrow> getStateObject K addr s;
     case so of None \<Rightarrow> Some (0, s)
     | Some ob \<Rightarrow> do { (v, ob) \<leftarrow> Some (obj_CodeSize K (s_db s) ob); Some (v, setStateObject ob s) } }"
  unfolding GetCodeSize_def
  by (rule Option.bind_cong) (auto split: option.splits prod.splits)

lemma step_loads:
  assumes s: "sim w s A" and a: "addr_ok a"
  shows "follows w (OGetCode a) s (the (spec_op (w_K w) sn (OGetCode a) A))"
    and "follows w (OGetCodeSize a) s (the (spec_op (w_K w) sn (OGetCodeSize a) A))"
    and "follows w (OGetState a k) s (the (spec_op (w_K w) sn (OGetState a k) A))"
    and "follows w (OGetCommittedState a k) s (the (spec_op (w_K w) sn (OGetCommittedState a k) A))"
proof -
  have c: "core w s (now A)" using s by (simp add: sim_def)
  note v = follows_asks [OF s, where addr = a] asks_object [OF c a]
  show "follows w (OGetCode a) s (the (spec_op (w_K w) sn (OGetCode a) A))"
    unfolding spec_op.simps asks_def option.sel
  proof (rule v(1) [where C = Blob and f = "GetCode (w_K w) a s"])
    show "\<exists>s'. GetCode (w_K w) a s = Some (case live (now A) a of None \<Rightarrow> None | Some x \<Rightarrow> a_code x, s') \<and>
        core w s' (now A) \<and> meta s' = meta s"
      unfolding GetCode_object by (rule v(2)) (drule core_views, drule obj_Code_abs, auto)
  qed simp
  show "follows w (OGetCodeSize a) s (the (spec_op (w_K w) sn (OGetCodeSize a) A))"
    unfolding spec_op.simps asks_def option.sel
  proof (rule v(1) [where C = Size and f = "GetCodeSize (w_K w) a s"])
    show "\<exists>s'. GetCodeSize (w_K w) a s =
        Some (case live (now A) a of None \<Rightarrow> 0 | Some x \<Rightarrow> length (bytes_of (a_code x)), s') \<and>
        core w s' (now A) \<and> meta s' = meta s"
      unfolding GetCodeSize_object by (rule v(2)) (drule core_views, drule obj_CodeSize_abs, auto)
  qed simp
  show "follows w (OGetState a k) s (the (spec_op (w_K w) sn (OGetState a k) A))"
    unfolding spec_op.simps asks_def option.sel
  proof (rule v(1) [where C = Word32 and f = "GetState (w_K w) a k s"])
    show "\<exists>s'. GetState (w_K w) a k s = Some (case live (now A) a of None \<Rightarrow> zeroHash | Some x \<Rightarrow> a_store x k, s') \<and>
        core w s' (now A) \<and> meta s' = meta s"
      unfolding GetState_def by (rule v(2)) (drule core_views, rule obj_GetState_abs, auto)
  qed simp
  show "follows w (OGetCommittedState a k) s (the (spec_op (w_K w) sn (OGetCommittedState a k) A))"
    unfolding spec_op.simps asks_def option.sel
  proof (rule v(1) [where C = Word32 and f = "GetCommittedState (w_K w) a k s"])
    show "\<exists>s'. GetCommittedState (w_K w) a k s =
        Some (case live (now A) a of None \<Rightarrow> zeroHash | Some x \<Rightarrow> a_committed x k, s') \<and>
        core w s' (now A) \<and> meta s' = meta s"
      unfolding GetCommittedState_def by (rule v(2)) (drule core_views, rule obj_GetCommittedState_abs, auto)
  qed simp
qed

lemma SetBalance_bind:
  "SetBalance K addr v s = do { (ob, s) \<leftarrow> GetOrNewStateObject K addr s;
     (ob, s) \<leftarrow> Some (obj_SetBalance v ob s); Some (setStateObject ob s) }"
  unfolding SetBalance_def by (rule Option.bind_cong) (auto simp: Let_def)

lemma step_writes:
  assumes w: "world_ok w" and s: "sim w s A" and a: "addr_ok a"
  shows "follows w (OCreateAccount a) s (the (spec_op (w_K w) (has_snap w) (OCreateAccount a) A))"
    and "follows w (OAddBalance a v) s (the (spec_op (w_K w) (has_snap w) (OAddBalance a v) A))"
    and "follows w (OSubBalance a v) s (the (spec_op (w_K w) (has_snap w) (OSubBalance a v) A))"
    and "follows w (OSetBalance a v) s (the (spec_op (w_K w) (has_snap w) (OSetBalance a v) A))"
    and "follows w (OSetNonce a n) s (the (spec_op (w_K w) (has_snap w) (OSetNonce a n) A))"
    and "follows w (OSetCode a c) s (the (spec_op (w_K w) (has_snap w) (OSetCode a c) A))"
    and "follows w (OSetState a k z) s (the (spec_op (w_K w) (has_snap w) (OSetState a k z) A))"
proof -
  have co: "core w s (now A)" using s by (simp add: sim_def)
  note d = follows_does [OF s]
  show "follows w (OCreateAccount a) s (the (spec_op (w_K w) (has_snap w) (OCreateAccount a) A))"
    unfolding spec_op.simps does_def option.sel by (rule d [OF _ CreateAccount_writes [OF w co a]]) simp
  show "follows w (OAddBalance a v) s (the (spec_op (w_K w) (has_snap w) (OAddBalance a v) A))"
    unfolding spec_op.simps does_def option.sel by (rule d [OF _ AddBalance_writes [OF w co a]]) simp
  show "follows w (OSubBalance a v) s (the (spec_op (w_K w) (has_snap w) (OSubBalance a v) A))"
    unfolding spec_op.simps does_def option.sel by (rule d [OF _ SubBalance_writes [OF w co a]]) simp
  show "follows w (OSetBalance a v) s (the (spec_op (w_K w) (has_snap w) (OSetBalance a v) A))"
    unfolding spec_op.simps does_def option.sel
    by (rule d [OF _ SetBalance_writes [OF w co a, of "\<lambda>_. v"]]) (simp add: SetBalance_bind)
  show "follows w (OSetNonce a n) s (the (spec_op (w_K w) (has_snap w) (OSetNonce a n) A))"
    unfolding spec_op.simps does_def option.sel by (rule d [OF _ SetNonce_writes [OF w co a]]) simp
  show "follows w (OSetCode a c) s (the (spec_op (w_K w) (has_snap w) (OSetCode a c) A))"
    unfolding spec_op.simps does_def option.sel by (rule d [OF _ SetCode_writes [OF w co a]]) simp
  show "follows w (OSetState a k z) s (the (spec_op (w_K w) (has_snap w) (OSetState a k z) A))"
    unfolding spec_op.simps does_def option.sel by (rule d [OF _ SetState_writes [OF w co a]]) simp
qed

lemma follows_logs:
  assumes "sim w s A"
  shows "follows w (OAddLog lg) s (the (spec_op K sn (OAddLog lg) A))"
    and "follows w (OAddPreimage h q) s (the (spec_op K sn (OAddPreimage h q) A))"
    and "follows w (OAddRefund g) s (the (spec_op K sn (OAddRefund g) A))"
    and "follows w (OGetLogs h) s (LogList (a_logs (now A) h), A)"
    and "follows w OGetRefund s (Gas (a_refund (now A)), A)"
    and "follows w (OPreimage h) s (Blob (a_preimages (now A) h), A)"
proof -
  have co: "core w s (now A)" "tx A = (thash s, bhash s, s_txIndex s)" using assms by (simp_all add: sim_def)
  have v: "GetLogs h s = a_logs (now A) h" "refund s = a_refund (now A)" "s_preimages s = a_preimages (now A)"
    using co(1) by (simp_all add: core_def)
  note j = sim_journals [OF assms]
  show "follows w (OAddLog lg) s (the (spec_op K sn (OAddLog lg) A))"
    using j [OF AddLog_writes [OF co(1)]] co(2) by (simp add: follows_def does_def)
  show "follows w (OAddPreimage h q) s (the (spec_op K sn (OAddPreimage h q) A))"
    using j [OF AddPreimage_writes [OF co(1)]] by (simp add: follows_def does_def)
  show "follows w (OAddRefund g) s (the (spec_op K sn (OAddRefund g) A))"
    using j [OF AddRefund_writes(1) [OF co(1)]] by (simp add: follows_def does_def)
  show "follows w (OGetLogs h) s (LogList (a_logs (now A) h), A)" "follows w OGetRefund s (Gas (a_refund (now A)), A)"
    "follows w (OPreimage h) s (Blob (a_preimages (now A) h), A)"
    using assms v by (simp_all add: follows_def)
qed

definition spec_ok :: "spec \<Rightarrow> bool" where
  "spec_ok A \<longleftrightarrow> (\<forall>c \<in> insert (now A) (snd ` set (saved A)). \<forall>a \<in> touched c. addr_ok a)"

lemma touched_get_or_new: "touched (snd (get_or_new K sn addr a)) \<subseteq> insert addr (touched a)"
  by (auto simp: get_or_new_def create_def split: option.splits)

lemma touched_change: "touched (change K sn addr f a) = insert addr (touched (snd (get_or_new K sn addr a)))"
  by (simp add: change_def split: prod.splits)

lemma spec_ok_now: "spec_ok A \<Longrightarrow> (\<forall>a \<in> touched b. addr_ok a) \<Longrightarrow> spec_ok (A\<lparr>now := b\<rparr>)"
  by (simp add: spec_ok_def)

lemma touched_op:
  assumes "op_ok p" and ok: "\<forall>a \<in> touched (now A). addr_ok a" and "\<And>i. p \<noteq> ORevert i"
    and "spec_op K sn p A = Some (r, A')"
  shows "\<forall>a \<in> touched (now A'). addr_ok a"
proof -
  have g: "\<forall>a' \<in> touched (snd (get_or_new K sn a (now A))). addr_ok a'" if "addr_ok a" for a
    using ok that touched_get_or_new [of K sn a "now A"] by auto
  then have c: "\<forall>a' \<in> touched (change K sn a f (now A)). addr_ok a'" if "addr_ok a" for a f
    using that by (simp add: touched_change)
  show ?thesis
  proof (cases p)
    case (OCreateAccount a)
    with assms show ?thesis by (auto simp: does_def create_def Let_def split: if_splits)
  next
    case (OAddBalance a v)
    with assms have a: "addr_ok a" by simp
    from OAddBalance assms(4) c [OF a] g [OF a] a show ?thesis by (auto simp: does_def case_prod_beta split: if_splits)
  next
    case (OSubBalance a v)
    with assms have a: "addr_ok a" by simp
    from OSubBalance assms(4) c [OF a] g [OF a] show ?thesis by (auto simp: does_def split: if_splits)
  next
    case (OSetState a k v)
    with assms have a: "addr_ok a" by simp
    from OSetState assms(4) c [OF a] g [OF a] show ?thesis by (auto simp: does_def case_prod_beta split: if_splits)
  next
    case (OSuicide a)
    with assms have a: "addr_ok a" by simp
    from OSuicide assms(4) c [OF a] ok show ?thesis by (auto split: option.splits)
  next
    case (OSetBalance a v)
    with assms have a: "addr_ok a" by simp
    from OSetBalance assms(4) c [OF a] show ?thesis by (auto simp: does_def)
  next
    case (OSetNonce a v)
    with assms have a: "addr_ok a" by simp
    from OSetNonce assms(4) c [OF a] show ?thesis by (auto simp: does_def)
  next
    case (OSetCode a v)
    with assms have a: "addr_ok a" by simp
    from OSetCode assms(4) c [OF a] show ?thesis by (auto simp: does_def)
  next
    case (OSubRefund x)
    with assms show ?thesis by (auto simp: does_def split: if_splits)
  next
    case (OFinalise x xs)
    with assms show ?thesis by (auto simp: finish_def Let_def split: if_splits)
  qed (use assms in \<open>auto simp: asks_def does_def Let_def case_prod_beta split: if_splits\<close>)
qed

lemma saved_op:
  assumes "spec_op K sn p A = Some (r, A')"
  shows "set (saved A') \<subseteq> insert (next_id A, now A) (set (saved A)) \<and> next_id A \<le> next_id A'"
proof (cases "\<exists>i. p = ORevert i")
  case True
  then obtain i c where "p = ORevert i" and
    A': "A' = A\<lparr>now := c, saved := takeWhile (\<lambda>p. fst p \<noteq> i) (saved A)\<rparr>"
    using assms by (auto split: option.splits)
  show ?thesis unfolding A' by (auto dest: set_takeWhileD)
next
  case False
  with assms show ?thesis by (cases p) (auto simp: asks_def does_def split: if_splits option.splits)
qed

lemma spec_ok_op:
  assumes "op_ok p" and ok: "spec_ok A" and "spec_op K sn p A = Some (r, A')"
  shows "spec_ok A'"
proof (cases "\<exists>i. p = ORevert i")
  case True
  then obtain i c where "p = ORevert i" "map_of (saved A) i = Some c" and
    A': "A' = A\<lparr>now := c, saved := takeWhile (\<lambda>p. fst p \<noteq> i) (saved A)\<rparr>"
    using assms(3) by (auto split: option.splits)
  then have "(i, c) \<in> set (saved A)" by (simp add: map_of_SomeD)
  with ok show ?thesis unfolding A' spec_ok_def by (auto dest: set_takeWhileD)
next
  case False
  then have "\<forall>a \<in> touched (now A'). addr_ok a"
    using touched_op [OF assms(1) _ _ assms(3)] ok by (auto simp: spec_ok_def)
  with saved_op [OF assms(3)] show ?thesis using ok by (auto simp: spec_ok_def)
qed

lemma step_other:
  assumes w: "world_ok w" and s: "sim w s A" and ok: "spec_ok A" and p: "op_ok p"
    and "spec_op (w_K w) (has_snap w) p A = Some rA"
    and q: "(\<exists>a. p = OSuicide a) \<or> (\<exists>g. p = OSubRefund g) \<or> p = OSnapshot \<or> (\<exists>i. p = ORevert i) \<or>
      (\<exists>d as. p = OFinalise d as) \<or> (\<exists>th bh ti. p = OPrepare th bh ti)"
  shows "follows w p s rA"
proof -
  have co: "core w s (now A)" using s by (simp add: sim_def)
  note j = sim_journals [OF s]
  from q consider a where "p = OSuicide a" | g where "p = OSubRefund g" | "p = OSnapshot" | i where "p = ORevert i"
    | d as where "p = OFinalise d as" | th bh ti where "p = OPrepare th bh ti" by blast
  then show ?thesis
  proof cases
    case (1 a)
    with Suicide_writes [OF co, of a] p obtain s' where
      s': "Suicide (w_K w) a s = Some (live (now A) a \<noteq> None, s')" "journals w s (now A) s'
        (case live (now A) a of None \<Rightarrow> now A
         | Some x \<Rightarrow> change (w_K w) (has_snap w) a (\<lambda>x. x\<lparr>a_suicided := True, a_balance := 0\<rparr>) (now A))" by auto
    with j [OF s'(2)] assms(5) 1 show ?thesis
      by (cases "live (now A) a") (auto simp: follows_def)
  next
    case (2 g)
    with assms(5) have g: "\<not> a_refund (now A) < g" "rA = (Done, A\<lparr>now := now A\<lparr>a_refund := a_refund (now A) - g\<rparr>\<rparr>)"
      by (auto simp: does_def split: if_splits)
    from AddRefund_writes(2) [OF co g(1)] obtain s' where "SubRefund g s = Some s'"
      "journals w s (now A) s' (now A\<lparr>a_refund := a_refund (now A) - g\<rparr>)" by blast
    with 2 g(2) j show ?thesis by (simp add: follows_def)
  next
    case 3
    have "nextRevisionId s = next_id A" using s by (simp add: sim_def)
    with 3 assms(5) sim_Snapshot [OF s] show ?thesis by (auto simp: follows_def Snapshot_id_def Let_def)
  next
    case (4 i)
    with assms(5) sim_Revert [OF s, of i] show ?thesis by (auto simp: follows_def split: option.splits)
  next
    case (5 d as)
    have "\<forall>a' \<in> touched (now A). addr_ok a'" using ok by (simp add: spec_ok_def)
    with assms(5) 5 sim_Finalise [OF w s, of as d] show ?thesis by (auto simp: follows_def split: if_splits)
  next
    case (6 th bh ti)
    have "sim w (Prepare th bh ti s) (A\<lparr>tx := (th, bh, ti)\<rparr>)"
    proof -
      have "core w (Prepare th bh ti s) (now A)" using co by (simp add: Prepare_def core_def over_def cur_def GetLogs_def)
      with s show ?thesis unfolding sim_def Prepare_def by (elim conjE, intro conjI) simp_all
    qed
    with assms(5) 6 show ?thesis by (auto simp: follows_def)
  qed
qed

lemma step_sim:
  assumes w: "world_ok w" and s: "sim w s A" and ok: "spec_ok A" and p: "op_ok p"
    and e: "spec_op (w_K w) (has_snap w) p A = Some rA"
  shows "follows w p s rA"
proof -
  have t: "the (spec_op (w_K w) (has_snap w) p A) = rA" using e by simp
  show ?thesis
  proof (cases p)
    case (OSuicide a)
    then show ?thesis by (intro step_other [OF assms]) auto
  next
    case (OSubRefund a)
    then show ?thesis by (intro step_other [OF assms]) auto
  next
    case OSnapshot
    then show ?thesis by (intro step_other [OF assms]) auto
  next
    case (ORevert a)
    then show ?thesis by (intro step_other [OF assms]) auto
  next
    case (OFinalise d as)
    then show ?thesis by (intro step_other [OF assms]) auto
  next
    case (OPrepare a b c)
    then show ?thesis by (intro step_other [OF assms]) auto
  qed (use t p step_asks [OF s] step_loads [OF s] step_writes [OF w s] follows_logs [OF s] in \<open>auto simp del: exec_op.simps\<close>)
qed

lemma run_sim:
  assumes w: "world_ok w" and "sim w s A" and "spec_ok A" and "\<forall>p \<in> set ps. op_ok p"
    and "run_spec (w_K w) (has_snap w) ps A = Some (rs, A')"
  shows "\<exists>s'. run_state (w_K w) ps s = Some (rs, s') \<and> sim w s' A' \<and> spec_ok A'"
  using assms(2-5)
proof (induction ps arbitrary: s A rs)
  case (Cons p ps)
  from Cons.prems(4) obtain r A1 rs1 where 1: "spec_op (w_K w) (has_snap w) p A = Some (r, A1)"
    "run_spec (w_K w) (has_snap w) ps A1 = Some (rs1, A')" "rs = r # rs1" by (auto split: Option.bind_splits)
  have p: "op_ok p" using Cons.prems(3) by simp
  from step_sim [OF w Cons.prems(1,2) p 1(1)] obtain s1 where
    s1: "exec_op (w_K w) p s = Some (r, s1)" "sim w s1 A1" by (auto simp: follows_def)
  from Cons.IH [OF s1(2) spec_ok_op [OF p Cons.prems(2) 1(1)] _ 1(2)] Cons.prems(3) s1(1) 1(3) show ?case by auto
qed simp

end
