(* ===== verification/State_Theorems.thy ===== *)
theory State_Theorems
  imports State_Simulation
begin

text \<open>
  What the simulation gives for a state that \<open>New\<close> opened: all answers are those of the table
  of accounts, undoing a snapshot restores every answer, an unknown snapshot is refused, and the
  journal counts the accounts that the end of the transaction visits.
\<close>

subsection \<open>A state just opened\<close>

definition start_slot :: "world \<Rightarrow> bytes \<Rightarrow> slot \<Rightarrow> bool" where
  "start_slot w addr sl \<longleftrightarrow>
     (case found w addr of
       None \<Rightarrow> sl = Absent
     | Some acc \<Rightarrow>
         let h = bytes_of (CodeHash acc);
             rt = (if Root acc = zeroHash then emptyRoot else Root acc)
         in \<exists>m. trie_at w None rt m \<and>
              sl = Live \<lparr>a_nonce = Nonce acc, a_balance = Balance acc, a_codehash = h, a_code = code_of w None h,
                a_store = disk w {} (w_K w addr) m, a_committed = disk w {} (w_K w addr) m, a_suicided = False\<rparr>)"

definition starts :: "world \<Rightarrow> spec \<Rightarrow> bool" where
  "starts w A \<longleftrightarrow>
     saved A = [] \<and> next_id A = 0 \<and> tx A = (zeroHash, zeroHash, 0) \<and> destructs (now A) = {} \<and> touched (now A) = {} \<and>
     a_refund (now A) = 0 \<and> a_logs (now A) = (\<lambda>_. []) \<and> a_logSize (now A) = 0 \<and> a_preimages (now A) = Map.empty \<and>
     (\<forall>addr. addr_ok addr \<longrightarrow> start_slot w addr (accounts (now A) addr))"

text \<open>\<open>NewState\<close> opens the state trie at \<open>rt\<close>, whose contents are those of the world.\<close>

definition opened :: "world \<Rightarrow> bytes \<Rightarrow> StateDB \<Rightarrow> bool" where
  "opened w rt s \<longleftrightarrow> NewState rt (w_db w) (w_snap w) = Inr s \<and> rep w (s_trie s) (w_map w)"

lemma opened_eq:
  "opened w rt s \<Longrightarrow> s = \<lparr>s_db = w_db w, s_trie = s_trie s, snap = w_snap w, snapDestructs = {}, snapAccounts = Map.empty,
     snapStorage = Map.empty, stateObjects = Map.empty, stateObjectsPending = {}, stateObjectsDirty = {},
     s_dbErr = None, refund = 0, thash = zeroHash, bhash = zeroHash, s_txIndex = 0, logs = Map.empty, logSize = 0,
     s_preimages = Map.empty, s_journal = newJournal, validRevisions = [], nextRevisionId = 0\<rparr>"
  by (auto simp: opened_def NewState_def split: sum.splits)

lemma start_obj_slot:
  assumes "world_ok w" and "addr_ok addr" and "start_slot w addr sl"
  shows "obj_slot w {} addr (map_option (newObject (w_K w) addr) (found w addr)) sl"
proof (cases "found w addr")
  case None
  with assms(3) show ?thesis by (simp add: start_slot_def obj_slot_def)
next
  case (Some acc)
  with assms(1,2) have h: "length (bytes_of (CodeHash acc)) = 32" by (auto simp: world_ok_def split: option.splits)
  then have c: "CodeHash acc = Some (bytes_of (CodeHash acc))" by (cases "CodeHash acc") (auto simp: bytes_of_def)
  with Some h assms(3) show ?thesis
    by (auto simp: start_slot_def obj_slot_def obj_abs_def obj_at_def newObject_def Let_def)
qed

lemma starts_sim:
  assumes "world_ok w" and "opened w rt s" and "starts w A"
  shows "sim w s A" and "spec_ok A"
proof -
  note e = opened_eq [OF assms(2)]
  have f: "s_db s = w_db w" "snap s = w_snap w" "snapDestructs s = {}" "stateObjects s = Map.empty" "refund s = 0"
    "thash s = zeroHash" "bhash s = zeroHash" "s_txIndex s = 0" "logs s = Map.empty" "logSize s = 0"
    "s_preimages s = Map.empty" "s_journal s = newJournal" "validRevisions s = []" "nextRevisionId s = 0"
    by (subst e, simp)+
  have "cur w s = (\<lambda>addr. map_option (newObject (w_K w) addr) (found w addr))" by (simp add: cur_def f fun_eq_iff)
  then have "core w s (now A)"
    using assms start_obj_slot [OF assms(1)] by (simp add: core_def over_def f starts_def opened_def GetLogs_def)
  moreover have "entries (s_journal s) = []" "jd_ok (s_journal s)" using jd_ok_new by (simp_all add: f newJournal_def)
  ultimately show "sim w s A"
    using assms(3) unfolding sim_def starts_def
    by (intro conjI exI [of _ "now A"] exI [of _ "[]"]) (simp_all add: f revisions_ok_def)
  show "spec_ok A" using assms(3) by (simp add: spec_ok_def starts_def)
qed

subsection \<open>A concrete world\<close>

text \<open>An empty state over an empty database, for the witnesses.\<close>

definition sample_world :: world where
  "sample_world = \<lparr>w_K = (\<lambda>x. take 32 (x @ replicate 32 0)), w_db = NewDatabase Map.empty,
     w_H = hashes (\<lambda>x. take 32 (x @ replicate 32 0)), w_A = (\<lambda>_. True), w_snap = None, w_map = Map.empty\<rparr>"

definition sample_spec :: spec where
  "sample_spec = \<lparr>now = \<lparr>accounts = (\<lambda>_. Absent), destructs = {}, touched = {}, a_refund = 0,
     a_logs = (\<lambda>_. []), a_logSize = 0, a_preimages = Map.empty\<rparr>,
     saved = [], next_id = 0, tx = (zeroHash, zeroHash, 0)\<rparr>"

definition sample_addr :: bytes where
  "sample_addr = replicate 20 1"

lemma sample_found: "found sample_world addr = None"
  by (simp add: found_def in_trie_def sample_world_def bytes_of_def)

lemma sample_world_ok: "world_ok sample_world"
proof -
  have "inj_on (w_K sample_world) {addr. addr_ok addr}"
    by (rule inj_onI) (simp add: sample_world_def)
  moreover have "digest32 (w_K sample_world)" by (simp add: digest32_def sample_world_def min_def)
  ultimately show ?thesis by (simp add: world_ok_def sample_found) (simp add: sample_world_def)
qed

lemma sample_starts: "starts sample_world sample_spec"
  by (simp add: starts_def sample_spec_def start_slot_def sample_found)

definition sample_state :: StateDB where
  "sample_state =
     (case NewState emptyRoot (NewDatabase Map.empty) None of Inr s \<Rightarrow> s)"

lemma sample_opened: "opened sample_world emptyRoot sample_state"
  using holds_New
  by (simp add: opened_def sample_state_def NewState_def NewSecure_def New_def sample_world_def rep_def secure_holds_def)

lemma sample_has_snap: "has_snap sample_world = False"
  by (simp add: has_snap_def sample_world_def)

lemmas sample_opens = sample_world_ok sample_opened sample_starts

lemmas run_defs = asks_def does_def live_def change_def get_or_new_def create_def fresh_def set_account_def
  set_touched_def Let_def sample_spec_def sample_has_snap finish_def is_empty_def

subsection \<open>Refinement\<close>



subsection \<open>Undoing\<close>





lemma sim_revision_ids:
  assumes "sim w s A"
  shows "fst ` set (validRevisions s) = fst ` set (saved A)"
proof -
  from assms obtain hist where "revisions_ok hist (validRevisions s) (saved A)" unfolding sim_def by blast
  then have "list_all2 (\<lambda>v c. fst v = fst c) (validRevisions s) (saved A)"
    by (auto simp: revisions_ok_def elim: list_all2_mono)
  then have "map fst (validRevisions s) = map fst (saved A)"
    by (simp add: list_all2_conv_all_nth list_eq_iff_nth_eq)
  then show ?thesis by (metis list.set_map)
qed




subsection \<open>Calls that are refused\<close>

lemma sort_Search_le: "lo \<le> hi \<Longrightarrow> sort_Search f lo hi \<le> hi"
proof (induction f lo hi rule: sort_Search.induct)
  case (1 f lo hi)
  show ?case
  proof (cases "lo < hi")
    case True
    then have m: "lo \<le> (lo + hi) div 2" "(lo + hi) div 2 < hi" by simp_all
    with 1(1) [OF True refl] 1(2) [OF True refl]
    show ?thesis by (cases "f ((lo + hi) div 2)") (simp_all add: sort_Search.simps [of f lo hi] Let_def True)
  next
    case False
    with 1(3) show ?thesis by (subst sort_Search.simps) simp
  qed
qed

lemma sim_Revert_None:
  assumes "sim w s A" and "i \<notin> fst ` set (saved A)"
  shows "RevertToSnapshot K i s = None"
proof -
  let ?idx = "sort_Search (\<lambda>k. i \<le> fst (validRevisions s ! k)) 0 (length (validRevisions s))"
  have "?idx \<le> length (validRevisions s)" by (rule sort_Search_le) simp
  then consider "?idx = length (validRevisions s)" | "?idx < length (validRevisions s)" by linarith
  then show ?thesis
  proof cases
    case 2
    then have "fst (validRevisions s ! ?idx) \<in> fst ` set (validRevisions s)" by (intro imageI nth_mem)
    with assms(2) have "fst (validRevisions s ! ?idx) \<noteq> i" unfolding sim_revision_ids [OF assms(1)] by metis
    then show ?thesis by (simp add: RevertToSnapshot_def Let_def)
  qed (simp add: RevertToSnapshot_def Let_def)
qed

text \<open>
  C13: The two calls that the code refuses with a panic are refused exactly when the interface
  forbids them: undoing a snapshot that was never taken, was undone already or belongs to a
  transaction that has ended, and taking more gas from the refund counter than it holds.
\<close>

theorem StateDB_panics:
  assumes "world_ok w" and "opened w rt s" and "starts w A" and "\<forall>p \<in> set ps. op_ok p"
    and "run_spec (w_K w) (has_snap w) ps A = Some (rs, A')"
  shows "\<exists>s'. run_state (w_K w) ps s = Some (rs, s') \<and>
    (\<forall>i. RevertToSnapshot (w_K w) i s' = None \<longleftrightarrow> i \<notin> fst ` set (saved A')) \<and>
    (\<forall>g. SubRefund g s' = None \<longleftrightarrow> a_refund (now A') < g)"
proof -
  from run_sim [OF assms(1) starts_sim [OF assms(1-3)] assms(4,5)] obtain s' where
    s': "run_state (w_K w) ps s = Some (rs, s')" "sim w s' A'" by blast
  have "RevertToSnapshot (w_K w) i s' \<noteq> None" if "i \<in> fst ` set (saved A')" for i
  proof -
    from that obtain c where "map_of (saved A') i = Some c" by (metis map_of_eq_None_iff option.exhaust)
    from sim_Revert [OF s'(2) this] show ?thesis by auto
  qed
  moreover have "refund s' = a_refund (now A')" using s'(2) by (simp add: sim_def core_def)
  then have "SubRefund g s' = None \<longleftrightarrow> a_refund (now A') < g" for g
    by (simp add: SubRefund_def Let_def append_entry_def)
  ultimately show ?thesis using s' sim_Revert_None [OF s'(2)] by blast
qed

theorem StateDB_panics_witness:
  "\<exists>s'. run_state (w_K sample_world) [OSnapshot, OSnapshot, ORevert 0, OAddRefund 5, OSnapshot] sample_state =
      Some ([Num 0, Num 1, Done, Done, Num 2], s') \<and>
    (\<forall>i. RevertToSnapshot (w_K sample_world) i s' = None \<longleftrightarrow> i \<notin> {2}) \<and> (\<forall>g. SubRefund g s' = None \<longleftrightarrow> 5 < g)"
proof -
  obtain A' where A': "run_spec (w_K sample_world) (has_snap sample_world)
      [OSnapshot, OSnapshot, ORevert 0, OAddRefund 5, OSnapshot] sample_spec = Some ([Num 0, Num 1, Done, Done, Num 2], A')"
    "fst ` set (saved A') = {2}" "a_refund (now A') = 5"
    by (simp add: run_defs)
  have "\<forall>p \<in> set [OSnapshot, OSnapshot, ORevert 0, OAddRefund 5, OSnapshot]. op_ok p" by simp
  from StateDB_panics [OF sample_opens this A'(1)] show ?thesis unfolding A'(2,3) .
qed

subsection \<open>The dirty counters\<close>

lemma chain_touched_last:
  "chain w a es bs \<Longrightarrow> touched (last (a # bs)) = touched a \<union> {c. \<exists>e \<in> set es. dirtied e = Some c}"
proof (induction es arbitrary: a bs)
  case (Cons e es)
  then obtain b cs where b: "bs = b # cs" "undoes w e b a" "chain w b es cs" by auto
  have "touched b = touched a \<union> set_option (dirtied e)" using b(2) by (simp add: undoes_def)
  moreover have "last (a # bs) = last (b # cs)" using b(1) by simp
  ultimately show ?case using Cons.IH [OF b(3)] by (simp only: set_simps) (cases "dirtied e"; auto)
qed simp

lemma jd_ok_count:
  assumes "jd_ok j"
  shows "c \<noteq> ripemd \<Longrightarrow> jdirties j c = (let n = length (filter (\<lambda>e. dirtied e = Some c) (entries j)) in if n = 0 then None else Some (int n))"
    and "\<exists>e \<in> set (entries j). dirtied e = Some c \<Longrightarrow> c \<in> dom (jdirties j)"
proof -
  from assms obtain n where n: "\<And>c. jdirties j c \<noteq> Some 0"
    "\<And>c. count_of (jdirties j) c = int (length (filter (\<lambda>e. dirtied e = Some c) (entries j))) + (if c = ripemd then int n else 0)"
    by (auto simp: jd_ok_def counts_def)
  show "jdirties j c = (let n = length (filter (\<lambda>e. dirtied e = Some c) (entries j)) in if n = 0 then None else Some (int n))"
    if "c \<noteq> ripemd"
    using n(1) [of c] n(2) [of c] that by (cases "jdirties j c") (auto simp: count_of_def Let_def)
  show "c \<in> dom (jdirties j)" if "\<exists>e \<in> set (entries j). dirtied e = Some c"
  proof -
    have "filter (\<lambda>e. dirtied e = Some c) (entries j) \<noteq> []" using that by (auto simp: filter_empty_conv)
    then have "0 < length (filter (\<lambda>e. dirtied e = Some c) (entries j))" by blast
    with n(2) [of c] have "0 < count_of (jdirties j) c" by (simp only: split: if_splits)  linarith+
    then show ?thesis by (cases "jdirties j c") (auto simp: count_of_def)
  qed
qed

text \<open>
  C12: An invariant of the journal: between any two operations the dirty counter of an account is
  the number of entries that changed it, absent when there is none, with the one exception of the
  RIPEMD precompile; the dirty accounts are the ones that the transaction touched; and the
  revisions are ordered by number and by position, none of them beyond the end of the journal.
\<close>

theorem journal_invariant:
  assumes "world_ok w" and "opened w rt s" and "starts w A" and "\<forall>p \<in> set ps. op_ok p"
    and "run_spec (w_K w) (has_snap w) ps A = Some (rs, A')"
  shows "\<exists>s'. run_state (w_K w) ps s = Some (rs, s') \<and>
    (\<forall>c. c \<noteq> ripemd \<longrightarrow> jdirties (s_journal s') c =
      (let n = length (filter (\<lambda>e. dirtied e = Some c) (entries (s_journal s'))) in if n = 0 then None else Some (int n))) \<and>
    touched (now A') \<subseteq> dom (jdirties (s_journal s')) \<and> dom (jdirties (s_journal s')) \<subseteq> insert ripemd (touched (now A')) \<and>
    sorted_wrt (<) (map fst (validRevisions s')) \<and> sorted (map snd (validRevisions s')) \<and>
    (\<forall>v \<in> set (validRevisions s'). fst v < nextRevisionId s' \<and> snd v \<le> length (entries (s_journal s')))"
proof -
  from run_sim [OF assms(1) starts_sim [OF assms(1-3)] assms(4,5)] obtain s' where
    s': "run_state (w_K w) ps s = Some (rs, s')" "sim w s' A'" by blast
  then obtain a bs where a: "chain w a (entries (s_journal s')) bs" "last (a # bs) = now A'" "touched a = {}"
    "revisions_ok (a # bs) (validRevisions s') (saved A')" by (auto simp: sim_def)
  have j: "jd_ok (s_journal s')" "sorted_wrt (<) (map fst (validRevisions s'))"
    "\<forall>i \<in> set (map fst (validRevisions s')). i < nextRevisionId s'" using s'(2) unfolding sim_def by blast+
  have t: "touched (now A') = {c. \<exists>e \<in> set (entries (s_journal s')). dirtied e = Some c}"
    using chain_touched_last [OF a(1)] a(2,3) by simp
  have d: "c \<in> touched (now A')" if "c \<in> dom (jdirties (s_journal s'))" "c \<noteq> ripemd" for c
    using that jd_ok_count(1) [OF j(1) that(2)] by (auto simp: t Let_def filter_empty_conv split: if_splits)
  have "snd v \<le> length (entries (s_journal s'))" if "v \<in> set (validRevisions s')" for v
    using a(4) that length_chain [OF a(1)]
    by (auto simp: revisions_ok_def list_all2_conv_all_nth in_set_conv_nth less_Suc_eq_le)
  moreover have "touched (now A') \<subseteq> dom (jdirties (s_journal s'))" using jd_ok_count(2) [OF j(1)] unfolding t by blast
  moreover have "sorted (map snd (validRevisions s'))" using a(4) by (simp add: revisions_ok_def)
  moreover have "\<forall>v \<in> set (validRevisions s'). fst v < nextRevisionId s'" using j(3) by simp
  ultimately show ?thesis using s'(1) j(2) d jd_ok_count(1) [OF j(1)] by (intro exI [of _ s']) blast
qed

theorem journal_invariant_witness:
  "\<exists>s'. run_state (w_K sample_world) [OSnapshot, OSetBalance sample_addr 5, OSnapshot] sample_state = Some ([Num 0, Done, Num 1], s') \<and>
    sample_addr \<noteq> ripemd \<and> jdirties (s_journal s') sample_addr =
      (let n = length (filter (\<lambda>e. dirtied e = Some sample_addr) (entries (s_journal s'))) in if n = 0 then None else Some (int n)) \<and>
    sample_addr \<in> dom (jdirties (s_journal s')) \<and> sorted (map snd (validRevisions s'))"
proof -
  have r: "sample_addr \<noteq> ripemd" by code_simp
  obtain A' where A': "run_spec (w_K sample_world) (has_snap sample_world)
      [OSnapshot, OSetBalance sample_addr 5, OSnapshot] sample_spec = Some ([Num 0, Done, Num 1], A')"
    "touched (now A') = {sample_addr}"
    by (simp add: run_defs)
  have "\<forall>p \<in> set [OSnapshot, OSetBalance sample_addr 5, OSnapshot]. op_ok p" by (simp add: sample_addr_def)
  from journal_invariant [OF sample_opens this A'(1)] r A'(2) show ?thesis by (metis insert_subset)
qed

end
