(* ===== verification/Clique.thy ===== *)
theory Clique
  imports Rlp_Roundtrip "HOL-Library.Monad_Syntax" "HOL-Library.AList" "HOL-Library.List_Lexorder"
begin

text \<open>
  \<open>consensus/clique\<close>, proof of authority: the voting snapshot of \<open>snapshot.go\<close> and the rules of
  \<open>clique.go\<close> by which a header is accepted.  \<open>K\<close> is Keccak and \<open>Ecrecover\<close> the recovery of a
  public key from a hash and a signature; \<open>known\<close> is what the cache of recovered signers answers.
  Loading and storing snapshots is not modelled.
\<close>

subsection \<open>Headers\<close>

text \<open>\<open>Header\<close> of \<open>core/types/block.go\<close>; a big number that is \<open>nil\<close> is \<open>None\<close>.\<close>

record Header =
  h_ParentHash :: bytes
  h_UncleHash :: bytes
  h_Coinbase :: bytes
  h_Root :: bytes
  h_TxHash :: bytes
  h_ReceiptHash :: bytes
  h_Bloom :: bytes
  h_Difficulty :: "int option"
  h_Number :: "int option"
  h_GasLimit :: u64
  h_GasUsed :: u64
  h_Time :: u64
  h_Extra :: bytes
  h_MixDigest :: bytes
  h_Nonce :: bytes

text \<open>\<open>header.Number.Uint64()\<close>, a panic on \<open>nil\<close>.\<close>

definition Number64 :: "Header \<Rightarrow> u64 option" where
  "Number64 h = map_option (\<lambda>n. word_of_int \<bar>n\<bar>) (h_Number h)"

definition big_val :: "int option \<Rightarrow> goval" where
  "big_val n = (case n of None \<Rightarrow> VNil | Some n \<Rightarrow> VBig n)"

definition hash_type :: gotype where
  "hash_type = TArray 32 (TUint 8)"

definition Header_type :: gotype where
  "Header_type = TStruct (map (\<lambda>t. (t, no_tags))
     [hash_type, hash_type, TArray 20 (TUint 8), hash_type, hash_type, hash_type, TArray 256 (TUint 8),
      TBigPtr, TBigPtr, TUint 64, TUint 64, TUint 64, TSlice (TUint 8), hash_type, TArray 8 (TUint 8)])"

definition Header_val :: "Header \<Rightarrow> goval" where
  "Header_val h = VList
     [VBytes (h_ParentHash h), VBytes (h_UncleHash h), VBytes (h_Coinbase h), VBytes (h_Root h),
      VBytes (h_TxHash h), VBytes (h_ReceiptHash h), VBytes (h_Bloom h), big_val (h_Difficulty h),
      big_val (h_Number h), VUint (h_GasLimit h), VUint (h_GasUsed h), VUint (h_Time h),
      VBytes (h_Extra h), VBytes (h_MixDigest h), VBytes (h_Nonce h)]"

text \<open>\<open>rlpHash\<close> ignores an error of the encoder, which then has written nothing.\<close>

definition rlpHash :: "(bytes \<Rightarrow> bytes) \<Rightarrow> gotype \<Rightarrow> goval \<Rightarrow> bytes" where
  "rlpHash K t v = K (case Encode t v of Some (Inr b) \<Rightarrow> b | _ \<Rightarrow> [])"

definition Header_Hash :: "(bytes \<Rightarrow> bytes) \<Rightarrow> Header \<Rightarrow> bytes" where
  "Header_Hash K h = rlpHash K Header_type (Header_val h)"

subsection \<open>Signers of headers\<close>

datatype clique_error =
    ErrUnknownBlock | ErrInvalidCheckpointBeneficiary | ErrInvalidVote | ErrInvalidCheckpointVote
  | ErrMissingVanity | ErrMissingSignature | ErrExtraSigners | ErrInvalidCheckpointSigners
  | ErrMismatchingCheckpointSigners | ErrInvalidMixDigest | ErrInvalidUncleHash | ErrInvalidDifficulty
  | ErrWrongDifficulty | ErrInvalidTimestamp | ErrInvalidVotingChain | ErrUnauthorizedSigner
  | ErrRecentlySigned | ErrFutureBlock | ErrUnknownAncestor | ErrRecover | ErrBadForkHash

definition extraVanity :: nat where
  "extraVanity = 32"

definition extraSeal :: nat where
  "extraSeal = 65"

definition AddressLength :: nat where
  "AddressLength = 20"

definition nonceAuthVote :: bytes where
  "nonceAuthVote = replicate 8 0xff"

definition nonceDropVote :: bytes where
  "nonceDropVote = replicate 8 0"

text \<open>The values that \<open>encodeSigHeader\<close> writes; the slice of \<open>Extra\<close> panics when it is too short.\<close>

definition sigHeader_val :: "Header \<Rightarrow> goval option" where
  "sigHeader_val h =
     (if length (h_Extra h) < extraSeal then None
      else Some (VList
        [VIface hash_type (VBytes (h_ParentHash h)), VIface hash_type (VBytes (h_UncleHash h)),
         VIface (TArray 20 (TUint 8)) (VBytes (h_Coinbase h)), VIface hash_type (VBytes (h_Root h)),
         VIface hash_type (VBytes (h_TxHash h)), VIface hash_type (VBytes (h_ReceiptHash h)),
         VIface (TArray 256 (TUint 8)) (VBytes (h_Bloom h)), VIface TBigPtr (big_val (h_Difficulty h)),
         VIface TBigPtr (big_val (h_Number h)), VIface (TUint 64) (VUint (h_GasLimit h)),
         VIface (TUint 64) (VUint (h_GasUsed h)), VIface (TUint 64) (VUint (h_Time h)),
         VIface (TSlice (TUint 8)) (VBytes (take (length (h_Extra h) - extraSeal) (h_Extra h))),
         VIface hash_type (VBytes (h_MixDigest h)), VIface (TArray 8 (TUint 8)) (VBytes (h_Nonce h))]))"

definition encodeSigHeader :: "Header \<Rightarrow> bytes option" where
  "encodeSigHeader h = do {
     v \<leftarrow> sigHeader_val h;
     r \<leftarrow> Encode (TSlice TInterface) v;
     case r of Inl e \<Rightarrow> None | Inr b \<Rightarrow> Some b
   }"

definition SealHash :: "(bytes \<Rightarrow> bytes) \<Rightarrow> Header \<Rightarrow> bytes option" where
  "SealHash K h = map_option K (encodeSigHeader h)"

definition ecrecover :: "(bytes \<Rightarrow> bytes) \<Rightarrow> (bytes \<Rightarrow> bytes \<Rightarrow> bytes option) \<Rightarrow> (bytes \<Rightarrow> bytes option) \<Rightarrow>
    Header \<Rightarrow> (clique_error + bytes) option" where
  "ecrecover K Ecrecover known h =
     (case known (Header_Hash K h) of
       Some address \<Rightarrow> Some (Inr address)
     | None \<Rightarrow>
         if length (h_Extra h) < extraSeal then Some (Inl ErrMissingSignature)
         else do {
           let signature = drop (length (h_Extra h) - extraSeal) (h_Extra h);
           hash \<leftarrow> SealHash K h;
           case Ecrecover hash signature of
             None \<Rightarrow> Some (Inl ErrRecover)
           | Some pubkey \<Rightarrow> Some (Inr (take 20 (drop 12 (K (tl pubkey)))))
         })"

subsection \<open>The voting snapshot\<close>

record Vote =
  v_Signer :: bytes
  v_Block :: u64
  v_Address :: bytes
  v_Authorize :: bool

record Tally =
  t_Authorize :: bool
  t_Votes :: int

record CliqueConfig =
  Period :: u64
  Epoch :: u64

text \<open>\<open>Recents\<close> lists the entries of the map, each key once.  Copies need no function of their own.\<close>

record VoteSnapshot =
  s_Number :: u64
  s_Hash :: bytes
  Signers :: "bytes set"
  Recents :: "(u64 \<times> bytes) list"
  Votes :: "Vote list"
  Tallies :: "bytes \<rightharpoonup> Tally"

definition newSnapshot :: "u64 \<Rightarrow> bytes \<Rightarrow> bytes list \<Rightarrow> VoteSnapshot" where
  "newSnapshot number hash signers =
     \<lparr>s_Number = number, s_Hash = hash, Signers = set signers, Recents = [], Votes = [], Tallies = Map.empty\<rparr>"

definition validVote :: "bytes \<Rightarrow> bool \<Rightarrow> VoteSnapshot \<Rightarrow> bool" where
  "validVote address authorize s =
     (let signer = (address \<in> Signers s) in (signer \<and> \<not> authorize) \<or> (\<not> signer \<and> authorize))"

definition cast_vote :: "bytes \<Rightarrow> bool \<Rightarrow> VoteSnapshot \<Rightarrow> bool \<times> VoteSnapshot" where
  "cast_vote address authorize s =
     (if \<not> validVote address authorize s then (False, s)
      else case Tallies s address of
        Some old \<Rightarrow> (True, s\<lparr>Tallies := (Tallies s)(address \<mapsto> old\<lparr>t_Votes := t_Votes old + 1\<rparr>)\<rparr>)
      | None \<Rightarrow> (True, s\<lparr>Tallies := (Tallies s)(address \<mapsto> \<lparr>t_Authorize = authorize, t_Votes = 1\<rparr>)\<rparr>))"

definition uncast :: "bytes \<Rightarrow> bool \<Rightarrow> VoteSnapshot \<Rightarrow> bool \<times> VoteSnapshot" where
  "uncast address authorize s =
     (case Tallies s address of
       None \<Rightarrow> (False, s)
     | Some tally \<Rightarrow>
         if t_Authorize tally \<noteq> authorize then (False, s)
         else if t_Votes tally > 1
           then (True, s\<lparr>Tallies := (Tallies s)(address \<mapsto> tally\<lparr>t_Votes := t_Votes tally - 1\<rparr>)\<rparr>)
           else (True, s\<lparr>Tallies := (Tallies s)(address := None)\<rparr>))"

text \<open>The number of blocks in which a signer may sign once.\<close>

definition limit :: "VoteSnapshot \<Rightarrow> u64" where
  "limit s = of_nat (card (Signers s) div 2 + 1)"

definition prune :: "u64 \<Rightarrow> VoteSnapshot \<Rightarrow> VoteSnapshot" where
  "prune number s =
     (if limit s \<le> number then s\<lparr>Recents := AList.delete (number - limit s) (Recents s)\<rparr> else s)"

text \<open>The first loop over the votes ends at the first match.\<close>

fun discard_previous :: "bytes \<Rightarrow> bytes \<Rightarrow> Vote list \<Rightarrow> Vote list \<Rightarrow> VoteSnapshot \<Rightarrow> VoteSnapshot" where
  "discard_previous signer address kept [] s = s"
| "discard_previous signer address kept (vote # votes) s =
     (if v_Signer vote = signer \<and> v_Address vote = address
      then (snd (uncast (v_Address vote) (v_Authorize vote) s))\<lparr>Votes := kept @ votes\<rparr>
      else discard_previous signer address (kept @ [vote]) votes s)"

fun discard_votes_of :: "bytes \<Rightarrow> Vote list \<Rightarrow> Vote list \<Rightarrow> VoteSnapshot \<Rightarrow> VoteSnapshot" where
  "discard_votes_of signer kept [] s = s\<lparr>Votes := kept\<rparr>"
| "discard_votes_of signer kept (vote # votes) s =
     (if v_Signer vote = signer
      then discard_votes_of signer kept votes (snd (uncast (v_Address vote) (v_Authorize vote) s))
      else discard_votes_of signer (kept @ [vote]) votes s)"

definition enact :: "u64 \<Rightarrow> bytes \<Rightarrow> VoteSnapshot \<Rightarrow> VoteSnapshot" where
  "enact number address s =
     (case Tallies s address of
       None \<Rightarrow> s
     | Some tally \<Rightarrow>
         if t_Votes tally > int (card (Signers s) div 2) then
           let s = (if t_Authorize tally then s\<lparr>Signers := insert address (Signers s)\<rparr>
                    else let s = prune number (s\<lparr>Signers := Signers s - {address}\<rparr>)
                         in discard_votes_of address [] (Votes s) s)
           in s\<lparr>Votes := filter (\<lambda>v. v_Address v \<noteq> address) (Votes s), Tallies := (Tallies s)(address := None)\<rparr>
         else s)"

definition record_vote :: "u64 \<Rightarrow> bytes \<Rightarrow> bytes \<Rightarrow> bool \<Rightarrow> VoteSnapshot \<Rightarrow> VoteSnapshot" where
  "record_vote number signer address authorize s =
     (let (ok, s) = cast_vote address authorize s
      in if ok then s\<lparr>Votes := Votes s @ [\<lparr>v_Signer = signer, v_Block = number, v_Address = address, v_Authorize = authorize\<rparr>]\<rparr>
         else s)"

text \<open>One round of the loop of \<open>apply\<close>; \<open>None\<close> is a panic, of a division by a zero epoch for instance.
  \<open>recover\<close> is \<open>ecrecover\<close>.\<close>

definition apply_header :: "CliqueConfig \<Rightarrow> (Header \<Rightarrow> (clique_error + bytes) option) \<Rightarrow> Header \<Rightarrow> VoteSnapshot \<Rightarrow>
    (clique_error + VoteSnapshot) option" where
  "apply_header cfg recover h s = do {
     number \<leftarrow> Number64 h;
     _ \<leftarrow> (if Epoch cfg = 0 then None else Some ());
     let s = (if number mod Epoch cfg = 0 then s\<lparr>Votes := [], Tallies := Map.empty\<rparr> else s);
     let s = prune number s;
     r \<leftarrow> recover h;
     case r of
       Inl e \<Rightarrow> Some (Inl e)
     | Inr signer \<Rightarrow>
         if signer \<notin> Signers s then Some (Inl ErrUnauthorizedSigner)
         else if signer \<in> set (map snd (Recents s)) then Some (Inl ErrRecentlySigned)
         else
           let s = s\<lparr>Recents := AList.update number signer (Recents s)\<rparr>;
               s = discard_previous signer (h_Coinbase h) [] (Votes s) s
           in if h_Nonce h = nonceAuthVote
              then Some (Inr (enact number (h_Coinbase h) (record_vote number signer (h_Coinbase h) True s)))
              else if h_Nonce h = nonceDropVote
              then Some (Inr (enact number (h_Coinbase h) (record_vote number signer (h_Coinbase h) False s)))
              else Some (Inl ErrInvalidVote)
   }"

fun apply_loop :: "CliqueConfig \<Rightarrow> (Header \<Rightarrow> (clique_error + bytes) option) \<Rightarrow> Header list \<Rightarrow> VoteSnapshot \<Rightarrow>
    (clique_error + VoteSnapshot) option" where
  "apply_loop cfg recover [] s = Some (Inr s)"
| "apply_loop cfg recover (h # hs) s = do {
     r \<leftarrow> apply_header cfg recover h s;
     case r of Inl e \<Rightarrow> Some (Inl e) | Inr s \<Rightarrow> apply_loop cfg recover hs s
   }"

fun consecutive :: "Header list \<Rightarrow> bool option" where
  "consecutive (h # h' # hs) = do {
     n' \<leftarrow> Number64 h';
     n \<leftarrow> Number64 h;
     if n' \<noteq> n + 1 then Some False else consecutive (h' # hs)
   }"
| "consecutive _ = Some True"

definition apply_headers :: "(bytes \<Rightarrow> bytes) \<Rightarrow> CliqueConfig \<Rightarrow> (Header \<Rightarrow> (clique_error + bytes) option) \<Rightarrow>
    Header list \<Rightarrow> VoteSnapshot \<Rightarrow> (clique_error + VoteSnapshot) option" where
  "apply_headers K cfg recover hs s =
     (if hs = [] then Some (Inr s)
      else do {
        ok \<leftarrow> consecutive hs;
        if \<not> ok then Some (Inl ErrInvalidVotingChain)
        else do {
          n \<leftarrow> Number64 (hd hs);
          if n \<noteq> s_Number s + 1 then Some (Inl ErrInvalidVotingChain)
          else do {
            r \<leftarrow> apply_loop cfg recover hs s;
            case r of
              Inl e \<Rightarrow> Some (Inl e)
            | Inr snap \<Rightarrow> Some (Inr (snap\<lparr>s_Number := s_Number snap + len64 hs, s_Hash := Header_Hash K (last hs)\<rparr>))
          }
        }
      })"

definition signers :: "VoteSnapshot \<Rightarrow> bytes list" where
  "signers s = sorted_list_of_set (Signers s)"

text \<open>\<open>None\<close> is the division by zero when no signer is left.\<close>

definition inturn :: "u64 \<Rightarrow> bytes \<Rightarrow> VoteSnapshot \<Rightarrow> bool option" where
  "inturn number signer s =
     (let offset = length (takeWhile (\<lambda>a. a \<noteq> signer) (signers s))
      in if signers s = [] then None else Some (number mod len64 (signers s) = of_nat offset))"

subsection \<open>Rules for headers\<close>

definition diffInTurn :: int where
  "diffInTurn = 2"

definition diffNoTurn :: int where
  "diffNoTurn = 1"

definition calcDifficulty :: "bytes \<Rightarrow> VoteSnapshot \<Rightarrow> int option" where
  "calcDifficulty signer s = do {
     turn \<leftarrow> inturn (s_Number s + 1) signer s;
     Some (if turn then diffInTurn else diffNoTurn)
   }"

definition verifySeal :: "bool \<Rightarrow> (Header \<Rightarrow> (clique_error + bytes) option) \<Rightarrow> VoteSnapshot \<Rightarrow> Header \<Rightarrow>
    clique_error option option" where
  "verifySeal fakeDiff recover snap h = do {
     number \<leftarrow> Number64 h;
     if number = 0 then Some (Some ErrUnknownBlock)
     else do {
       r \<leftarrow> recover h;
       case r of
         Inl e \<Rightarrow> Some (Some e)
       | Inr signer \<Rightarrow>
           if signer \<notin> Signers snap then Some (Some ErrUnauthorizedSigner)
           else if \<exists>(seen, recent) \<in> set (Recents snap). recent = signer \<and> seen > number - limit snap
           then Some (Some ErrRecentlySigned)
           else if fakeDiff then Some None
           else do {
             turn \<leftarrow> inturn number signer snap;
             diff \<leftarrow> h_Difficulty h;
             Some (if turn \<and> diff \<noteq> diffInTurn then Some ErrWrongDifficulty
                   else if \<not> turn \<and> diff \<noteq> diffNoTurn then Some ErrWrongDifficulty
                   else None)
           }
     }
   }"

text \<open>\<open>verifyCascadingFields\<close> with the parent and the snapshot that it looks up.\<close>

definition verifyParent :: "(bytes \<Rightarrow> bytes) \<Rightarrow> CliqueConfig \<Rightarrow> Header option \<Rightarrow> Header \<Rightarrow> clique_error option option" where
  "verifyParent K cfg parent h = do {
     number \<leftarrow> Number64 h;
     case parent of
       None \<Rightarrow> Some (Some ErrUnknownAncestor)
     | Some p \<Rightarrow> do {
         pn \<leftarrow> Number64 p;
         Some (if pn \<noteq> number - 1 \<or> Header_Hash K p \<noteq> h_ParentHash h then Some ErrUnknownAncestor
               else if h_Time p + Period cfg > h_Time h then Some ErrInvalidTimestamp
               else None)
       }
   }"

definition verifyCascadingFields :: "(bytes \<Rightarrow> bytes) \<Rightarrow> CliqueConfig \<Rightarrow> bool \<Rightarrow> (Header \<Rightarrow> (clique_error + bytes) option) \<Rightarrow>
    Header option \<Rightarrow> clique_error + VoteSnapshot \<Rightarrow> Header \<Rightarrow> clique_error option option" where
  "verifyCascadingFields K cfg fakeDiff recover parent snapshot h = do {
     number \<leftarrow> Number64 h;
     if number = 0 then Some None
     else do {
       r \<leftarrow> verifyParent K cfg parent h;
       case r of
         Some e \<Rightarrow> Some (Some e)
       | None \<Rightarrow>
           (case snapshot of
             Inl e \<Rightarrow> Some (Some e)
           | Inr snap \<Rightarrow> do {
               _ \<leftarrow> (if Epoch cfg = 0 then None else Some ());
               if number mod Epoch cfg = 0 \<and>
                  drop extraVanity (take (length (h_Extra h) - extraSeal) (h_Extra h)) \<noteq> concat (signers snap)
               then Some (Some ErrMismatchingCheckpointSigners)
               else verifySeal fakeDiff recover snap h
             })
     }
   }"

text \<open>\<open>VerifyForkHashes\<close> of \<open>consensus/misc/forks.go\<close> with the two fields of the chain configuration that it reads.\<close>

record ForkConfig =
  EIP150Block :: "int option"
  EIP150Hash :: bytes

definition VerifyForkHashes :: "(bytes \<Rightarrow> bytes) \<Rightarrow> ForkConfig \<Rightarrow> Header \<Rightarrow> bool \<Rightarrow> clique_error option" where
  "VerifyForkHashes K forks h uncle =
     (if uncle then None
      else if EIP150Block forks \<noteq> None \<and> EIP150Block forks = h_Number h \<and>
         EIP150Hash forks \<noteq> replicate 32 0 \<and> EIP150Hash forks \<noteq> Header_Hash K h
      then Some ErrBadForkHash
      else None)"

definition uncleHash :: "(bytes \<Rightarrow> bytes) \<Rightarrow> bytes" where
  "uncleHash K = rlpHash K (TSlice (TPtr Header_type)) (VList [])"

text \<open>\<open>now\<close> is the time; the last rules look at the parent and the snapshot.\<close>

definition verifyHeader :: "(bytes \<Rightarrow> bytes) \<Rightarrow> CliqueConfig \<Rightarrow> ForkConfig \<Rightarrow> u64 \<Rightarrow> bool \<Rightarrow>
    (Header \<Rightarrow> (clique_error + bytes) option) \<Rightarrow> Header option \<Rightarrow> clique_error + VoteSnapshot \<Rightarrow> Header \<Rightarrow>
    clique_error option option" where
  "verifyHeader K cfg forks now fakeDiff recover parent snapshot h =
     (if h_Number h = None then Some (Some ErrUnknownBlock)
      else do {
        number \<leftarrow> Number64 h;
        if h_Time h > now then Some (Some ErrFutureBlock)
        else do {
          _ \<leftarrow> (if Epoch cfg = 0 then None else Some ());
          let checkpoint = (number mod Epoch cfg = 0);
          let signersBytes = int (length (h_Extra h)) - int extraVanity - int extraSeal;
          if checkpoint \<and> h_Coinbase h \<noteq> replicate 20 0 then Some (Some ErrInvalidCheckpointBeneficiary)
          else if h_Nonce h \<noteq> nonceAuthVote \<and> h_Nonce h \<noteq> nonceDropVote then Some (Some ErrInvalidVote)
          else if checkpoint \<and> h_Nonce h \<noteq> nonceDropVote then Some (Some ErrInvalidCheckpointVote)
          else if length (h_Extra h) < extraVanity then Some (Some ErrMissingVanity)
          else if length (h_Extra h) < extraVanity + extraSeal then Some (Some ErrMissingSignature)
          else if \<not> checkpoint \<and> signersBytes \<noteq> 0 then Some (Some ErrExtraSigners)
          else if checkpoint \<and> signersBytes mod int AddressLength \<noteq> 0 then Some (Some ErrInvalidCheckpointSigners)
          else if h_MixDigest h \<noteq> replicate 32 0 then Some (Some ErrInvalidMixDigest)
          else if h_UncleHash h \<noteq> uncleHash K then Some (Some ErrInvalidUncleHash)
          else if number > 0 \<and> h_Difficulty h \<noteq> Some diffInTurn \<and> h_Difficulty h \<noteq> Some diffNoTurn
          then Some (Some ErrInvalidDifficulty)
          else
            (case VerifyForkHashes K forks h False of
              Some e \<Rightarrow> Some (Some e)
            | None \<Rightarrow> verifyCascadingFields K cfg fakeDiff recover parent snapshot h)
        }
      })"

text \<open>\<open>Seal\<close> decides whether the signer of this node may sign now.\<close>

definition must_wait :: "u64 \<Rightarrow> bytes \<Rightarrow> VoteSnapshot \<Rightarrow> bool" where
  "must_wait number signer snap \<longleftrightarrow>
     (\<exists>(seen, recent) \<in> set (Recents snap). recent = signer \<and> (number < limit snap \<or> seen > number - limit snap))"

end
