(* ===== verification/Clique_Correct.thy ===== *)
theory Clique_Correct
  imports Clique
begin

text \<open>
  The voting snapshot is consistent: tallies count the votes, a signer has one vote per address and
  signs once per window, a change of the signers needs a majority; and the signers take turns.
\<close>

subsection \<open>Tallies count votes\<close>

definition votes_for :: "Vote list \<Rightarrow> bytes \<Rightarrow> nat" where
  "votes_for vs a = length (filter (\<lambda>v. v_Address v = a) vs)"

lemma votes_for_append: "votes_for (vs @ us) a = votes_for vs a + votes_for us a"
  by (simp add: votes_for_def)

lemma votes_for_simps [simp]:
  "votes_for [] a = 0" "votes_for (v # vs) a = (if v_Address v = a then 1 else 0) + votes_for vs a"
  by (simp_all add: votes_for_def)

definition tally_of :: "bytes set \<Rightarrow> Vote list \<Rightarrow> bytes \<rightharpoonup> Tally" where
  "tally_of S vs a =
     (if votes_for vs a = 0 then None else Some \<lparr>t_Authorize = (a \<notin> S), t_Votes = int (votes_for vs a)\<rparr>)"

abbreviation ballot :: "Vote \<Rightarrow> bytes \<times> bytes" where
  "ballot v \<equiv> (v_Signer v, v_Address v)"

definition valid_votes :: "bytes set \<Rightarrow> Vote list \<Rightarrow> bool" where
  "valid_votes S vs \<longleftrightarrow> (\<forall>v \<in> set vs. v_Authorize v \<longleftrightarrow> v_Address v \<notin> S)"

definition votes_ok :: "VoteSnapshot \<Rightarrow> bool" where
  "votes_ok s \<longleftrightarrow>
     v_Signer ` set (Votes s) \<subseteq> Signers s \<and> distinct (map ballot (Votes s)) \<and> valid_votes (Signers s) (Votes s) \<and>
     Tallies s = tally_of (Signers s) (Votes s)"

lemma uncast_sel [simp]:
  "Signers (snd (uncast a b s)) = Signers s" "Recents (snd (uncast a b s)) = Recents s" "Votes (snd (uncast a b s)) = Votes s"
  "s_Number (snd (uncast a b s)) = s_Number s"
  by (auto simp: uncast_def split: option.splits)

lemma uncast_tally:
  assumes "Tallies s = tally_of S (xs @ v # ys)" and "v_Authorize v \<longleftrightarrow> v_Address v \<notin> S"
  shows "Tallies (snd (uncast (v_Address v) (v_Authorize v) s)) = tally_of S (xs @ ys)"
proof -
  let ?a = "v_Address v" and ?n = "votes_for (xs @ ys) (v_Address v)"
  have t: "Tallies s ?a = Some \<lparr>t_Authorize = (?a \<notin> S), t_Votes = int ?n + 1\<rparr>"
    by (simp add: assms(1) tally_of_def votes_for_append)
  have r: "tally_of S (xs @ ys) = (Tallies s)(?a := tally_of S (xs @ ys) ?a)"
    by (auto simp: assms(1) fun_eq_iff tally_of_def votes_for_append)
  show ?thesis
    using assms(2) t by (subst r) (auto simp: uncast_def tally_of_def)
qed

lemma discard_previous_sel [simp]:
  "Signers (discard_previous x a kept vs s) = Signers s" "Recents (discard_previous x a kept vs s) = Recents s"
  "s_Number (discard_previous x a kept vs s) = s_Number s"
  by (induction x a kept vs s rule: discard_previous.induct) auto

lemma discard_previous_votes:
  assumes "Votes s = kept @ vs" and "Tallies s = tally_of S (kept @ vs)" and "valid_votes S vs"
    and "distinct (map ballot vs)" and "\<forall>v \<in> set kept. ballot v \<noteq> (x, a)"
  shows "Votes (discard_previous x a kept vs s) = filter (\<lambda>v. ballot v \<noteq> (x, a)) (kept @ vs) \<and>
    Tallies (discard_previous x a kept vs s) = tally_of S (filter (\<lambda>v. ballot v \<noteq> (x, a)) (kept @ vs))"
  using assms
proof (induction x a kept vs s rule: discard_previous.induct)
  case (2 x a kept v vs s)
  show ?case
  proof (cases "ballot v = (x, a)")
    case True
    then have "\<forall>u \<in> set vs. ballot u \<noteq> (x, a)" using "2.prems"(4) by (auto simp: image_iff)
    then have f: "filter (\<lambda>v. ballot v \<noteq> (x, a)) (kept @ v # vs) = kept @ vs"
      using "2.prems"(5) True by (simp add: filter_id_conv)
    have "Tallies (snd (uncast (v_Address v) (v_Authorize v) s)) = tally_of S (kept @ vs)"
      using "2.prems"(2,3) by (intro uncast_tally) (simp_all add: valid_votes_def)
    with True f show ?thesis by simp
  next
    case False
    with "2.prems" have "Votes (discard_previous x a (kept @ [v]) vs s) = filter (\<lambda>v. ballot v \<noteq> (x, a)) ((kept @ [v]) @ vs) \<and>
      Tallies (discard_previous x a (kept @ [v]) vs s) = tally_of S (filter (\<lambda>v. ballot v \<noteq> (x, a)) ((kept @ [v]) @ vs))"
      by (intro "2.IH") (auto simp: valid_votes_def)
    with False show ?thesis by auto
  qed
qed (simp add: filter_id_conv)

lemma discard_votes_of_sel [simp]:
  "Signers (discard_votes_of x kept vs s) = Signers s" "Recents (discard_votes_of x kept vs s) = Recents s"
  "s_Number (discard_votes_of x kept vs s) = s_Number s"
  "Votes (discard_votes_of x kept vs s) = kept @ filter (\<lambda>v. v_Signer v \<noteq> x) vs"
  by (induction x kept vs s rule: discard_votes_of.induct) auto

lemma discard_votes_of_tally:
  assumes "Tallies s = tally_of S (kept @ vs)" and "valid_votes S vs"
  shows "Tallies (discard_votes_of x kept vs s) = tally_of S (kept @ filter (\<lambda>v. v_Signer v \<noteq> x) vs)"
  using assms
proof (induction x kept vs s rule: discard_votes_of.induct)
  case (2 x kept v vs s)
  have "Tallies (snd (uncast (v_Address v) (v_Authorize v) s)) = tally_of S (kept @ vs)"
    using "2.prems" by (intro uncast_tally) (simp_all add: valid_votes_def)
  with 2 show ?case by (auto simp: valid_votes_def)
qed simp

subsection \<open>One vote\<close>

lemma prune_sel [simp]:
  "Signers (prune n s) = Signers s" "Votes (prune n s) = Votes s" "Tallies (prune n s) = Tallies s" "s_Number (prune n s) = s_Number s"
  by (simp_all add: prune_def)

lemma votes_ok_cong:
  "Signers s = Signers t \<Longrightarrow> Votes s = Votes t \<Longrightarrow> Tallies s = Tallies t \<Longrightarrow> votes_ok s = votes_ok t"
  by (simp add: votes_ok_def)

lemma votes_ok_discard:
  assumes "votes_ok s"
  shows "votes_ok (discard_previous x a [] (Votes s) s)"
    and "Votes (discard_previous x a [] (Votes s) s) = filter (\<lambda>v. ballot v \<noteq> (x, a)) (Votes s)"
  using assms discard_previous_votes [of s "[]" "Votes s" "Signers s" x a]
  by (auto simp: votes_ok_def valid_votes_def distinct_map_filter)

lemma record_vote_sel [simp]:
  "Signers (record_vote n x a b s) = Signers s" "Recents (record_vote n x a b s) = Recents s"
  "s_Number (record_vote n x a b s) = s_Number s"
  by (auto simp: record_vote_def cast_vote_def Let_def split: option.splits)

lemma votes_ok_record:
  assumes "votes_ok s" and "x \<in> Signers s" and "(x, a) \<notin> ballot ` set (Votes s)"
  shows "votes_ok (record_vote n x a b s)"
    and "Votes (record_vote n x a b s) = Votes s @
      (if validVote a b s then [\<lparr>v_Signer = x, v_Block = n, v_Address = a, v_Authorize = b\<rparr>] else [])"
proof -
  have v: "b \<longleftrightarrow> a \<notin> Signers s" if "validVote a b s" using that by (auto simp: validVote_def)
  have t: "Tallies s = tally_of (Signers s) (Votes s)" using assms(1) by (simp add: votes_ok_def)
  show "Votes (record_vote n x a b s) = Votes s @
      (if validVote a b s then [\<lparr>v_Signer = x, v_Block = n, v_Address = a, v_Authorize = b\<rparr>] else [])"
    by (auto simp: record_vote_def cast_vote_def split: option.splits)
  moreover have "Tallies (record_vote n x a b s) = tally_of (Signers s) (Votes (record_vote n x a b s))"
  proof (cases "validVote a b s")
    case True
    let ?v = "\<lparr>v_Signer = x, v_Block = n, v_Address = a, v_Authorize = b\<rparr>"
    have "tally_of (Signers s) (Votes s @ [?v]) = (Tallies s)(a \<mapsto> \<lparr>t_Authorize = (a \<notin> Signers s), t_Votes = int (votes_for (Votes s) a) + 1\<rparr>)"
      by (auto simp: t fun_eq_iff tally_of_def votes_for_append)
    with True t v show ?thesis by (auto simp: record_vote_def cast_vote_def tally_of_def)
  qed (simp add: record_vote_def cast_vote_def t)
  ultimately show "votes_ok (record_vote n x a b s)"
    using assms v by (auto simp: votes_ok_def valid_votes_def)
qed

lemma votes_for_filter: "votes_for (filter (\<lambda>v. v_Address v \<noteq> a) vs) c = (if c = a then 0 else votes_for vs c)"
  by (induction vs) auto

lemma tally_of_change:
  assumes "\<And>c. c \<noteq> a \<Longrightarrow> c \<in> S' \<longleftrightarrow> c \<in> S"
  shows "(tally_of S vs)(a := None) = tally_of S' (filter (\<lambda>v. v_Address v \<noteq> a) vs)"
  using assms by (auto simp: fun_eq_iff tally_of_def votes_for_filter)

lemma votes_ok_enact:
  assumes "votes_ok s"
  shows "votes_ok (enact n a s)"
proof (cases "\<exists>t. Tallies s a = Some t \<and> t_Votes t > int (card (Signers s) div 2)")
  case False
  then show ?thesis using assms by (auto simp: enact_def split: option.splits)
next
  case True
  then obtain t where t: "Tallies s a = Some t" "t_Votes t > int (card (Signers s) div 2)" by blast
  have s: "v_Signer ` set (Votes s) \<subseteq> Signers s" "distinct (map ballot (Votes s))" "valid_votes (Signers s) (Votes s)"
    "Tallies s = tally_of (Signers s) (Votes s)" using assms by (simp_all add: votes_ok_def)
  show ?thesis
  proof (cases "t_Authorize t")
    case True
    have "Tallies (enact n a s) = (Tallies s)(a := None)" "Signers (enact n a s) = insert a (Signers s)"
      "Votes (enact n a s) = filter (\<lambda>v. v_Address v \<noteq> a) (Votes s)" using t True by (simp_all add: enact_def Let_def)
    moreover have "(Tallies s)(a := None) = tally_of (insert a (Signers s)) (filter (\<lambda>v. v_Address v \<noteq> a) (Votes s))"
      unfolding s(4) by (rule tally_of_change) auto
    ultimately show ?thesis using s(1-3) by (auto simp: votes_ok_def valid_votes_def distinct_map_filter)
  next
    case False
    let ?p = "prune n (s\<lparr>Signers := Signers s - {a}\<rparr>)"
    let ?d = "discard_votes_of a [] (Votes s) ?p" and ?vs = "filter (\<lambda>v. v_Signer v \<noteq> a) (Votes s)"
    have "Tallies (enact n a s) = (Tallies ?d)(a := None)" "Signers (enact n a s) = Signers s - {a}"
      "Votes (enact n a s) = filter (\<lambda>v. v_Address v \<noteq> a) ?vs" using t False by (simp_all add: enact_def Let_def)
    moreover have "Tallies ?d = tally_of (Signers s) ?vs"
      using discard_votes_of_tally [of ?p "Signers s" "[]" "Votes s" a] s(3,4) by simp
    moreover have "(tally_of (Signers s) ?vs)(a := None) = tally_of (Signers s - {a}) (filter (\<lambda>v. v_Address v \<noteq> a) ?vs)"
      by (rule tally_of_change) auto
    ultimately show ?thesis using s(1-3) by (auto simp: votes_ok_def valid_votes_def distinct_map_filter)
  qed
qed

lemma enact_Signers:
  "Signers (enact n a s) = Signers s \<or> Signers (enact n a s) = insert a (Signers s) \<or> Signers (enact n a s) = Signers s - {a}"
  by (auto simp: enact_def Let_def split: option.splits)

subsection \<open>The window of recent signers\<close>

definition window :: "bytes set \<Rightarrow> nat" where
  "window S = card S div 2 + 1"

definition recents_ok :: "nat \<Rightarrow> VoteSnapshot \<Rightarrow> bool" where
  "recents_ok n s \<longleftrightarrow>
     distinct (map fst (Recents s)) \<and> distinct (map snd (Recents s)) \<and>
     (\<forall>k \<in> fst ` set (Recents s). unat k \<le> n \<and> n < unat k + window (Signers s))"

lemma unat_limit: "card (Signers s) < 2 ^ 64 \<Longrightarrow> unat (limit s) = window (Signers s)"
  unfolding limit_def window_def by (rule unat_u64_of_nat) simp

lemma set_delete: "set (AList.delete k xs) = {p \<in> set xs. fst p \<noteq> k}"
  by (auto simp: AList.delete_eq)

lemma update_new: "k \<notin> fst ` set xs \<Longrightarrow> AList.update k v xs = xs @ [(k, v)]"
  by (induction xs) auto

lemma distinct_snd_delete: "distinct (map snd xs) \<Longrightarrow> distinct (map snd (AList.delete k xs))"
  by (simp add: AList.delete_eq distinct_map_filter)

text \<open>After pruning at a block, or after a change of the signers, the window of this block is left.\<close>

lemma prune_window:
  assumes "card (Signers s) < 2 ^ 64" and "distinct (map fst (Recents s))" and "distinct (map snd (Recents s))"
    and "\<forall>k \<in> fst ` set (Recents s). unat k \<le> m \<and> unat n < Suc (unat k + window (Signers s))"
  shows "distinct (map fst (Recents (prune n s)))" and "distinct (map snd (Recents (prune n s)))"
    and "\<forall>k \<in> fst ` set (Recents (prune n s)). unat k \<le> m \<and> unat n < unat k + window (Signers s)"
proof -
  note l = unat_limit [OF assms(1)]
  have keep: "Recents (prune n s) = Recents s" if "\<not> limit s \<le> n" using that by (simp add: prune_def)
  have del: "Recents (prune n s) = AList.delete (n - limit s) (Recents s)" if "limit s \<le> n" using that by (simp add: prune_def)
  show "distinct (map fst (Recents (prune n s)))" "distinct (map snd (Recents (prune n s)))"
    using assms(2,3) keep del by (cases "limit s \<le> n"; simp add: distinct_delete distinct_snd_delete)+
  show "\<forall>k \<in> fst ` set (Recents (prune n s)). unat k \<le> m \<and> unat n < unat k + window (Signers s)"
  proof (cases "limit s \<le> n")
    case True
    have u: "unat (n - limit s) = unat n - window (Signers s)" "window (Signers s) \<le> unat n"
      using True l by (simp_all add: unat_sub word_le_nat_alt)
    have "unat n < unat k + window (Signers s)" if "k \<noteq> n - limit s" "unat n < Suc (unat k + window (Signers s))" for k
    proof -
      have "unat k \<noteq> unat n - window (Signers s)" using that(1) u(1) by (metis word_unat_eq_iff)
      with that(2) u(2) show ?thesis by linarith
    qed
    with assms(4) True del show ?thesis by (auto simp: set_delete)
  next
    case False
    then have "unat n < window (Signers s)" using l by (simp add: word_le_nat_alt)
    with assms(4) False keep show ?thesis by auto
  qed
qed

lemma card_insert_window: "finite S \<Longrightarrow> window S \<le> window (insert a S)"
  by (cases "a \<in> S") (auto simp: window_def insert_absorb)

lemma card_delete_window: "finite S \<Longrightarrow> window S \<le> Suc (window (S - {a}))"
  by (cases "a \<in> S") (auto simp: window_def card_Diff_singleton)

lemma recents_ok_enact:
  assumes "finite (Signers s)" and "card (Signers s) < 2 ^ 64" and "recents_ok (unat n) s"
  shows "recents_ok (unat n) (enact n a s)"
proof (cases "\<exists>t. Tallies s a = Some t \<and> t_Votes t > int (card (Signers s) div 2) ")
  case False
  then show ?thesis using assms by (auto simp: enact_def split: option.splits)
next
  case True
  then obtain t where t: "Tallies s a = Some t" "t_Votes t > int (card (Signers s) div 2)" by blast
  have r: "distinct (map fst (Recents s))" "distinct (map snd (Recents s))"
    "\<forall>k \<in> fst ` set (Recents s). unat k \<le> unat n \<and> unat n < unat k + window (Signers s)"
    using assms(3) by (simp_all add: recents_ok_def)
  show ?thesis
  proof (cases "t_Authorize t")
    case True
    then have "Recents (enact n a s) = Recents s" "Signers (enact n a s) = insert a (Signers s)"
      using t by (simp_all add: enact_def Let_def)
    with r card_insert_window [OF assms(1), of a] show ?thesis unfolding recents_ok_def by fastforce
  next
    case False
    let ?s = "s\<lparr>Signers := Signers s - {a}\<rparr>"
    have e: "Recents (enact n a s) = Recents (prune n ?s)" "Signers (enact n a s) = Signers ?s"
      using t False by (simp_all add: enact_def Let_def)
    have c: "card (Signers ?s) < 2 ^ 64" using assms(2) card_Diff1_le [of "Signers s" a] by simp
    have "\<forall>k \<in> fst ` set (Recents ?s). unat k \<le> unat n \<and> unat n < Suc (unat k + window (Signers ?s))"
      using r(3) card_delete_window [OF assms(1), of a] by fastforce
    from prune_window [OF c _ _ this] r(1,2) show ?thesis unfolding recents_ok_def e by simp
  qed
qed

subsection \<open>One header\<close>

definition cleared :: "CliqueConfig \<Rightarrow> u64 \<Rightarrow> VoteSnapshot \<Rightarrow> VoteSnapshot" where
  "cleared cfg number s = (if number mod Epoch cfg = 0 then s\<lparr>Votes := [], Tallies := Map.empty\<rparr> else s)"

lemma cleared_sel [simp]:
  "Signers (cleared cfg n s) = Signers s" "Recents (cleared cfg n s) = Recents s" "s_Number (cleared cfg n s) = s_Number s"
  by (simp_all add: cleared_def)

lemma votes_ok_cleared: "votes_ok s \<Longrightarrow> votes_ok (cleared cfg n s)"
  by (auto simp: cleared_def votes_ok_def valid_votes_def tally_of_def fun_eq_iff)

text \<open>The snapshot after the signer of a header was noted and its previous vote dropped.\<close>

definition noted :: "CliqueConfig \<Rightarrow> u64 \<Rightarrow> bytes \<Rightarrow> bytes \<Rightarrow> VoteSnapshot \<Rightarrow> VoteSnapshot" where
  "noted cfg number signer address s =
     (let s = prune number (cleared cfg number s);
          s = s\<lparr>Recents := AList.update number signer (Recents s)\<rparr>
      in discard_previous signer address [] (Votes s) s)"

lemma apply_header_Inr:
  assumes "apply_header cfg recover h s = Some (Inr s')"
  obtains number signer where "Number64 h = Some number" "recover h = Some (Inr signer)" "Epoch cfg \<noteq> 0"
    "signer \<in> Signers s" "signer \<notin> snd ` set (Recents (prune number (cleared cfg number s)))"
    "h_Nonce h = nonceAuthVote \<or> h_Nonce h = nonceDropVote"
    "s' = enact number (h_Coinbase h)
       (record_vote number signer (h_Coinbase h) (h_Nonce h = nonceAuthVote) (noted cfg number signer (h_Coinbase h) s))"
proof -
  have e: "Epoch cfg \<noteq> 0" using assms by (cases "Number64 h") (simp_all add: apply_header_def split: if_splits)
  from assms obtain number where n: "Number64 h = Some number" by (cases "Number64 h") (simp_all add: apply_header_def)
  from assms e n obtain r where r: "recover h = Some r" by (cases "recover h") (simp_all add: apply_header_def)
  from assms e n r obtain signer where x: "r = Inr signer" by (cases r) (simp_all add: apply_header_def)
  let ?s = "prune number (cleared cfg number s)"
  let ?b = "record_vote number signer (h_Coinbase h) (h_Nonce h = nonceAuthVote) (noted cfg number signer (h_Coinbase h) s)"
  have "(if signer \<notin> Signers ?s then Some (Inl ErrUnauthorizedSigner)
      else if signer \<in> set (map snd (Recents ?s)) then Some (Inl ErrRecentlySigned)
      else if h_Nonce h = nonceAuthVote \<or> h_Nonce h = nonceDropVote then Some (Inr (enact number (h_Coinbase h) ?b))
      else Some (Inl ErrInvalidVote)) = Some (Inr s')"
    using assms e n r x unfolding apply_header_def noted_def by (simp add: Let_def cleared_def [symmetric] split: if_splits)
  then show ?thesis using that [OF n _ e] r x by (simp split: if_splits)
qed

lemma noted_sel [simp]:
  "Signers (noted cfg n x a s) = Signers s"
  "Recents (noted cfg n x a s) = AList.update n x (Recents (prune n (cleared cfg n s)))" "s_Number (noted cfg n x a s) = s_Number s"
  by (simp_all add: noted_def Let_def)

lemma votes_ok_noted:
  assumes "votes_ok s"
  shows "votes_ok (noted cfg n x a s)"
    and "Votes (noted cfg n x a s) = filter (\<lambda>v. ballot v \<noteq> (x, a)) (Votes (cleared cfg n s))"
proof -
  let ?s = "prune n (cleared cfg n s)\<lparr>Recents := AList.update n x (Recents (prune n (cleared cfg n s)))\<rparr>"
  have "votes_ok ?s"
    using votes_ok_cleared [OF assms] by (subst votes_ok_cong [of _ "cleared cfg n s"]) simp_all
  from votes_ok_discard [OF this, of x a] show "votes_ok (noted cfg n x a s)"
    "Votes (noted cfg n x a s) = filter (\<lambda>v. ballot v \<noteq> (x, a)) (Votes (cleared cfg n s))"
    by (simp_all add: noted_def Let_def)
qed

lemma recents_ok_noted:
  assumes "card (Signers s) < 2 ^ 64" and "recents_ok m s" and "unat n = Suc m"
    and "x \<notin> snd ` set (Recents (prune n (cleared cfg n s)))"
  shows "recents_ok (unat n) (noted cfg n x a s)"
proof -
  let ?r = "Recents (prune n (cleared cfg n s))"
  have k: "\<forall>k \<in> fst ` set (Recents (cleared cfg n s)). unat k \<le> m \<and> unat n < Suc (unat k + window (Signers (cleared cfg n s)))"
    "distinct (map fst (Recents (cleared cfg n s)))" "distinct (map snd (Recents (cleared cfg n s)))"
    using assms(2,3) by (simp_all add: recents_ok_def)
  have c: "card (Signers (cleared cfg n s)) < 2 ^ 64" using assms(1) by simp
  note r = prune_window [OF c k(2,3,1)]
  then have new: "n \<notin> fst ` set ?r" using assms(3) by fastforce
  then have u: "AList.update n x ?r = ?r @ [(n, x)]" by (rule update_new)
  have "unat k \<le> unat n \<and> unat n < unat k + window (Signers s)" if "k \<in> fst ` set (?r @ [(n, x)])" for k
    using r(3) that assms(3) by (auto simp: window_def)
  with r(1,2) new assms(4) show ?thesis unfolding recents_ok_def noted_sel u by simp
qed

definition clique_inv :: "nat \<Rightarrow> VoteSnapshot \<Rightarrow> bool" where
  "clique_inv n s \<longleftrightarrow> finite (Signers s) \<and> votes_ok s \<and> recents_ok n s"

lemma apply_header_inv:
  assumes "clique_inv m s" and "card (Signers s) < 2 ^ 64" and "Number64 h = Some n" and "unat n = Suc m"
    and "apply_header cfg recover h s = Some (Inr s')"
  shows "clique_inv (Suc m) s'" and "s_Number s' = s_Number s" and "card (Signers s') \<le> Suc (card (Signers s))"
proof -
  obtain k x where k: "Number64 h = Some k" "recover h = Some (Inr x)" "Epoch cfg \<noteq> 0"
    "x \<in> Signers s" "x \<notin> snd ` set (Recents (prune k (cleared cfg k s)))"
    "h_Nonce h = nonceAuthVote \<or> h_Nonce h = nonceDropVote"
    "s' = enact k (h_Coinbase h) (record_vote k x (h_Coinbase h) (h_Nonce h = nonceAuthVote) (noted cfg k x (h_Coinbase h) s))"
    by (rule apply_header_Inr [OF assms(5)])
  have n: "k = n" using k(1) assms(3) by simp
  note x = k(4,5,7) [unfolded n]
  let ?t = "noted cfg n x (h_Coinbase h) s"
  let ?r = "record_vote n x (h_Coinbase h) (h_Nonce h = nonceAuthVote) ?t"
  have inv: "finite (Signers s)" "votes_ok s" "recents_ok m s" using assms(1) by (simp_all add: clique_inv_def)
  have "votes_ok ?t" "(x, h_Coinbase h) \<notin> ballot ` set (Votes ?t)" 
    using votes_ok_noted [OF inv(2), of cfg n x "h_Coinbase h"] by auto
  then have v: "votes_ok ?r" using x(1) by (intro votes_ok_record(1)) simp_all
  have "recents_ok (unat n) ?t" using recents_ok_noted [OF assms(2) inv(3) assms(4) x(2)] .
  then have "recents_ok (unat n) ?r" by (simp add: recents_ok_def)
  then have "recents_ok (unat n) s'" unfolding x(3) using inv(1) assms(2) by (intro recents_ok_enact) simp_all
  moreover have "finite (Signers s')" using enact_Signers [of n "h_Coinbase h" ?r] inv(1)
    unfolding x(3) by (elim disjE) simp_all
  ultimately show "clique_inv (Suc m) s'" using votes_ok_enact [OF v] assms(4) by (simp add: clique_inv_def x(3))
  have "card (Signers s - {h_Coinbase h}) \<le> card (Signers s)" by (rule card_Diff1_le)
  moreover have "card (insert (h_Coinbase h) (Signers s)) \<le> Suc (card (Signers s))" using inv(1) by (simp add: card_insert_if)
  ultimately show "card (Signers s') \<le> Suc (card (Signers s))"
    using enact_Signers [of n "h_Coinbase h" ?r] unfolding x(3) by (elim disjE) simp_all
  show "s_Number s' = s_Number s"
    unfolding x(3) by (simp add: enact_def Let_def split: option.splits)
qed

lemma consecutive_Cons:
  assumes "consecutive (h # hs) = Some True" and "Number64 h = Some n"
  shows "consecutive hs = Some True" and "hs \<noteq> [] \<Longrightarrow> Number64 (hd hs) = Some (n + 1)"
  using assms by (cases hs; auto split: Option.bind_splits if_splits)+

lemma apply_loop_inv:
  assumes "clique_inv m s" and "card (Signers s) + length hs < 2 ^ 64" and "consecutive hs = Some True"
    and "hs \<noteq> [] \<Longrightarrow> Number64 (hd hs) = Some (word_of_nat (Suc m))" and "m + length hs < 2 ^ 64"
    and "apply_loop cfg recover hs s = Some (Inr s')"
  shows "clique_inv (m + length hs) s' \<and> s_Number s' = s_Number s"
  using assms
proof (induction hs arbitrary: m s)
  case (Cons h hs)
  from Cons.prems(6) obtain s1 where s1: "apply_header cfg recover h s = Some (Inr s1)" "apply_loop cfg recover hs s1 = Some (Inr s')"
    by (auto split: Option.bind_splits sum.splits)
  have n: "Number64 h = Some (word_of_nat (Suc m))" using Cons.prems(4) by simp
  have u: "unat (word_of_nat (Suc m) :: u64) = Suc m" using Cons.prems(5) by (intro unat_u64_of_nat) simp
  have c: "card (Signers s) < 2 ^ 64" using Cons.prems(2) by simp
  note i = apply_header_inv [OF Cons.prems(1) c n u s1(1)]
  have "clique_inv (Suc m + length hs) s' \<and> s_Number s' = s_Number s1"
    using i consecutive_Cons [OF Cons.prems(3) n] Cons.prems(2,5) s1(2) by (intro Cons.IH) (simp_all add: add.commute)
  with i(2) show ?case by simp
qed simp

text \<open>
  C7: An invariant of the voting snapshot, kept by \<open>apply\<close> over any chain of headers: the tally of
  an address is the number of votes for it and their common direction, a signer has at most one
  vote per address, all votes are by signers and would change something, and in the window of
  recent blocks, whose length follows the number of signers, every block has a signer of its own.
\<close>

theorem apply_headers_invariant:
  assumes "clique_inv (unat (s_Number s)) s" and "card (Signers s) + length hs < 2 ^ 64"
    and "unat (s_Number s) + length hs < 2 ^ 64"
    and "apply_headers K cfg recover hs s = Some (Inr s')"
  shows "clique_inv (unat (s_Number s')) s' \<and> unat (s_Number s') = unat (s_Number s) + length hs"
proof (cases "hs = []")
  case True
  with assms show ?thesis by (simp add: apply_headers_def)
next
  case False
  with assms(4) obtain snap where
    snap: "consecutive hs = Some True" "Number64 (hd hs) = Some (s_Number s + 1)" "apply_loop cfg recover hs s = Some (Inr snap)"
    "s' = snap\<lparr>s_Number := s_Number snap + len64 hs, s_Hash := Header_Hash K (last hs)\<rparr>"
    by (auto simp: apply_headers_def split: Option.bind_splits sum.splits if_splits)
  have "s_Number s + 1 = word_of_nat (Suc (unat (s_Number s)))" by simp
  then have n: "Number64 (hd hs) = Some (word_of_nat (Suc (unat (s_Number s))))" using snap(2) by simp
  from apply_loop_inv [OF assms(1,2) snap(1) n assms(3) snap(3)]
  have i: "clique_inv (unat (s_Number s) + length hs) snap" "s_Number snap = s_Number s" by auto
  have u: "unat (s_Number s + len64 hs) = unat (s_Number s) + length hs"
    using assms(3) by (simp add: unat_word_ariths unat_u64_of_nat)
  have "clique_inv k s' = clique_inv k snap" for k
    by (simp add: snap(4) clique_inv_def recents_ok_def votes_ok_def)
  with i u show ?thesis by (simp add: snap(4))
qed

subsection \<open>Changes of the signers\<close>

lemma voters_card:
  assumes "distinct (map ballot vs)"
  shows "card (v_Signer ` {v \<in> set vs. v_Address v = a}) = votes_for vs a"
proof -
  let ?f = "filter (\<lambda>v. v_Address v = a) vs"
  have "inj_on v_Signer (set ?f)" using assms by (auto simp: distinct_map inj_on_def)
  moreover have "distinct ?f" using assms by (simp add: distinct_map)
  ultimately have "distinct (map v_Signer ?f)" by (simp add: distinct_map)
  then have "card (set (map v_Signer ?f)) = length ?f" by (subst distinct_card) simp_all
  then show ?thesis by (simp add: votes_for_def)
qed

lemma enact_changed:
  assumes "votes_ok s" and "Signers (enact n a s) \<noteq> Signers s"
  shows "card (Signers s) < 2 * votes_for (Votes s) a"
    and "Signers (enact n a s) = (if a \<in> Signers s then Signers s - {a} else insert a (Signers s))"
proof -
  have t: "Tallies s = tally_of (Signers s) (Votes s)" using assms(1) by (simp add: votes_ok_def)
  from assms(2) obtain ta where ta: "Tallies s a = Some ta" "t_Votes ta > int (card (Signers s) div 2)"
    by (auto simp: enact_def split: option.splits if_splits)
  then have "t_Votes ta = int (votes_for (Votes s) a)" "t_Authorize ta \<longleftrightarrow> a \<notin> Signers s"
    by (auto simp: t tally_of_def split: if_splits)
  with ta show "card (Signers s) < 2 * votes_for (Votes s) a"
    "Signers (enact n a s) = (if a \<in> Signers s then Signers s - {a} else insert a (Signers s))"
    by (simp_all add: enact_def Let_def)
qed

text \<open>
  C8: The set of signers changes by one address at most, the one that the header names, and only if
  more than half of the signers have voted for this very change: by an earlier vote that still
  counts or, for the signer of the header, by this header.
\<close>

theorem apply_header_majority:
  assumes "clique_inv m s" and "recover h = Some (Inr x)" and "apply_header cfg recover h s = Some (Inr s')"
    and "Signers s' \<noteq> Signers s"
  shows "Signers s' = (if h_Coinbase h \<in> Signers s then Signers s - {h_Coinbase h} else insert (h_Coinbase h) (Signers s)) \<and>
    (\<exists>V \<subseteq> Signers s. card (Signers s) < 2 * card V \<and>
      (\<forall>y \<in> V. (y = x \<and> (h_Nonce h = nonceAuthVote \<longleftrightarrow> h_Coinbase h \<notin> Signers s)) \<or>
        (\<exists>v \<in> set (Votes s). v_Signer v = y \<and> v_Address v = h_Coinbase h \<and> (v_Authorize v \<longleftrightarrow> h_Coinbase h \<notin> Signers s))))"
proof -
  let ?a = "h_Coinbase h" and ?b = "h_Nonce h = nonceAuthVote"
  obtain n x' where n: "Number64 h = Some n" "recover h = Some (Inr x')" "Epoch cfg \<noteq> 0"
    "x' \<in> Signers s" "x' \<notin> snd ` set (Recents (prune n (cleared cfg n s)))" "?b \<or> h_Nonce h = nonceDropVote"
    "s' = enact n ?a (record_vote n x' ?a ?b (noted cfg n x' ?a s))"
    by (rule apply_header_Inr [OF assms(3)])
  have x: "x' = x" using n(2) assms(2) by simp
  let ?t = "noted cfg n x ?a s"
  let ?r = "record_vote n x ?a ?b ?t"
  have "votes_ok s" using assms(1) by (simp add: clique_inv_def)
  note t = votes_ok_noted [OF this, of cfg n x ?a]
  have "(x, ?a) \<notin> ballot ` set (Votes ?t)" unfolding t(2) by auto
  moreover have "x \<in> Signers ?t" using n(4) x by simp
  ultimately have r: "votes_ok ?r" "Votes ?r = Votes ?t @
      (if validVote ?a ?b ?t then [\<lparr>v_Signer = x, v_Block = n, v_Address = ?a, v_Authorize = ?b\<rparr>] else [])"
    using votes_ok_record [OF t(1)] by simp_all
  have s': "s' = enact n ?a ?r" using n(7) x by simp
  have "Signers (enact n ?a ?r) \<noteq> Signers ?r" using assms(4) s' by simp
  note e = enact_changed [OF r(1) this]
  let ?V = "v_Signer ` {v \<in> set (Votes ?r). v_Address v = ?a}"
  have d: "distinct (map ballot (Votes ?r))" "valid_votes (Signers s) (Votes ?r)" "v_Signer ` set (Votes ?r) \<subseteq> Signers s"
    using r(1) by (simp_all add: votes_ok_def)
  have "set (Votes ?t) \<subseteq> set (Votes s)" unfolding t(2) by (auto simp: cleared_def)
  then have "(v_Signer v = x \<and> (?b \<longleftrightarrow> ?a \<notin> Signers s)) \<or> v \<in> set (Votes s)" if "v \<in> set (Votes ?r)" for v
    using that unfolding r(2) by (auto simp: validVote_def split: if_splits)
  then have "\<forall>y \<in> ?V. (y = x \<and> (?b \<longleftrightarrow> ?a \<notin> Signers s)) \<or>
      (\<exists>v \<in> set (Votes s). v_Signer v = y \<and> v_Address v = ?a \<and> (v_Authorize v \<longleftrightarrow> ?a \<notin> Signers s))"
    using d(2) by (fastforce simp: valid_votes_def)
  moreover have "?V \<subseteq> Signers s" using d(3) by auto
  moreover have "card (Signers s) < 2 * card ?V" using e(1) voters_card [OF d(1), of ?a] by simp
  ultimately show ?thesis using e(2) s' by (intro conjI exI [of _ ?V]) simp_all
qed

subsection \<open>Turns\<close>

lemma signers_set:
  assumes "finite (Signers s)"
  shows "set (signers s) = Signers s" "distinct (signers s)" "length (signers s) = card (Signers s)"
  using assms by (simp_all add: signers_def distinct_card [symmetric])

lemma offset_nth:
  assumes "distinct xs" and "i < length xs"
  shows "length (takeWhile (\<lambda>a. a \<noteq> xs ! i) xs) = i"
proof -
  have "takeWhile (\<lambda>a. a \<noteq> xs ! i) xs = take i xs"
    using assms by (intro takeWhile_eq_take_P_nth) (auto simp: nth_eq_iff_index_eq)
  with assms(2) show ?thesis by simp
qed

lemma inturn_nth:
  assumes "finite (Signers s)" and "card (Signers s) < 2 ^ 64" and "i < card (Signers s)"
  shows "inturn n (signers s ! i) s = Some (unat n mod card (Signers s) = i)"
proof -
  note l = signers_set [OF assms(1)]
  have "(n mod len64 (signers s) = of_nat i) \<longleftrightarrow> unat n mod card (Signers s) = i"
    using assms(2,3) by (simp add: word_unat_eq_iff unat_mod_distrib l(3) unat_u64_of_nat)
  with assms(3) l show ?thesis
    by (auto simp: inturn_def Let_def offset_nth [OF l(2)])
qed

lemma residue_reached:
  assumes "i < (c :: nat)"
  shows "\<exists>k < c. (m + k) mod c = i"
proof -
  let ?k = "(i + (c - m mod c)) mod c"
  have "(m + ?k) mod c = (m mod c + (i + (c - m mod c))) mod c" by (simp add: mod_simps)
  also have "m mod c + (i + (c - m mod c)) = i + c" using mod_less_divisor [of c m] assms by linarith
  finally show ?thesis using assms by (intro exI [of _ ?k]) simp_all
qed

text \<open>
  C30: The signers take turns: as long as there are signers, at every block number exactly one of
  them is in turn, and each of them is in turn at one of any so many consecutive numbers.
\<close>

theorem inturn_rotation:
  assumes "finite (Signers s)" and "Signers s \<noteq> {}" and "unat n + card (Signers s) < 2 ^ 64"
  shows "(\<exists>!x. x \<in> Signers s \<and> inturn n x s = Some True) \<and>
    (\<forall>x \<in> Signers s. \<exists>k < card (Signers s). inturn (n + word_of_nat k) x s = Some True)"
proof -
  let ?c = "card (Signers s)"
  note l = signers_set [OF assms(1)]
  have c: "0 < ?c" "?c < 2 ^ 64" using assms by (simp_all add: card_gt_0_iff)
  note turn = inturn_nth [OF assms(1) c(2)]
  have idx: "\<exists>i < ?c. x = signers s ! i" if "x \<in> Signers s" for x
    using that l by (metis in_set_conv_nth)
  have "\<exists>!x. x \<in> Signers s \<and> inturn n x s = Some True"
  proof (rule ex1I [of _ "signers s ! (unat n mod ?c)"])
    show "signers s ! (unat n mod ?c) \<in> Signers s \<and> inturn n (signers s ! (unat n mod ?c)) s = Some True"
      using c(1) turn [of "unat n mod ?c" n] l nth_mem [of "unat n mod ?c" "signers s"] by simp
    show "x = signers s ! (unat n mod ?c)" if "x \<in> Signers s \<and> inturn n x s = Some True" for x
      using idx [of x] that turn by auto
  qed
  moreover have "\<exists>k < ?c. inturn (n + word_of_nat k) x s = Some True" if "x \<in> Signers s" for x
  proof -
    from idx [OF that] obtain i where i: "i < ?c" "x = signers s ! i" by blast
    from residue_reached [OF i(1), of "unat n"] obtain k where k: "k < ?c" "(unat n + k) mod ?c = i" by blast
    have "unat (n + word_of_nat k) = unat n + k"
      using k(1) assms(3) by (simp add: unat_word_ariths unat_u64_of_nat)
    with k turn [OF i(1), of "n + word_of_nat k"] i(2) show ?thesis by auto
  qed
  ultimately show ?thesis by blast
qed

theorem inturn_rotation_witness:
  "(\<exists>x. x \<in> {[1], [2]} \<and> inturn 5 x (newSnapshot 0 [] [[1], [2]]) = Some True) \<and>
   (\<exists>k < 2. inturn (5 + word_of_nat k) [1] (newSnapshot 0 [] [[1], [2]]) = Some True)"
proof -
  have S: "Signers (newSnapshot 0 [] [[1], [2]]) = {[1], [2]}" by (simp add: newSnapshot_def)
  have "finite (Signers (newSnapshot 0 [] [[1], [2]]))" "Signers (newSnapshot 0 [] [[1], [2]]) \<noteq> {}"
    "unat (5 :: u64) + card (Signers (newSnapshot 0 [] [[1], [2]])) < 2 ^ 64" unfolding S by simp_all
  note r = inturn_rotation [OF this, unfolded S]
  have "card {[1 :: byte], [2]} = 2" by simp
  with r show ?thesis by (metis insertI1)
qed

subsection \<open>Signing too soon\<close>

lemma apply_header_recently:
  assumes "Number64 h = Some n" and "recover h = Some (Inr x)" and "Epoch cfg \<noteq> 0" and "x \<in> Signers s"
  shows "apply_header cfg recover h s = Some (Inl ErrRecentlySigned) \<longleftrightarrow> x \<in> snd ` set (Recents (prune n (cleared cfg n s)))"
  using assms by (simp add: apply_header_def Let_def cleared_def [symmetric])

lemma pruned_recents:
  assumes "card (Signers s) < 2 ^ 64" and "recents_ok m s" and "unat n = Suc m"
  shows "x \<in> snd ` set (Recents (prune n (cleared cfg n s))) \<longleftrightarrow> must_wait n x s"
proof (cases "limit s \<le> n")
  case False
  then have "Recents (prune n (cleared cfg n s)) = Recents s" by (simp add: prune_def limit_def)
  with False show ?thesis by (force simp: must_wait_def)
next
  case True
  note l = unat_limit [OF assms(1)]
  have u: "unat (n - limit s) = unat n - window (Signers s)" "window (Signers s) \<le> unat n"
    using True l by (simp_all add: unat_sub word_le_nat_alt)
  have k: "k \<noteq> n - limit s \<longleftrightarrow> k > n - limit s" if "k \<in> fst ` set (Recents s)" for k
  proof -
    have "m < unat k + window (Signers s)" using assms(2) that unfolding recents_ok_def by blast
    then have "unat (n - limit s) \<le> unat k" using u assms(3) by simp
    then show ?thesis by (simp add: word_less_nat_alt word_unat_eq_iff) linarith
  qed
  have "Recents (prune n (cleared cfg n s)) = AList.delete (n - limit s) (Recents s)" using True by (simp add: prune_def limit_def)
  then have "x \<in> snd ` set (Recents (prune n (cleared cfg n s))) \<longleftrightarrow> (\<exists>k. (k, x) \<in> set (Recents s) \<and> k \<noteq> n - limit s)"
    by (force simp: set_delete)
  also have "\<dots> \<longleftrightarrow> (\<exists>k. (k, x) \<in> set (Recents s) \<and> k > n - limit s)" using k by (metis fst_conv image_eqI)
  also have "\<dots> \<longleftrightarrow> must_wait n x s" using True by (auto simp: must_wait_def)
  finally show ?thesis .
qed

lemma verifySeal_recently:
  assumes "Number64 h = Some n" and "n \<noteq> 0" and "recover h = Some (Inr x)" and "x \<in> Signers s"
  shows "verifySeal fakeDiff recover s h = Some (Some ErrRecentlySigned) \<longleftrightarrow>
    (\<exists>(seen, recent) \<in> set (Recents s). recent = x \<and> seen > n - limit s)"
  using assms by (auto simp: verifySeal_def split: Option.bind_splits if_splits)

text \<open>
  C31: A signer that asks \<open>Seal\<close> is made to wait exactly when \<open>apply\<close> would refuse its block as
  signed too soon; from the block on whose number reaches the length of the window, \<open>verifySeal\<close>
  gives the same verdict.
\<close>

theorem Seal_agrees:
  assumes "clique_inv m s" and "card (Signers s) < 2 ^ 64" and "Number64 h = Some n" and "unat n = Suc m"
    and "recover h = Some (Inr x)" and "x \<in> Signers s" and "Epoch cfg \<noteq> 0"
  shows "(must_wait n x s \<longleftrightarrow> apply_header cfg recover h s = Some (Inl ErrRecentlySigned)) \<and>
    (limit s \<le> n \<longrightarrow>
      (verifySeal fakeDiff recover s h = Some (Some ErrRecentlySigned) \<longleftrightarrow> apply_header cfg recover h s = Some (Inl ErrRecentlySigned)))"
proof -
  have r: "recents_ok m s" using assms(1) by (simp add: clique_inv_def)
  have "n \<noteq> 0" using assms(4) by auto
  note v = verifySeal_recently [of h n recover x s fakeDiff, OF assms(3) this assms(5,6)]
  have "(\<exists>(seen, recent) \<in> set (Recents s). recent = x \<and> seen > n - limit s) \<longleftrightarrow> must_wait n x s" if "limit s \<le> n"
    using that by (auto simp: must_wait_def)
  then show ?thesis
    using v apply_header_recently [of h n recover x cfg s, OF assms(3,5,7,6)] pruned_recents [OF assms(2) r assms(4), of x cfg] by simp
qed

subsection \<open>Examples\<close>

definition sample_header :: "int \<Rightarrow> bytes \<Rightarrow> Header" where
  "sample_header n coinbase =
     \<lparr>h_ParentHash = [], h_UncleHash = [], h_Coinbase = coinbase, h_Root = [], h_TxHash = [], h_ReceiptHash = [], h_Bloom = [],
      h_Difficulty = Some 1, h_Number = Some n, h_GasLimit = 0, h_GasUsed = 0, h_Time = 0, h_Extra = [], h_MixDigest = [],
      h_Nonce = nonceAuthVote\<rparr>"

abbreviation sample_config :: CliqueConfig where
  "sample_config \<equiv> \<lparr>Period = 15, Epoch = 30000\<rparr>"

lemma clique_inv_new: "clique_inv n (newSnapshot number hash xs)"
  by (simp add: clique_inv_def newSnapshot_def votes_ok_def valid_votes_def recents_ok_def tally_of_def fun_eq_iff)

lemma Number64_sample: "Number64 (sample_header n c) = Some (word_of_int \<bar>n\<bar>)"
  by (simp add: Number64_def sample_header_def)

lemma sample_header_sel [simp]:
  "h_Coinbase (sample_header n c) = c" "h_Nonce (sample_header n c) = nonceAuthVote" "h_Difficulty (sample_header n c) = Some 1"
  by (simp_all add: sample_header_def)

lemmas sample_apply = apply_headers_def apply_header_def Number64_sample newSnapshot_def Let_def prune_def limit_def
  record_vote_def cast_vote_def validVote_def enact_def

theorem apply_headers_invariant_witness:
  "\<exists>s'. apply_headers (\<lambda>_. []) sample_config (\<lambda>_. Some (Inr [1])) [sample_header 1 [2]] (newSnapshot 0 [] [[1]]) = Some (Inr s') \<and>
     Signers s' = {[1], [2]} \<and> clique_inv (unat (s_Number s')) s' \<and> unat (s_Number s') = 1"
proof -
  obtain s' where s': "apply_headers (\<lambda>_. []) sample_config (\<lambda>_. Some (Inr [1])) [sample_header 1 [2]] (newSnapshot 0 [] [[1]]) =
    Some (Inr s')" "Signers s' = {[1], [2]}"
    by (simp add: sample_apply insert_commute)
  have "clique_inv (unat (s_Number (newSnapshot 0 [] [[1]]))) (newSnapshot 0 [] [[1]])" by (rule clique_inv_new)
  from apply_headers_invariant [OF this _ _ s'(1)] have "clique_inv (unat (s_Number s')) s'" "unat (s_Number s') = 1"
    by (auto simp: newSnapshot_def)
  with s' show ?thesis by blast
qed

theorem apply_header_majority_witness:
  "\<exists>s'. apply_header sample_config (\<lambda>_. Some (Inr [1])) (sample_header 1 [2]) (newSnapshot 0 [] [[1]]) = Some (Inr s') \<and>
     Signers s' = insert [2] {[1]} \<and>
     (\<exists>V \<subseteq> {[1 :: byte]}. card {[1 :: byte]} < 2 * card V)"
proof -
  obtain s' where s': "apply_header sample_config (\<lambda>_. Some (Inr [1])) (sample_header 1 [2]) (newSnapshot 0 [] [[1]]) =
    Some (Inr s')" "Signers s' \<noteq> {[1]}"
    by (simp add: sample_apply)
  have e: "Signers (newSnapshot 0 [] [[1]]) = {[1]}" by (simp add: newSnapshot_def)
  from apply_header_majority [OF clique_inv_new refl s'(1)] s' show ?thesis unfolding e by auto
qed

definition early_snapshot :: "bytes list \<Rightarrow> VoteSnapshot" where
  "early_snapshot xs = (newSnapshot 1 [] xs)\<lparr>Recents := [(1, [1])]\<rparr>"

lemma early_inv: "distinct xs \<Longrightarrow> 1 < length xs \<Longrightarrow> clique_inv 1 (early_snapshot xs)"
  by (simp add: clique_inv_def early_snapshot_def newSnapshot_def votes_ok_def valid_votes_def recents_ok_def tally_of_def
      fun_eq_iff window_def distinct_card)

theorem Seal_agrees_witness:
  "apply_header sample_config (\<lambda>_. Some (Inr [1])) (sample_header 2 [2]) (early_snapshot [[1], [2], [3]]) = Some (Inl ErrRecentlySigned) \<and>
   verifySeal True (\<lambda>_. Some (Inr [1])) (early_snapshot [[1], [2], [3]]) (sample_header 2 [2]) = Some (Some ErrRecentlySigned)"
proof -
  let ?s = "early_snapshot [[1], [2], [3]]"
  have i: "clique_inv 1 ?s" by (rule early_inv) simp_all
  have l: "limit ?s = 2" "Signers ?s = {[1], [2], [3]}" by (simp_all add: limit_def early_snapshot_def newSnapshot_def)
  have w: "must_wait 2 [1] ?s" unfolding must_wait_def l by (simp add: early_snapshot_def)
  have n: "Number64 (sample_header 2 [2]) = Some 2" by (simp add: Number64_sample)
  from Seal_agrees [OF i _ n, of "\<lambda>_. Some (Inr [1])" "[1]" sample_config True] w show ?thesis by (simp add: l)
qed


end
